(* ===== verification/Muffin_Prelude.thy ===== *)
theory Muffin_Prelude
  imports Main "HOL-Library.Word"
begin

text \<open>
  What the components of the kernel model share: the outcome of a Rust function (a value, an
  error of its \<open>Result\<close> or a panic), the slice operations of \<open>core::slice\<close> that the
  sources use on byte buffers, the checked machine arithmetic of \<open>u64\<close>/\<open>usize\<close>, and the
  little-endian encoding of integers. The collections \<open>slice_simps\<close> and \<open>outcome_simps\<close>
  hold the rewrite rules the component theories rely on.
\<close>

unbundle bit_operations_syntax

named_theorems slice_simps \<open>rules for slices and slice updates\<close>
named_theorems outcome_simps \<open>rules for outcomes and their sequencing\<close>

type_synonym u8 = "8 word"
type_synonym u16 = "16 word"
type_synonym u32 = "32 word"
type_synonym u64 = "64 word"
type_synonym bytes = "u8 list"

section \<open>Outcomes of Rust functions\<close>

text \<open>
  A function returning \<open>Result<'a, 'e>\<close> yields \<open>Ok\<close> or \<open>Err\<close>; a failed assertion, an
  \<open>unwrap\<close> of nothing, an out-of-range index and a checked arithmetic overflow end in
  \<open>Panic\<close>. A function returning \<open>Option<'a>\<close> that can also panic is an outcome with the
  unit error, \<open>Err ()\<close> standing for \<open>None\<close>.
\<close>

datatype ('e, 'a) outcome = Ok 'a | Err 'e | Panic

type_synonym 'a opt_outcome = "(unit, 'a) outcome"

text \<open>The \<open>?\<close> operator.\<close>

primrec obind :: "('e, 'a) outcome \<Rightarrow> ('a \<Rightarrow> ('e, 'b) outcome) \<Rightarrow> ('e, 'b) outcome" where
  "obind (Ok x) f = f x"
| "obind (Err e) f = Err e"
| "obind Panic f = Panic"

primrec map_err :: "('e \<Rightarrow> 'f) \<Rightarrow> ('e, 'a) outcome \<Rightarrow> ('f, 'a) outcome" where
  "map_err g (Ok x) = Ok x"
| "map_err g (Err e) = Err (g e)"
| "map_err g Panic = Panic"

primrec is_ok :: "('e, 'a) outcome \<Rightarrow> bool" where
  "is_ok (Ok x) = True"
| "is_ok (Err e) = False"
| "is_ok Panic = False"

text \<open>\<open>Option::ok_or\<close> followed by \<open>?\<close>, and \<open>Option::unwrap\<close> or \<open>expect\<close>.\<close>

definition ok_or :: "'a option \<Rightarrow> 'e \<Rightarrow> ('e, 'a) outcome" where
  "ok_or x e = (case x of Some v \<Rightarrow> Ok v | None \<Rightarrow> Err e)"

definition unwrap :: "'a option \<Rightarrow> ('e, 'a) outcome" where
  "unwrap x = (case x of Some v \<Rightarrow> Ok v | None \<Rightarrow> Panic)"

text \<open>\<open>assert!\<close> in statement position.\<close>

definition assert_that :: "bool \<Rightarrow> ('e, 'a) outcome \<Rightarrow> ('e, 'a) outcome" where
  "assert_that b k = (if b then k else Panic)"

lemma obind_Ok_iff [outcome_simps]:
  "obind m f = Ok y \<longleftrightarrow> (\<exists>x. m = Ok x \<and> f x = Ok y)"
  by (cases m) auto

lemma obind_Err_iff [outcome_simps]:
  "obind m f = Err e \<longleftrightarrow> m = Err e \<or> (\<exists>x. m = Ok x \<and> f x = Err e)"
  by (cases m) auto

lemma obind_Panic_iff [outcome_simps]:
  "obind m f = Panic \<longleftrightarrow> m = Panic \<or> (\<exists>x. m = Ok x \<and> f x = Panic)"
  by (cases m) auto

lemma map_err_iff [outcome_simps]:
  "map_err g m = Ok x \<longleftrightarrow> m = Ok x"
  "map_err g m = Err f \<longleftrightarrow> (\<exists>e. m = Err e \<and> f = g e)"
  "map_err g m = Panic \<longleftrightarrow> m = Panic"
  by (cases m; auto)+

lemma ok_or_iff [outcome_simps]:
  "ok_or x e = Ok v \<longleftrightarrow> x = Some v"
  "ok_or x e = Err e' \<longleftrightarrow> x = None \<and> e' = e"
  "ok_or x e \<noteq> Panic"
  by (auto simp: ok_or_def split: option.splits)

lemma unwrap_iff [outcome_simps]:
  "unwrap x = Ok v \<longleftrightarrow> x = Some v"
  "unwrap x \<noteq> Err e"
  "unwrap x = Panic \<longleftrightarrow> x = None"
  by (auto simp: unwrap_def split: option.splits)

lemma assert_that_iff [outcome_simps]:
  "assert_that b k = Ok v \<longleftrightarrow> b \<and> k = Ok v"
  "assert_that b k = Err e \<longleftrightarrow> b \<and> k = Err e"
  "assert_that b k = Panic \<longleftrightarrow> (b \<longrightarrow> k = Panic)"
  by (auto simp: assert_that_def)

lemma is_ok_iff: "is_ok m \<longleftrightarrow> (\<exists>x. m = Ok x)"
  by (cases m) auto

lemma set_map_filter: "y \<in> set (List.map_filter f xs) \<longleftrightarrow> (\<exists>x \<in> set xs. f x = Some y)"
  by (induction xs) (auto simp: map_filter_simps split: option.splits)

section \<open>Stateful functions\<close>

text \<open>
  A function that changes a state yields its outcome beside the state it leaves, also when it
  fails; \<open>sbind\<close> is the sequencing of two of them with the \<open>?\<close> operator, \<open>lift_pure\<close> a call
  that leaves the state alone.
\<close>

type_synonym ('e, 'a, 's) run = "('e, 'a) outcome \<times> 's"

definition sbind :: "('e, 'a, 's) run \<Rightarrow> ('a \<Rightarrow> 's \<Rightarrow> ('e, 'b, 's) run) \<Rightarrow> ('e, 'b, 's) run" where
  "sbind m f = (case fst m of Ok x \<Rightarrow> f x (snd m) | Err e \<Rightarrow> (Err e, snd m) | Panic \<Rightarrow> (Panic, snd m))"

definition lift_pure :: "('e, 'a) outcome \<Rightarrow> 's \<Rightarrow> ('a \<Rightarrow> ('e, 'b, 's) run) \<Rightarrow> ('e, 'b, 's) run" where
  "lift_pure m s f = (case m of Ok x \<Rightarrow> f x | Err e \<Rightarrow> (Err e, s) | Panic \<Rightarrow> (Panic, s))"

lemma sbind_simps [simp]:
  "sbind (Ok x, s) f = f x s"
  "sbind (Err e, s) f = (Err e, s)"
  "sbind (Panic, s) f = (Panic, s)"
  by (simp_all add: sbind_def)

lemma lift_pure_simps [simp]:
  "lift_pure (Ok x) s f = f x"
  "lift_pure (Err e) s f = (Err e, s)"
  "lift_pure Panic s f = (Panic, s)"
  by (simp_all add: lift_pure_def)

lemma sbind_Ok_iff [outcome_simps]:
  "sbind m f = (Ok y, s') \<longleftrightarrow> (\<exists>x s. m = (Ok x, s) \<and> f x s = (Ok y, s'))"
  by (cases m; cases "fst m") auto

lemma lift_pure_Ok_iff [outcome_simps]:
  "lift_pure m s f = (Ok y, s') \<longleftrightarrow> (\<exists>x. m = Ok x \<and> f x = (Ok y, s'))"
  by (cases m) auto

section \<open>Checked arithmetic on 64-bit unsigned integers\<close>

text \<open>
  Sizes, indices and addresses are natural numbers; the operations below are the
  \<open>checked_*\<close> methods of \<open>usize\<close> and \<open>u64\<close>, which are also what a plain operator does
  when overflow checks are on (\<open>None\<close> is then the panic).
\<close>

definition U64_LIMIT :: nat where
  "U64_LIMIT = 2 ^ 64"

definition checked_add :: "nat \<Rightarrow> nat \<Rightarrow> nat option" where
  "checked_add a b = (if a + b < U64_LIMIT then Some (a + b) else None)"

definition checked_mul :: "nat \<Rightarrow> nat \<Rightarrow> nat option" where
  "checked_mul a b = (if a * b < U64_LIMIT then Some (a * b) else None)"

definition checked_sub :: "nat \<Rightarrow> nat \<Rightarrow> nat option" where
  "checked_sub a b = (if b \<le> a then Some (a - b) else None)"

lemma checked_add_Some [simp]: "checked_add a b = Some c \<longleftrightarrow> c = a + b \<and> a + b < U64_LIMIT"
  by (auto simp: checked_add_def)

lemma checked_mul_Some [simp]: "checked_mul a b = Some c \<longleftrightarrow> c = a * b \<and> a * b < U64_LIMIT"
  by (auto simp: checked_mul_def)

lemma checked_sub_Some [simp]: "checked_sub a b = Some c \<longleftrightarrow> b \<le> a \<and> c = a - b"
  by (auto simp: checked_sub_def)

lemma checked_None:
  "checked_add a b = None \<longleftrightarrow> U64_LIMIT \<le> a + b"
  "checked_mul a b = None \<longleftrightarrow> U64_LIMIT \<le> a * b"
  "checked_sub a b = None \<longleftrightarrow> a < b"
  by (auto simp: checked_add_def checked_mul_def checked_sub_def)

section \<open>Slices\<close>

text \<open>\<open>&xs[a..b]\<close> for a valid range, and \<open>xs[a..a + ys.len()].copy_from_slice(ys)\<close>.\<close>

definition slice :: "nat \<Rightarrow> nat \<Rightarrow> 'a list \<Rightarrow> 'a list" where
  "slice a b xs = take (b - a) (drop a xs)"

definition overwrite :: "nat \<Rightarrow> 'a list \<Rightarrow> 'a list \<Rightarrow> 'a list" where
  "overwrite a ys xs = take a xs @ ys @ drop (a + length ys) xs"

text \<open>The same with the bounds checks of indexing: out of range is a panic.\<close>

definition index_range :: "nat \<Rightarrow> nat \<Rightarrow> 'a list \<Rightarrow> ('e, 'a list) outcome" where
  "index_range a b xs = (if a \<le> b \<and> b \<le> length xs then Ok (slice a b xs) else Panic)"

definition copy_into :: "nat \<Rightarrow> 'a list \<Rightarrow> 'a list \<Rightarrow> ('e, 'a list) outcome" where
  "copy_into a ys xs = (if a + length ys \<le> length xs then Ok (overwrite a ys xs) else Panic)"

text \<open>\<open>slice::get(a..b)\<close>, which answers \<open>None\<close> out of range.\<close>

definition get_range :: "nat \<Rightarrow> nat \<Rightarrow> 'a list \<Rightarrow> 'a list option" where
  "get_range a b xs = (if a \<le> b \<and> b \<le> length xs then Some (slice a b xs) else None)"

definition nth_opt :: "'a list \<Rightarrow> nat \<Rightarrow> 'a option" where
  "nth_opt xs i = (if i < length xs then Some (xs ! i) else None)"

lemma length_slice [simp]: "length (slice a b xs) = min (b - a) (length xs - a)"
  by (simp add: slice_def)

lemma length_overwrite [simp]:
  "a + length ys \<le> length xs \<Longrightarrow> length (overwrite a ys xs) = length xs"
  by (simp add: overwrite_def)

lemma nth_slice [slice_simps]:
  "i < b - a \<Longrightarrow> b \<le> length xs \<Longrightarrow> slice a b xs ! i = xs ! (a + i)"
  by (simp add: slice_def)

lemma nth_overwrite [slice_simps]:
  assumes "a + length ys \<le> length xs" and "i < length xs"
  shows "overwrite a ys xs ! i =
    (if i < a then xs ! i else if i < a + length ys then ys ! (i - a) else xs ! i)"
  using assms by (auto simp: overwrite_def nth_append)

lemma slice_overwrite_same [slice_simps]:
  "a + length ys \<le> length xs \<Longrightarrow> slice a (a + length ys) (overwrite a ys xs) = ys"
  by (simp add: slice_def overwrite_def)

lemma slice_overwrite_field [slice_simps]:
  "b = a + length ys \<Longrightarrow> b \<le> length xs \<Longrightarrow> slice a b (overwrite a ys xs) = ys"
  by (simp add: slice_overwrite_same)

lemma slice_overwrite_disjoint [slice_simps]:
  assumes "a + length ys \<le> length xs" and "d \<le> length xs" and "d \<le> a \<or> a + length ys \<le> c"
  shows "slice c d (overwrite a ys xs) = slice c d xs"
  using assms by (intro nth_equalityI) (auto simp: nth_slice nth_overwrite)

lemma overwrite_slice_same [slice_simps]:
  "a \<le> b \<Longrightarrow> b \<le> length xs \<Longrightarrow> overwrite a (slice a b xs) xs = xs"
  by (rule nth_equalityI) (auto simp: nth_overwrite nth_slice)

lemma overwrite_Nil [simp]: "overwrite a [] xs = xs"
  by (simp add: overwrite_def)

lemma slice_full [simp]: "slice 0 (length xs) xs = xs"
  by (simp add: slice_def)

lemma slice_append [slice_simps]:
  "a \<le> b \<Longrightarrow> b \<le> c \<Longrightarrow> slice a b xs @ slice b c xs = slice a c xs"
proof -
  assume "a \<le> b" "b \<le> c"
  then have "drop b xs = drop (b - a) (drop a xs)" by simp
  then have "slice a b xs @ slice b c xs
    = take (b - a) (drop a xs) @ take (c - b) (drop (b - a) (drop a xs))"
    by (simp add: slice_def)
  also have "\<dots> = take ((b - a) + (c - b)) (drop a xs)"
    by (simp only: take_add)
  finally show ?thesis using \<open>a \<le> b\<close> \<open>b \<le> c\<close> by (simp add: slice_def)
qed

lemma overwrite_overwrite_append [slice_simps]:
  assumes "a + length xs + length ys \<le> length zs"
  shows "overwrite (a + length xs) ys (overwrite a xs zs) = overwrite a (xs @ ys) zs"
  using assms by (simp add: overwrite_def ac_simps min_absorb1)

lemma overwrite_patch [slice_simps]:
  assumes "b \<le> e" and "e \<le> length zs" and "a + length ys \<le> e - b"
  shows "overwrite b (overwrite a ys (slice b e zs)) zs = overwrite (b + a) ys zs"
  using assms by (intro nth_equalityI) (auto simp: nth_overwrite nth_slice)

lemma slice_slice [slice_simps]:
  assumes "c + n \<le> b - a" and "b \<le> length xs"
  shows "slice c (c + n) (slice a b xs) = slice (a + c) (a + c + n) xs"
  using assms by (intro nth_equalityI) (auto simp: nth_slice ac_simps)

section \<open>Chunks\<close>

text \<open>\<open>slice::chunks_exact\<close>: the whole chunks of length \<open>n\<close>, the remainder left out.\<close>

function chunks_exact :: "nat \<Rightarrow> 'a list \<Rightarrow> 'a list list" where
  "chunks_exact n xs = (if n = 0 \<or> length xs < n then [] else take n xs # chunks_exact n (drop n xs))"
  by auto

termination by (relation "measure (\<lambda>(n, xs). length xs)") auto

declare chunks_exact.simps [simp del]

lemma chunks_exact_concat:
  "0 < n \<Longrightarrow> length xs = k * n \<Longrightarrow> concat (chunks_exact n xs) = xs \<and> length (chunks_exact n xs) = k"
proof (induction k arbitrary: xs)
  case 0
  then show ?case by (simp add: chunks_exact.simps)
next
  case (Suc k)
  then have "n \<le> length xs" "length (drop n xs) = k * n" by simp_all
  then show ?case using Suc.IH [of "drop n xs"] Suc.prems by (subst chunks_exact.simps, subst (2) chunks_exact.simps) (simp add: chunks_exact.simps [of n xs])
qed

lemma chunks_exact_lengths: "c \<in> set (chunks_exact n xs) \<Longrightarrow> length c = n"
proof (induction n xs rule: chunks_exact.induct)
  case (1 n xs)
  show ?case
  proof (cases "n = 0 \<or> length xs < n")
    case False
    then have "c = take n xs \<or> c \<in> set (chunks_exact n (drop n xs))"
      using 1(2) by (subst (asm) chunks_exact.simps) simp
    then show ?thesis using 1(1) False by auto
  qed (use 1(2) in \<open>simp add: chunks_exact.simps\<close>)
qed

lemma index_range_iff [outcome_simps]:
  "index_range a b xs = Ok ys \<longleftrightarrow> a \<le> b \<and> b \<le> length xs \<and> ys = slice a b xs"
  "index_range a b xs \<noteq> Err e"
  "index_range a b xs = Panic \<longleftrightarrow> \<not> (a \<le> b \<and> b \<le> length xs)"
  by (auto simp: index_range_def)

lemma copy_into_iff [outcome_simps]:
  "copy_into a ys xs = Ok zs \<longleftrightarrow> a + length ys \<le> length xs \<and> zs = overwrite a ys xs"
  "copy_into a ys xs \<noteq> Err e"
  "copy_into a ys xs = Panic \<longleftrightarrow> length xs < a + length ys"
  by (auto simp: copy_into_def)

lemma nth_opt_iff [outcome_simps]:
  "nth_opt xs i = Some x \<longleftrightarrow> i < length xs \<and> xs ! i = x"
  "nth_opt xs i = None \<longleftrightarrow> length xs \<le> i"
  by (auto simp: nth_opt_def)

section \<open>Searching\<close>

text \<open>\<open>Iterator::position\<close>; \<open>Iterator::find\<close> is \<open>List.find\<close>.\<close>

primrec position :: "('a \<Rightarrow> bool) \<Rightarrow> 'a list \<Rightarrow> nat option" where
  "position P [] = None"
| "position P (x # xs) = (if P x then Some 0 else map_option Suc (position P xs))"

lemma position_None_iff: "position P xs = None \<longleftrightarrow> (\<forall>x \<in> set xs. \<not> P x)"
  by (induction xs) auto

lemma position_Some_iff:
  "position P xs = Some i \<longleftrightarrow> i < length xs \<and> P (xs ! i) \<and> (\<forall>j < i. \<not> P (xs ! j))"
proof (induction xs arbitrary: i)
  case Nil
  then show ?case by simp
next
  case (Cons x xs)
  show ?case
  proof (cases i)
    case 0
    then show ?thesis by auto
  next
    case (Suc k)
    then show ?thesis using Cons.IH [of k]
      by (auto simp: All_less_Suc2)
  qed
qed

lemma position_SomeD:
  assumes "position P xs = Some i"
  shows "i < length xs" "P (xs ! i)" "j < i \<Longrightarrow> \<not> P (xs ! j)"
  using assms by (auto simp: position_Some_iff)

section \<open>Little-endian integers\<close>

lemma unat_less_power: "unat (w :: 'a::len word) < 2 ^ LENGTH('a)"
  by (rule unsigned_less)

primrec le_bytes :: "nat \<Rightarrow> nat \<Rightarrow> bytes" where
  "le_bytes 0 v = []"
| "le_bytes (Suc n) v = of_nat (v mod 256) # le_bytes n (v div 256)"

primrec le_val :: "bytes \<Rightarrow> nat" where
  "le_val [] = 0"
| "le_val (b # bs) = unat b + 256 * le_val bs"

lemma length_le_bytes [simp]: "length (le_bytes n v) = n"
  by (induction n arbitrary: v) auto

lemma le_val_bound: "le_val bs < 256 ^ length bs"
proof (induction bs)
  case Nil
  then show ?case by simp
next
  case (Cons b bs)
  have "unat b < 256" using unat_less_power [of b] by simp
  then show ?case using Cons.IH by simp
qed

lemma le_val_le_bytes: "le_val (le_bytes n v) = v mod 256 ^ n"
proof (induction n arbitrary: v)
  case 0
  then show ?case by simp
next
  case (Suc n)
  have "unat (of_nat (v mod 256) :: u8) = v mod 256"
    by (simp add: unat_of_nat)
  then show ?case
    by (simp add: Suc.IH mod_mult2_eq)
qed

lemma le_bytes_le_val: "le_bytes (length bs) (le_val bs) = bs"
proof (induction bs)
  case Nil
  then show ?case by simp
next
  case (Cons b bs)
  have b: "unat b < 256" using unat_less_power [of b] by simp
  then have "(unat b + 256 * le_val bs) mod 256 = unat b"
    and "(unat b + 256 * le_val bs) div 256 = le_val bs" by auto
  then show ?case using Cons.IH by simp
qed

text \<open>\<open>uN::from_le_bytes\<close> and \<open>uN::to_le_bytes\<close> for the word types.\<close>

definition word_from_le :: "bytes \<Rightarrow> 'a::len word" where
  "word_from_le bs = of_nat (le_val bs)"

definition word_to_le :: "nat \<Rightarrow> 'a::len word \<Rightarrow> bytes" where
  "word_to_le n w = le_bytes n (unat w)"

lemma length_word_to_le [simp]: "length (word_to_le n w) = n"
  by (simp add: word_to_le_def)

lemma word_from_to_le:
  fixes w :: "'a::len word"
  assumes "LENGTH('a) = 8 * n"
  shows "word_from_le (word_to_le n w) = w"
proof -
  have "256 ^ n = (2::nat) ^ LENGTH('a)"
    unfolding assms by (simp add: power_mult)
  then have "unat w mod 256 ^ n = unat w"
    using unat_less_power [of w] by simp
  then show ?thesis
    by (simp add: word_from_le_def word_to_le_def le_val_le_bytes)
qed

lemma word_to_from_le:
  assumes "LENGTH('a) = 8 * length bs"
  shows "word_to_le (length bs) (word_from_le bs :: 'a::len word) = bs"
proof -
  have "le_val bs < 2 ^ LENGTH('a)"
    using le_val_bound [of bs] unfolding assms by (simp add: power_mult)
  then have "unat (word_from_le bs :: 'a word) = le_val bs"
    by (simp add: word_from_le_def unat_of_nat)
  then show ?thesis
    by (simp add: word_to_le_def le_bytes_le_val)
qed

section \<open>Alignment of 64-bit addresses\<close>

lemma bit_fifteen: "bit (15 :: u64) n \<longleftrightarrow> n < 4"
proof -
  have "(15 :: u64) = mask 4" by (simp add: mask_eq_exp_minus_1)
  then have "bit (15 :: u64) n \<longleftrightarrow> bit (mask 4 :: u64) n" by (simp only:)
  then show ?thesis unfolding bit_mask_iff by auto
qed

lemma unat_align_16: "unat ((w :: u64) AND NOT 15) = unat w div 16 * 16"
proof -
  have "unat (w AND NOT 15) = push_bit 4 (drop_bit 4 (unat w))"
  proof (rule bit_eqI)
    fix n
    have "bit w n \<Longrightarrow> n < 64" using bit_imp_le_length [of w n] by simp
    then have "bit (w AND NOT 15) n \<longleftrightarrow> bit w n \<and> 4 \<le> n"
      unfolding bit_and_iff bit_not_iff bit_fifteen by auto
    then show "bit (unat (w AND NOT 15)) n \<longleftrightarrow> bit (push_bit 4 (drop_bit 4 (unat w))) n"
      unfolding bit_unsigned_iff bit_push_bit_iff bit_drop_bit_eq by auto
  qed
  then show ?thesis by (simp add: push_bit_eq_mult drop_bit_eq_div)
qed

lemma unat_minus_le: "unat b \<le> unat a \<Longrightarrow> unat (a - b) = unat a - unat b"
  by (simp add: unat_sub word_le_nat_alt)

end
