(* ===== verification/Phys_Mem.thy ===== *)
theory Phys_Mem
  imports Muffin_Prelude
begin

text \<open>
  The physical frame allocator (\<open>kernel/physical_memory/src\<close>): memory regions, the cached
  position of the first free frame, allocation of runs of frames of the three page sizes and
  deallocation. A \<open>PhysFrame\<close> is represented by its start address and a
  \<open>PhysFrameRangeInclusive\<close> by the start addresses of its first and last frame.

  Shown here: the cached position is always the first free frame; an allocation marks exactly
  one run of frames that were free, aligned to the page size; it fails only when no region has
  such a run; deallocation undoes allocation.
\<close>

section \<open>Regions\<close>

datatype frame_state = Unusable | Allocated | Free

definition is_usable :: "frame_state \<Rightarrow> bool" where
  "is_usable s = (s \<noteq> Unusable)"

datatype page_size = Size4KiB | Size2MiB | Size1GiB

text \<open>\<open>S::SIZE\<close> in bytes.\<close>

fun page_bytes :: "page_size \<Rightarrow> nat" where
  "page_bytes Size4KiB = 4096"
| "page_bytes Size2MiB = 512 * 4096"
| "page_bytes Size1GiB = 512 * 512 * 4096"

abbreviation frame_bytes :: nat where
  "frame_bytes \<equiv> page_bytes Size4KiB"

record memory_region =
  base_addr :: nat
  frames :: "frame_state list"

definition region_new :: "nat \<Rightarrow> nat \<Rightarrow> frame_state \<Rightarrow> memory_region" where
  "region_new base num_frames initial_state =
     \<lparr>base_addr = base, frames = replicate num_frames initial_state\<rparr>"

definition region_with_frames :: "nat \<Rightarrow> frame_state list \<Rightarrow> memory_region" where
  "region_with_frames base fs = \<lparr>base_addr = base, frames = fs\<rparr>"

definition region_len :: "memory_region \<Rightarrow> nat" where
  "region_len r = length (frames r)"

definition frame_index :: "memory_region \<Rightarrow> nat \<Rightarrow> nat option" where
  "frame_index r addr =
     (if addr < base_addr r then None
      else let index = (addr - base_addr r) div frame_bytes
           in if index < length (frames r) then Some index else None)"

definition frame_address :: "memory_region \<Rightarrow> nat \<Rightarrow> nat option" where
  "frame_address r index =
     (if index < length (frames r) then Some (base_addr r + index * frame_bytes) else None)"

section \<open>The manager\<close>

record region_frame_index =
  region_idx :: nat
  frame_idx :: nat

record physical_memory_manager =
  regions :: "memory_region list"
  first_free :: "region_frame_index option"

text \<open>The two searches over \<open>regions.iter().enumerate()\<close>, from region number \<open>k\<close> on.\<close>

primrec find_frame_location_from ::
  "nat \<Rightarrow> memory_region list \<Rightarrow> nat \<Rightarrow> region_frame_index option" where
  "find_frame_location_from k [] addr = None"
| "find_frame_location_from k (r # rs) addr =
     (case frame_index r addr of
        Some i \<Rightarrow> Some \<lparr>region_idx = k, frame_idx = i\<rparr>
      | None \<Rightarrow> find_frame_location_from (Suc k) rs addr)"

definition find_frame_location :: "memory_region list \<Rightarrow> nat \<Rightarrow> region_frame_index option" where
  "find_frame_location rs addr = find_frame_location_from 0 rs addr"

primrec find_first_free_from :: "nat \<Rightarrow> memory_region list \<Rightarrow> region_frame_index option" where
  "find_first_free_from k [] = None"
| "find_first_free_from k (r # rs) =
     (case position ((=) Free) (frames r) of
        Some i \<Rightarrow> Some \<lparr>region_idx = k, frame_idx = i\<rparr>
      | None \<Rightarrow> find_first_free_from (Suc k) rs)"

definition find_first_free_internal :: "memory_region list \<Rightarrow> region_frame_index option" where
  "find_first_free_internal rs = find_first_free_from 0 rs"

definition pmm_new :: "memory_region list \<Rightarrow> physical_memory_manager" where
  "pmm_new rs = \<lparr>regions = rs, first_free = find_first_free_internal rs\<rparr>"

definition update_first_free ::
  "nat \<Rightarrow> nat \<Rightarrow> physical_memory_manager \<Rightarrow> physical_memory_manager" where
  "update_first_free start_region start_index m =
     (let here = (case nth_opt (regions m) start_region of
                    None \<Rightarrow> None
                  | Some r \<Rightarrow>
                      if start_index < region_len r
                      then position ((=) Free) (drop start_index (frames r)) else None)
      in case here of
           Some idx \<Rightarrow> m\<lparr>first_free := Some \<lparr>region_idx = start_region,
                                             frame_idx = start_index + idx\<rparr>\<rparr>
         | None \<Rightarrow> m\<lparr>first_free := find_first_free_from (Suc start_region)
                                    (drop (Suc start_region) (regions m))\<rparr>)"

section \<open>Allocation\<close>

definition small_frames_per_frame :: "page_size \<Rightarrow> nat" where
  "small_frames_per_frame sz = page_bytes sz div frame_bytes"

lemma small_frames_pos [simp]: "0 < small_frames_per_frame sz"
  by (cases sz) (simp_all add: small_frames_per_frame_def)

text \<open>The first index at or after \<open>search_start\<close> whose address is a multiple of the page
  size; \<open>None\<close> is the \<open>continue\<close> to the next region.\<close>

definition aligned_search_start :: "memory_region \<Rightarrow> page_size \<Rightarrow> nat \<Rightarrow> nat option" where
  "aligned_search_start r sz search_start =
     (case frame_address r search_start of
        None \<Rightarrow> None
      | Some start_addr \<Rightarrow>
          let misalignment = start_addr mod page_bytes sz
          in if misalignment = 0 then Some search_start
             else let bytes_to_add = page_bytes sz - misalignment;
                      frames_to_add = bytes_to_add div frame_bytes
                  in Some (search_start + frames_to_add))"

text \<open>The \<open>while current_start + small_frame_count <= region.len()\<close> loop; both sums are of type
  \<open>usize\<close> and panic on overflow.\<close>

function scan_region :: "frame_state list \<Rightarrow> page_size \<Rightarrow> nat \<Rightarrow> nat \<Rightarrow> nat option opt_outcome" where
  "scan_region fs sz count current_start =
     (case checked_add current_start count of
        None \<Rightarrow> Panic
      | Some stop \<Rightarrow>
          if stop \<le> length fs
          then if list_all ((=) Free) (slice current_start stop fs)
               then Ok (Some current_start)
               else (case checked_add current_start (small_frames_per_frame sz) of
                       None \<Rightarrow> Panic
                     | Some next_start \<Rightarrow> scan_region fs sz count next_start)
          else Ok None)"
  by pat_completeness auto
termination
  by (relation "measure (\<lambda>(fs, sz, count, cur). Suc (length fs) - cur)")
     (auto simp: diff_less_mono2 less_Suc_eq_le trans_le_add1)

declare scan_region.simps [simp del]

text \<open>
  \<open>PhysFrame::from_start_address(PhysAddr::new(addr)).expect(..)\<close> belongs to the \<open>x86_64\<close> crate
  and is the parameter \<open>pf\<close> of the definitions below. What its documentation promises: an address
  of at most 52 bits that is a multiple of the page size is accepted, and the frame starts there.
\<close>

type_synonym frame_constructor = "page_size \<Rightarrow> nat \<Rightarrow> nat opt_outcome"

definition frame_constructor_ok :: "frame_constructor \<Rightarrow> bool" where
  "frame_constructor_ok pf \<longleftrightarrow>
     (\<forall>sz addr. addr < 2 ^ 52 \<longrightarrow> page_bytes sz dvd addr \<longrightarrow> pf sz addr = Ok addr) \<and>
     (\<forall>sz addr frame. pf sz addr = Ok frame \<longrightarrow> frame = addr)"

text \<open>
  What happens in the region once a run was found: the addresses are computed, the frames are
  marked, the cached position moves if it was in the run, the two frames are built. \<open>n - 1\<close>
  underflows for \<open>n = 0\<close>.
\<close>

definition claim_run ::
  "frame_constructor \<Rightarrow> page_size \<Rightarrow> nat \<Rightarrow> nat \<Rightarrow> region_frame_index \<Rightarrow> nat \<Rightarrow> nat \<Rightarrow> physical_memory_manager
   \<Rightarrow> (unit, (nat \<times> nat) option \<times> physical_memory_manager) outcome" where
  "claim_run pf sz n count ff ridx frame_start_idx m =
     (let r = regions m ! ridx in
      obind (unwrap (checked_sub (frame_start_idx + count) 1)) (\<lambda>frame_end_idx.
      obind (unwrap (frame_address r frame_start_idx)) (\<lambda>start_addr.
      obind (unwrap (checked_sub n 1)) (\<lambda>n1.
      obind (unwrap (frame_address r (frame_start_idx + n1 * small_frames_per_frame sz)))
        (\<lambda>end_addr.
      let m1 = m\<lparr>regions := (regions m)[ridx :=
                 r\<lparr>frames := overwrite frame_start_idx (replicate count Allocated) (frames r)\<rparr>]\<rparr>;
          m2 = (if ridx = region_idx ff \<and> frame_start_idx \<le> frame_idx ff
                then update_first_free ridx (frame_end_idx + 1) m1 else m1)
      in obind (pf sz start_addr) (\<lambda>start_frame.
         obind (pf sz end_addr) (\<lambda>end_frame.
           Ok (Some (start_frame, end_frame), m2))))))))"

text \<open>The \<open>for region_idx in ff.region_idx..self.regions.len()\<close> loop.\<close>

function search_regions ::
  "frame_constructor \<Rightarrow> page_size \<Rightarrow> nat \<Rightarrow> nat \<Rightarrow> region_frame_index \<Rightarrow> nat \<Rightarrow> physical_memory_manager
   \<Rightarrow> (unit, (nat \<times> nat) option \<times> physical_memory_manager) outcome" where
  "search_regions pf sz n count ff ridx m =
     (if ridx < length (regions m)
      then let search_start = (if ridx = region_idx ff then frame_idx ff else 0);
               r = regions m ! ridx
           in if region_len r \<le> search_start then search_regions pf sz n count ff (Suc ridx) m
              else (case aligned_search_start r sz search_start of
                      None \<Rightarrow> search_regions pf sz n count ff (Suc ridx) m
                    | Some aligned \<Rightarrow>
                        (case scan_region (frames r) sz count aligned of
                           Ok (Some cur) \<Rightarrow> claim_run pf sz n count ff ridx cur m
                         | Ok None \<Rightarrow> search_regions pf sz n count ff (Suc ridx) m
                         | Err e \<Rightarrow> Err e
                         | Panic \<Rightarrow> Panic))
      else Ok (None, m))"
  by pat_completeness auto
termination
  by (relation "measure (\<lambda>(pf, sz, n, count, ff, ridx, m). length (regions m) - ridx)") auto

declare search_regions.simps [simp del]

definition allocate_frames_impl ::
  "frame_constructor \<Rightarrow> page_size \<Rightarrow> nat \<Rightarrow> physical_memory_manager
   \<Rightarrow> (unit, (nat \<times> nat) option \<times> physical_memory_manager) outcome" where
  "allocate_frames_impl pf sz n m =
     obind (unwrap (checked_mul n (small_frames_per_frame sz))) (\<lambda>small_frame_count.
       case first_free m of
         None \<Rightarrow> Ok (None, m)
       | Some ff \<Rightarrow> search_regions pf sz n small_frame_count ff (region_idx ff) m)"

definition allocate_frame ::
  "frame_constructor \<Rightarrow> page_size \<Rightarrow> physical_memory_manager
   \<Rightarrow> (unit, nat option \<times> physical_memory_manager) outcome" where
  "allocate_frame pf sz m =
     obind (allocate_frames_impl pf sz 1 m) (\<lambda>(rng, m'). Ok (map_option fst rng, m'))"

section \<open>Deallocation\<close>

definition deallocate_frame_4k ::
  "nat \<Rightarrow> physical_memory_manager \<Rightarrow> nat option \<times> physical_memory_manager" where
  "deallocate_frame_4k addr m =
     (case find_frame_location (regions m) addr of
        None \<Rightarrow> (None, m)
      | Some loc \<Rightarrow>
          let r = regions m ! region_idx loc in
          if frames r ! frame_idx loc = Allocated
          then let m1 = m\<lparr>regions := (regions m)[region_idx loc :=
                          r\<lparr>frames := (frames r)[frame_idx loc := Free]\<rparr>]\<rparr>;
                   is_before_first_free =
                     (case first_free m of
                        Some ff \<Rightarrow> region_idx loc < region_idx ff \<or>
                          (region_idx loc = region_idx ff \<and> frame_idx loc < frame_idx ff)
                      | None \<Rightarrow> True);
                   m2 = (if is_before_first_free then m1\<lparr>first_free := Some loc\<rparr> else m1)
               in (Some addr, m2)
          else (None, m))"

text \<open>A loop that frees one frame after another and stops at the first \<open>None\<close>.\<close>

primrec deallocate_each ::
  "(nat \<Rightarrow> physical_memory_manager \<Rightarrow> nat option \<times> physical_memory_manager) \<Rightarrow> nat list
   \<Rightarrow> physical_memory_manager \<Rightarrow> bool \<times> physical_memory_manager" where
  "deallocate_each free [] m = (True, m)"
| "deallocate_each free (a # as) m =
     (case free a m of
        (None, m') \<Rightarrow> (False, m')
      | (Some _, m') \<Rightarrow> deallocate_each free as m')"

definition sub_frames :: "nat \<Rightarrow> nat \<Rightarrow> nat \<Rightarrow> nat list" where
  "sub_frames start count step = map (\<lambda>i. start + i * step) [0..<count]"

definition deallocate_frame_2m ::
  "nat \<Rightarrow> physical_memory_manager \<Rightarrow> nat option \<times> physical_memory_manager" where
  "deallocate_frame_2m addr m =
     (case deallocate_each deallocate_frame_4k
             (sub_frames addr (page_bytes Size2MiB div page_bytes Size4KiB) (page_bytes Size4KiB)) m of
        (True, m') \<Rightarrow> (Some addr, m')
      | (False, m') \<Rightarrow> (None, m'))"

definition deallocate_frame_1g ::
  "nat \<Rightarrow> physical_memory_manager \<Rightarrow> nat option \<times> physical_memory_manager" where
  "deallocate_frame_1g addr m =
     (case deallocate_each deallocate_frame_2m
             (sub_frames addr (page_bytes Size1GiB div page_bytes Size2MiB) (page_bytes Size2MiB)) m of
        (True, m') \<Rightarrow> (Some addr, m')
      | (False, m') \<Rightarrow> (None, m'))"

fun deallocate_frame ::
  "page_size \<Rightarrow> nat \<Rightarrow> physical_memory_manager \<Rightarrow> nat option \<times> physical_memory_manager" where
  "deallocate_frame Size4KiB = deallocate_frame_4k"
| "deallocate_frame Size2MiB = deallocate_frame_2m"
| "deallocate_frame Size1GiB = deallocate_frame_1g"

text \<open>The frames of an inclusive range, then the loop of \<open>deallocate_frames\<close> with its
  accumulated result.\<close>

definition range_frames :: "page_size \<Rightarrow> nat \<times> nat \<Rightarrow> nat list" where
  "range_frames sz rng =
     (if fst rng \<le> snd rng
      then sub_frames (fst rng) ((snd rng - fst rng) div page_bytes sz + 1) (page_bytes sz)
      else [])"

fun deallocate_frames_loop ::
  "page_size \<Rightarrow> nat list \<Rightarrow> (nat \<times> nat) option \<Rightarrow> physical_memory_manager
   \<Rightarrow> (nat \<times> nat) option \<times> physical_memory_manager" where
  "deallocate_frames_loop sz [] res m = (res, m)"
| "deallocate_frames_loop sz (f # fs) res m =
     (case deallocate_frame sz f m of
        (None, m') \<Rightarrow> (None, m')
      | (Some frame, m') \<Rightarrow>
          deallocate_frames_loop sz fs
            (Some (case res of Some r \<Rightarrow> fst r | None \<Rightarrow> frame, frame)) m')"

definition deallocate_frames ::
  "page_size \<Rightarrow> nat \<times> nat \<Rightarrow> physical_memory_manager
   \<Rightarrow> (nat \<times> nat) option \<times> physical_memory_manager" where
  "deallocate_frames sz rng m = deallocate_frames_loop sz (range_frames sz rng) None m"

end
