(* ===== verification/Phys_Mem_Alloc.thy ===== *)
theory Phys_Mem_Alloc
  imports Phys_Mem
begin

text \<open>
  Correctness of allocation in the physical frame allocator: the cached first free position, the
  scan for a run inside a region, the marking of the run, the search over the regions.
\<close>

section \<open>The first free frame\<close>

definition no_free_before :: "memory_region list \<Rightarrow> nat \<Rightarrow> nat \<Rightarrow> bool" where
  "no_free_before rs ri fi \<longleftrightarrow>
     (\<forall>k < length rs. \<forall>j < length (frames (rs ! k)).
        k < ri \<or> (k = ri \<and> j < fi) \<longrightarrow> frames (rs ! k) ! j \<noteq> Free)"

definition is_first_free :: "memory_region list \<Rightarrow> region_frame_index \<Rightarrow> bool" where
  "is_first_free rs loc \<longleftrightarrow>
     region_idx loc < length rs \<and> frame_idx loc < length (frames (rs ! region_idx loc)) \<and>
     frames (rs ! region_idx loc) ! frame_idx loc = Free \<and>
     no_free_before rs (region_idx loc) (frame_idx loc)"

lemma position_Free_None:
  "position ((=) Free) fs = None \<longleftrightarrow> (\<forall>j < length fs. fs ! j \<noteq> Free)"
  by (auto simp: position_None_iff all_set_conv_all_nth)

lemma find_first_free_from_Some:
  "find_first_free_from k rs = Some loc \<longleftrightarrow>
     k \<le> region_idx loc \<and> is_first_free rs (loc\<lparr>region_idx := region_idx loc - k\<rparr>)"
proof (induction rs arbitrary: k)
  case Nil
  then show ?case by (simp add: is_first_free_def)
next
  case (Cons r rs)
  show ?case
  proof (cases "position ((=) Free) (frames r)")
    case None
    then have r: "\<forall>j < length (frames r). frames r ! j \<noteq> Free"
      by (simp add: position_Free_None)
    have "is_first_free (r # rs) (loc\<lparr>region_idx := region_idx loc - k\<rparr>) \<and> k \<le> region_idx loc
      \<longleftrightarrow> Suc k \<le> region_idx loc \<and> is_first_free rs (loc\<lparr>region_idx := region_idx loc - Suc k\<rparr>)"
    proof (cases "Suc k \<le> region_idx loc")
      case True
      then have "region_idx loc - k = Suc (region_idx loc - Suc k)" by simp
      then show ?thesis using True r
        by (auto simp: is_first_free_def no_free_before_def All_less_Suc2)
    next
      case False
      then show ?thesis using r by (cases "region_idx loc = k") (auto simp: is_first_free_def)
    qed
    then show ?thesis using None Cons.IH [of "Suc k"] by auto
  next
    case (Some i)
    then have i: "i < length (frames r)" "frames r ! i = Free" "\<forall>j < i. frames r ! j \<noteq> Free"
      by (auto simp: position_Some_iff)
    show ?thesis
    proof (cases "region_idx loc = k")
      case True
      have "frame_idx loc = i" if "frame_idx loc < length (frames r)"
        "frames r ! frame_idx loc = Free" "\<forall>j < frame_idx loc. j < length (frames r) \<longrightarrow> frames r ! j \<noteq> Free"
        using that i by (meson linorder_neqE_nat)
      then show ?thesis using Some i True
        by (cases loc) (auto simp: is_first_free_def no_free_before_def)
    next
      case False
      then show ?thesis using Some i
        by (auto simp: is_first_free_def no_free_before_def)
    qed
  qed
qed

lemma find_first_free_from_None:
  "find_first_free_from k rs = None \<longleftrightarrow> (\<forall>r \<in> set rs. Free \<notin> set (frames r))"
proof (induction rs arbitrary: k)
  case (Cons r rs)
  then show ?case
    using position_None_iff [of "(=) Free" "frames r"] by (auto split: option.splits)
qed simp

lemma find_first_free_from_append:
  "\<forall>r \<in> set xs. Free \<notin> set (frames r) \<Longrightarrow>
   find_first_free_from k (xs @ ys) = find_first_free_from (k + length xs) ys"
proof (induction xs arbitrary: k)
  case (Cons r xs)
  then have "position ((=) Free) (frames r) = None" by (auto simp: position_None_iff)
  then show ?case using Cons by simp
qed simp

lemma find_first_free_Some:
  "find_first_free_internal rs = Some loc \<longleftrightarrow> is_first_free rs loc"
  by (simp add: find_first_free_internal_def find_first_free_from_Some)

lemma find_first_free_None:
  "find_first_free_internal rs = None \<longleftrightarrow> (\<forall>r \<in> set rs. Free \<notin> set (frames r))"
  by (simp add: find_first_free_internal_def find_first_free_from_None)

lemma find_first_free_from_drop:
  assumes "k \<le> length rs" and "no_free_before rs k 0"
  shows "find_first_free_from k (drop k rs) = find_first_free_internal rs"
proof -
  have "\<forall>r \<in> set (take k rs). Free \<notin> set (frames r)"
    using assms by (auto simp: in_set_conv_nth no_free_before_def)
  then have "find_first_free_from 0 (take k rs @ drop k rs) = find_first_free_from k (drop k rs)"
    using assms(1) find_first_free_from_append [of "take k rs" 0 "drop k rs"] by simp
  then show ?thesis by (simp add: find_first_free_internal_def)
qed

lemma update_first_free_regions [simp]: "regions (update_first_free a b m) = regions m"
  by (simp add: update_first_free_def Let_def split: option.splits)

text \<open>Starting the search behind a position with nothing free before it finds the first free
  frame.\<close>

lemma update_first_free_correct:
  assumes "no_free_before (regions m) sr si" and "sr < length (regions m)"
  shows "first_free (update_first_free sr si m) = find_first_free_internal (regions m)"
proof -
  let ?r = "regions m ! sr"
  let ?here = "if si < region_len ?r then position ((=) Free) (drop si (frames ?r)) else None"
  show ?thesis
  proof (cases ?here)
    case (Some idx)
    then have si: "si < length (frames ?r)" and "position ((=) Free) (drop si (frames ?r)) = Some idx"
      by (auto simp: region_len_def split: if_splits)
    then have idx: "si + idx < length (frames ?r)" "frames ?r ! (si + idx) = Free"
      "\<forall>j < idx. frames ?r ! (si + j) \<noteq> Free"
      by (auto simp: position_Some_iff)
    have "frames ?r ! j \<noteq> Free" if "j < si + idx" for j
    proof (cases "j < si")
      case True
      then show ?thesis using assms si by (simp add: no_free_before_def)
    next
      case False
      then show ?thesis using idx(3) that by (auto dest!: spec [of _ "j - si"])
    qed
    then have "is_first_free (regions m) \<lparr>region_idx = sr, frame_idx = si + idx\<rparr>"
      using assms idx by (auto simp: is_first_free_def no_free_before_def)
    then show ?thesis using Some assms(2)
      by (simp add: update_first_free_def nth_opt_def find_first_free_Some [symmetric])
  next
    case None
    then have "frames ?r ! j \<noteq> Free" if "si \<le> j" "j < length (frames ?r)" for j
      using that by (auto simp: region_len_def position_Free_None split: if_splits
        dest!: spec [of _ "j - si"])
    then have "frames ?r ! j \<noteq> Free" if "j < length (frames ?r)" for j
      using that assms by (cases "j < si") (auto simp: no_free_before_def)
    then have "no_free_before (regions m) (Suc sr) 0"
      using assms by (auto simp: no_free_before_def less_Suc_eq)
    then show ?thesis using None assms(2) find_first_free_from_drop [of "Suc sr" "regions m"]
      by (simp add: update_first_free_def nth_opt_def)
  qed
qed


section \<open>Searching a region\<close>

definition run_free :: "frame_state list \<Rightarrow> nat \<Rightarrow> nat \<Rightarrow> bool" where
  "run_free fs count i \<longleftrightarrow> i + count \<le> length fs \<and> (\<forall>j < count. fs ! (i + j) = Free)"

lemma list_all_slice_Free:
  "i + count \<le> length fs \<Longrightarrow> list_all ((=) Free) (slice i (i + count) fs) \<longleftrightarrow> run_free fs count i"
  by (auto simp: list_all_length run_free_def nth_slice)

lemma scan_region_next:
  "scan_region fs sz count start =
     (if U64_LIMIT \<le> start + count then Panic
      else if start + count \<le> length fs
      then if run_free fs count start then Ok (Some start)
           else if U64_LIMIT \<le> start + small_frames_per_frame sz then Panic
           else scan_region fs sz count (start + small_frames_per_frame sz)
      else Ok None)"
  by (auto simp: scan_region.simps [of fs sz count start] checked_add_def list_all_slice_Free)

lemma scan_region_Some:
  "scan_region fs sz count start = Ok (Some cur) \<Longrightarrow>
   run_free fs count cur \<and> (\<exists>k. cur = start + k * small_frames_per_frame sz)"
proof (induction "Suc (length fs) - start" arbitrary: start rule: less_induct)
  case less
  show ?case
  proof (cases "run_free fs count start")
    case True
    then have "cur = start" using less.prems
      by (auto simp: scan_region_next [of fs sz count start] run_free_def split: if_splits)
    then show ?thesis using True by (auto intro: exI [of _ 0])
  next
    case False
    then have le: "start + count \<le> length fs"
      and rec: "scan_region fs sz count (start + small_frames_per_frame sz) = Ok (Some cur)"
      using less.prems by (auto simp: scan_region_next [of fs sz count start] split: if_splits)
    have "Suc (length fs) - (start + small_frames_per_frame sz) < Suc (length fs) - start"
      using le small_frames_pos [of sz] by (simp del: small_frames_pos)
    from less.hyps [OF this rec] obtain k where "run_free fs count cur"
      and "cur = start + small_frames_per_frame sz + k * small_frames_per_frame sz" by blast
    then show ?thesis by (intro conjI exI [of _ "Suc k"]) auto
  qed
qed

lemma scan_region_None:
  "scan_region fs sz count start = Ok None \<Longrightarrow>
   \<not> run_free fs count (start + k * small_frames_per_frame sz)"
proof (induction "Suc (length fs) - start" arbitrary: start k rule: less_induct)
  case less
  show ?case
  proof (cases "start + count \<le> length fs")
    case True
    have no: "\<not> run_free fs count start"
      and rec: "scan_region fs sz count (start + small_frames_per_frame sz) = Ok None"
      using less.prems True by (auto simp: scan_region_next [of fs sz count start] split: if_splits)
    have smaller: "Suc (length fs) - (start + small_frames_per_frame sz) < Suc (length fs) - start"
      using True small_frames_pos [of sz] by (simp del: small_frames_pos)
    show ?thesis
    proof (cases k)
      case 0
      then show ?thesis using no by simp
    next
      case (Suc k')
      have "\<not> run_free fs count (start + small_frames_per_frame sz + k' * small_frames_per_frame sz)"
        using less.hyps [OF smaller rec] .
      then show ?thesis using Suc by (simp add: add.assoc)
    qed
  next
    case False
    then show ?thesis by (simp add: run_free_def)
  qed
qed

text \<open>The sums stay in range when the request and the positions of the region do.\<close>

lemma scan_region_returns:
  "start \<le> lim \<Longrightarrow> length fs + small_frames_per_frame sz \<le> lim \<Longrightarrow> lim + count < U64_LIMIT \<Longrightarrow>
   \<exists>r. scan_region fs sz count start = Ok r"
proof (induction "Suc (length fs) - start" arbitrary: start rule: less_induct)
  case less
  have smaller: "Suc (length fs) - (start + small_frames_per_frame sz) < Suc (length fs) - start"
    if "start + count \<le> length fs"
    using that small_frames_pos [of sz] by (simp del: small_frames_pos)
  have "\<exists>r. scan_region fs sz count (start + small_frames_per_frame sz) = Ok r"
    if le: "start + count \<le> length fs"
    using less.hyps [OF smaller [OF le]] less.prems le by simp
  then show ?case using less.prems
    by (auto simp: scan_region_next [of fs sz count start])
qed

lemma scan_region_Err: "scan_region fs sz count start \<noteq> Err e"
proof (induction "Suc (length fs) - start" arbitrary: start rule: less_induct)
  case less
  have "Suc (length fs) - (start + small_frames_per_frame sz) < Suc (length fs) - start"
    if "start + count \<le> length fs"
    using that small_frames_pos [of sz] by (simp del: small_frames_pos)
  from less [OF this] show ?case by (auto simp: scan_region_next [of fs sz count start])
qed

definition aligned_at :: "memory_region \<Rightarrow> page_size \<Rightarrow> nat \<Rightarrow> bool" where
  "aligned_at r sz i \<longleftrightarrow> page_bytes sz dvd base_addr r + i * frame_bytes"

lemma small_frames_4k [simp]: "small_frames_per_frame Size4KiB = Suc 0"
  by (simp add: small_frames_per_frame_def)

lemma page_bytes_eq: "page_bytes sz = small_frames_per_frame sz * 4096"
  by (cases sz) (simp_all add: small_frames_per_frame_def)

lemma next_multiple:
  fixes f x y :: nat
  assumes "0 < f" and "x mod f \<noteq> 0" and "x \<le> y" and "f dvd y"
  shows "\<exists>k. y = x + (f - x mod f) + k * f"
proof -
  define q m where "q = x div f" and "m = x mod f"
  have x: "x = q * f + m" by (simp add: q_def m_def)
  have m: "0 < m" "m < f" using assms(1,2) by (auto simp: m_def)
  obtain c where c: "y = c * f" using assms(4) by (metis dvdE mult.commute)
  have "q * f < c * f" using assms(3) x c m by linarith
  then have "Suc q \<le> c" by simp
  then obtain k where "c = Suc q + k" using le_Suc_ex by blast
  then have "y = x + (f - m) + k * f" using x c m by (simp add: algebra_simps)
  then show ?thesis by (auto simp: m_def)
qed

lemma aligned_at_iff:
  assumes "base_addr r = b * 4096"
  shows "aligned_at r sz i \<longleftrightarrow> small_frames_per_frame sz dvd b + i"
proof -
  have "base_addr r + i * frame_bytes = (b + i) * 4096" using assms by (simp add: algebra_simps)
  then show ?thesis unfolding aligned_at_def page_bytes_eq [of sz] by (simp only: dvd_times_right_cancel_iff)
qed

lemma aligned_search_start_defined:
  "s < region_len r \<Longrightarrow> \<exists>a. aligned_search_start r sz s = Some a"
  by (simp add: aligned_search_start_def frame_address_def region_len_def Let_def)

lemma aligned_search_start_bound:
  "aligned_search_start r sz s = Some a \<Longrightarrow> a \<le> region_len r + small_frames_per_frame sz"
proof -
  assume a: "aligned_search_start r sz s = Some a"
  have "(page_bytes sz - x) div frame_bytes \<le> small_frames_per_frame sz" for x
    unfolding small_frames_per_frame_def by (intro div_le_mono) simp
  moreover have "s < region_len r"
    using a by (auto simp: aligned_search_start_def frame_address_def region_len_def split: if_splits)
  ultimately show ?thesis using a
    by (auto simp: aligned_search_start_def frame_address_def region_len_def Let_def split: if_splits)
      (meson add_le_mono less_imp_le)
qed

lemma aligned_search_start_Some:
  assumes base: "frame_bytes dvd base_addr r"
    and some: "aligned_search_start r sz s = Some a"
  shows "s \<le> a" "aligned_at r sz a"
    "s \<le> i \<Longrightarrow> aligned_at r sz i \<Longrightarrow> \<exists>k. i = a + k * small_frames_per_frame sz"
proof -
  let ?f = "small_frames_per_frame sz"
  obtain b where b: "base_addr r = b * 4096" using base by (auto elim!: dvdE)
  have addr: "base_addr r + s * 4096 = (b + s) * 4096" using b by simp
  have a: "a = (if (b + s) mod ?f = 0 then s else s + (?f - (b + s) mod ?f))"
  proof -
    have "(b + s) * 4096 mod page_bytes sz = ((b + s) mod ?f) * 4096"
      by (simp only: page_bytes_eq mult_mod_left [symmetric])
    moreover have "(?f * 4096 - ((b + s) mod ?f) * 4096) div 4096 = ?f - (b + s) mod ?f"
      by (simp flip: diff_mult_distrib)
    ultimately show ?thesis using some addr
      by (simp add: aligned_search_start_def frame_address_def page_bytes_eq Let_def
        split: if_splits)
  qed
  show "s \<le> a" by (metis a le_add1 order_refl)
  show "aligned_at r sz a"
  proof (cases "(b + s) mod ?f = 0")
    case True
    then show ?thesis using a by (simp add: aligned_at_iff [OF b] mod_0_imp_dvd)
  next
    case False
    then have "a = s + (?f - (b + s) mod ?f)" using a by metis
    then have "b + a = (b + s) div ?f * ?f + ?f"
      using div_mult_mod_eq [of "b + s" ?f] mod_less_divisor [OF small_frames_pos, of "b + s" sz]
      by linarith
    then show ?thesis by (simp add: aligned_at_iff [OF b])
  qed
  show "\<exists>k. i = a + k * ?f" if "s \<le> i" "aligned_at r sz i"
  proof (cases "(b + s) mod ?f = 0")
    case True
    then have "?f dvd (b + i) - (b + s)" using that
      by (intro dvd_diff_nat) (auto simp: aligned_at_iff [OF b] mod_0_imp_dvd)
    then obtain k where "i - s = k * ?f" by (metis add_diff_cancel_left dvdE mult.commute)
    then show ?thesis using a True that by (intro exI [of _ k]) simp
  next
    case False
    have "?f dvd b + i" and "b + s \<le> b + i" using that by (simp_all add: aligned_at_iff [OF b])
    from next_multiple [OF small_frames_pos False this(2) this(1)]
    obtain k where "b + i = b + s + (?f - (b + s) mod ?f) + k * ?f" by blast
    moreover have "a = s + (?f - (b + s) mod ?f)" using a False by metis
    ultimately have "i = a + k * ?f" by linarith
    then show ?thesis by blast
  qed
qed


section \<open>Correctness of allocation\<close>

definition pmm_inv :: "physical_memory_manager \<Rightarrow> bool" where
  "pmm_inv m \<longleftrightarrow> first_free m = find_first_free_internal (regions m)"

definition regions_physical :: "memory_region list \<Rightarrow> bool" where
  "regions_physical rs \<longleftrightarrow>
     (\<forall>r \<in> set rs. frame_bytes dvd base_addr r \<and>
        base_addr r + length (frames r) * frame_bytes \<le> 2 ^ 52)"

lemma pmm_inv_Some: "pmm_inv m \<Longrightarrow> first_free m = Some ff \<Longrightarrow> is_first_free (regions m) ff"
  by (metis find_first_free_Some pmm_inv_def)

lemma pmm_inv_None:
  "pmm_inv m \<Longrightarrow> first_free m = None \<Longrightarrow> \<forall>r \<in> set (regions m). Free \<notin> set (frames r)"
  by (metis find_first_free_None pmm_inv_def)

text \<open>The run of \<open>n\<close> pages that starts at frame \<open>cur\<close> of region \<open>ridx\<close> is free and
  aligned.\<close>

definition free_pages :: "memory_region list \<Rightarrow> page_size \<Rightarrow> nat \<Rightarrow> nat \<Rightarrow> nat \<Rightarrow> bool" where
  "free_pages rs sz n ridx cur \<longleftrightarrow> ridx < length rs \<and> aligned_at (rs ! ridx) sz cur \<and>
     run_free (frames (rs ! ridx)) (n * small_frames_per_frame sz) cur"

definition mark_run :: "memory_region list \<Rightarrow> frame_state \<Rightarrow> nat \<Rightarrow> nat \<Rightarrow> nat \<Rightarrow> memory_region list"
  where
  "mark_run rs st count ridx cur =
     rs[ridx := (rs ! ridx)\<lparr>frames := overwrite cur (replicate count st) (frames (rs ! ridx))\<rparr>]"

text \<open>What a successful allocation has done.\<close>

definition allocated :: "page_size \<Rightarrow> nat \<Rightarrow> physical_memory_manager \<Rightarrow> nat \<times> nat
    \<Rightarrow> physical_memory_manager \<Rightarrow> bool" where
  "allocated sz n m rng m' \<longleftrightarrow>
     (\<exists>ridx cur. free_pages (regions m) sz n ridx cur \<and>
        fst rng = base_addr (regions m ! ridx) + cur * frame_bytes \<and>
        snd rng = fst rng + (n - 1) * page_bytes sz \<and>
        regions m' = mark_run (regions m) Allocated (n * small_frames_per_frame sz) ridx cur)"

lemma frames_mark_run:
  assumes "ridx < length rs" and "cur + count \<le> length (frames (rs ! ridx))"
    and "k < length rs"
  shows "length (frames (mark_run rs st count ridx cur ! k)) = length (frames (rs ! k))"
    "base_addr (mark_run rs st count ridx cur ! k) = base_addr (rs ! k)"
    "j < length (frames (rs ! k)) \<Longrightarrow> frames (mark_run rs st count ridx cur ! k) ! j =
       (if k = ridx \<and> cur \<le> j \<and> j < cur + count then st else frames (rs ! k) ! j)"
  using assms by (auto simp: mark_run_def nth_list_update nth_overwrite)

lemma length_mark_run [simp]: "length (mark_run rs st count ridx cur) = length rs"
  by (simp add: mark_run_def)

lemma no_free_before_mark:
  assumes "ridx < length rs" and "cur + count \<le> length (frames (rs ! ridx))"
    and "no_free_before rs ri fi"
  shows "no_free_before (mark_run rs Allocated count ridx cur) ri fi"
  using assms by (auto simp: no_free_before_def frames_mark_run split: if_splits)

lemma run_free_first: "run_free fs count i \<Longrightarrow> 0 < count \<Longrightarrow> i < length fs \<and> fs ! i = Free"
  by (force simp: run_free_def)

lemma run_after_first_free:
  assumes "is_first_free rs ff" and "free_pages rs sz n ridx cur" and "1 \<le> n"
  shows "region_idx ff < ridx \<or> (region_idx ff = ridx \<and> frame_idx ff \<le> cur)"
proof (rule ccontr)
  assume "\<not> ?thesis"
  moreover have "0 < n * small_frames_per_frame sz" using assms(3) by simp
  then have "frames (rs ! ridx) ! cur = Free" "cur < length (frames (rs ! ridx))" "ridx < length rs"
    using assms(2) run_free_first by (auto simp: free_pages_def)
  ultimately show False using assms(1) unfolding is_first_free_def no_free_before_def
    by (metis linorder_neqE_nat not_le)
qed

lemma frames_of_run:
  assumes "frame_constructor_ok pf" and "regions_physical rs" and "free_pages rs sz (Suc n) ridx cur"
  shows "pf sz (base_addr (rs ! ridx) + cur * frame_bytes) = Ok (base_addr (rs ! ridx) + cur * frame_bytes)"
    and "pf sz (base_addr (rs ! ridx) + (cur + n * small_frames_per_frame sz) * frame_bytes) =
      Ok (base_addr (rs ! ridx) + (cur + n * small_frames_per_frame sz) * frame_bytes)"
proof -
  let ?r = "rs ! ridx" and ?w = "small_frames_per_frame sz"
  have lim: "base_addr ?r + length (frames ?r) * frame_bytes \<le> 2 ^ 52"
    using assms(2,3) by (auto simp: regions_physical_def free_pages_def)
  have "cur + Suc n * ?w \<le> length (frames ?r)" using assms(3) by (auto simp: free_pages_def run_free_def)
  then have fit: "cur + n * ?w < length (frames ?r)" using small_frames_pos [of sz] by (simp del: small_frames_pos)
  have al: "page_bytes sz dvd base_addr ?r + cur * frame_bytes"
    using assms(3) by (auto simp: free_pages_def aligned_at_def)
  moreover have "base_addr ?r + (cur + n * ?w) * frame_bytes = base_addr ?r + cur * frame_bytes + n * page_bytes sz"
    by (simp add: page_bytes_eq [of sz] algebra_simps)
  ultimately have "page_bytes sz dvd base_addr ?r + (cur + n * ?w) * frame_bytes" by (metis dvd_add dvd_triv_right)
  moreover have "base_addr ?r + i * frame_bytes < 2 ^ 52" if "i < length (frames ?r)" for i
    using lim that by simp
  ultimately show "pf sz (base_addr ?r + cur * frame_bytes) = Ok (base_addr ?r + cur * frame_bytes)"
    "pf sz (base_addr ?r + (cur + n * ?w) * frame_bytes) = Ok (base_addr ?r + (cur + n * ?w) * frame_bytes)"
    using assms(1) al fit unfolding frame_constructor_ok_def by (meson add_lessD1)+
qed

lemma claim_run_correct:
  assumes "first_free m = Some ff" and "pmm_inv m" and "1 \<le> n"
    and pf: "frame_constructor_ok pf" "regions_physical (regions m)"
    and free: "free_pages (regions m) sz n ridx cur"
  shows "\<exists>rng m'. claim_run pf sz n (n * small_frames_per_frame sz) ff ridx cur m = Ok (Some rng, m')
    \<and> allocated sz n m rng m' \<and> pmm_inv m'"
proof -
  let ?count = "n * small_frames_per_frame sz"
  let ?rs = "mark_run (regions m) Allocated ?count ridx cur"
  let ?m1 = "m\<lparr>regions := ?rs\<rparr>"
  let ?m2 = "if ridx = region_idx ff \<and> cur \<le> frame_idx ff
             then update_first_free ridx (cur + ?count) ?m1 else ?m1"
  let ?r = "regions m ! ridx"
  have ff: "is_first_free (regions m) ff" using assms(1,2) by (simp add: pmm_inv_Some)
  have ridx: "ridx < length (regions m)" and fit: "cur + ?count \<le> length (frames ?r)"
    using free by (auto simp: free_pages_def run_free_def)
  have count: "0 < ?count" using assms(3) by simp
  obtain n' where n: "n = Suc n'" using assms(3) by (cases n) auto
  have last: "cur + n' * small_frames_per_frame sz < length (frames ?r)"
    using fit n small_frames_pos [of sz] by (simp del: small_frames_pos)
  have after: "region_idx ff < ridx \<or> (region_idx ff = ridx \<and> frame_idx ff \<le> cur)"
    using run_after_first_free [OF ff free assms(3)] .
  have inv: "pmm_inv ?m2"
  proof (cases "ridx = region_idx ff \<and> cur \<le> frame_idx ff")
    case True
    then have "cur = frame_idx ff" using after by simp
    have "no_free_before (regions m) ridx cur" using ff True \<open>cur = frame_idx ff\<close>
      by (simp add: is_first_free_def)
    then have "no_free_before ?rs ridx (cur + ?count)"
      using no_free_before_mark [OF ridx fit, of ridx cur] ridx fit
      by (auto simp: no_free_before_def frames_mark_run)
    then show ?thesis using True ridx update_first_free_correct [of ?m1 ridx "cur + ?count"]
      by (simp add: pmm_inv_def)
  next
    case False
    have "is_first_free ?rs ff"
      using ff after False no_free_before_mark [OF ridx fit]
      by (auto simp: is_first_free_def frames_mark_run [OF ridx fit])
    then have "find_first_free_internal ?rs = Some ff" by (simp add: find_first_free_Some)
    then show ?thesis using False assms(1) unfolding pmm_inv_def by auto
  qed
  have "claim_run pf sz n ?count ff ridx cur m =
      Ok (Some (base_addr ?r + cur * frame_bytes,
                base_addr ?r + (cur + n' * small_frames_per_frame sz) * frame_bytes), ?m2)"
  proof -
    have ge: "1 \<le> cur + ?count" using count by linarith
    then have "unwrap (checked_sub (cur + ?count) 1) = (Ok (cur + ?count - 1) :: nat opt_outcome)"
      by (simp only: checked_sub_def if_True unwrap_def option.case)
    moreover have "cur + ?count - 1 + 1 = cur + ?count" using ge by linarith
    moreover have "unwrap (checked_sub n 1) = (Ok n' :: nat opt_outcome)" using n by (simp add: checked_sub_def unwrap_def)
    moreover have "unwrap (frame_address ?r i) = (Ok (base_addr ?r + i * frame_bytes) :: nat opt_outcome)"
      if "i < length (frames ?r)" for i using that by (simp add: frame_address_def unwrap_def)
    ultimately show ?thesis using last frames_of_run [OF pf free [unfolded n]]
      by (simp add: claim_run_def Let_def mark_run_def)
  qed
  moreover have "allocated sz n m (base_addr ?r + cur * frame_bytes,
      base_addr ?r + (cur + n' * small_frames_per_frame sz) * frame_bytes) ?m2"
  proof -
    have "(n - 1) * page_bytes sz = n' * small_frames_per_frame sz * 4096"
      using n by (simp add: page_bytes_eq [of sz])
    moreover have "regions ?m2 = ?rs" by simp
    ultimately show ?thesis unfolding allocated_def using free
      by (intro exI [of _ ridx] exI [of _ cur]) (simp add: add_mult_distrib)
  qed
  ultimately show ?thesis using inv by blast
qed

text \<open>A region of physical memory has at most \<open>2 ^ 40\<close> frames, so a scan can only overflow for
  requests beyond \<open>2 ^ 63\<close> frames.\<close>

lemma region_len_physical:
  assumes "regions_physical rs" and "k < length rs"
  shows "length (frames (rs ! k)) \<le> 2 ^ 40"
proof -
  have "base_addr (rs ! k) + length (frames (rs ! k)) * 4096 \<le> 2 ^ 52"
    using assms by (simp add: regions_physical_def)
  then show ?thesis by simp
qed

lemma scan_physical:
  assumes "regions_physical rs" and "k < length rs" and "aligned_search_start (rs ! k) sz s = Some a"
  shows "(\<exists>r. scan_region (frames (rs ! k)) sz count a = Ok r) \<or>
    scan_region (frames (rs ! k)) sz count a = Panic \<and> 2 ^ 63 < count"
proof (cases "count \<le> 2 ^ 63")
  case True
  have "small_frames_per_frame sz \<le> 2 ^ 18" by (cases sz) (simp_all add: small_frames_per_frame_def)
  then have "length (frames (rs ! k)) + small_frames_per_frame sz \<le> 2 ^ 41"
    using region_len_physical [OF assms(1,2)] by simp
  moreover have "a \<le> 2 ^ 41"
    using aligned_search_start_bound [OF assms(3)] calculation by (simp add: region_len_def)
  moreover have "2 ^ 41 + count < U64_LIMIT" using True by (simp add: U64_LIMIT_def)
  ultimately show ?thesis using scan_region_returns by blast
next
  case False
  then show ?thesis using scan_region_Err by (cases "scan_region (frames (rs ! k)) sz count a") auto
qed

lemma free_pages_small:
  assumes "regions_physical rs" and "free_pages rs sz n k i"
  shows "n * small_frames_per_frame sz \<le> 2 ^ 40"
  using region_len_physical [OF assms(1), of k] assms(2) by (auto simp: free_pages_def run_free_def)

lemma scan_finds_pages:
  assumes "regions_physical rs" and "k < length rs" and a: "aligned_search_start (rs ! k) sz s = Some a"
    and cur: "scan_region (frames (rs ! k)) sz (n * small_frames_per_frame sz) a = Ok (Some cur)"
  shows "free_pages rs sz n k cur"
proof -
  have base: "frame_bytes dvd base_addr (rs ! k)" using assms(1,2) by (simp add: regions_physical_def)
  obtain i where i: "cur = a + i * small_frames_per_frame sz"
    and free: "run_free (frames (rs ! k)) (n * small_frames_per_frame sz) cur"
    using scan_region_Some [OF cur] by blast
  have "base_addr (rs ! k) + cur * frame_bytes = (base_addr (rs ! k) + a * frame_bytes) + i * page_bytes sz"
    by (simp add: i page_bytes_eq [of sz] algebra_simps)
  then have "aligned_at (rs ! k) sz cur" using aligned_search_start_Some(2) [OF base a]
    unfolding aligned_at_def by (metis dvd_add dvd_triv_right)
  then show ?thesis using free assms(2) by (simp add: free_pages_def)
qed

lemma scan_misses_nothing:
  assumes "regions_physical rs" and "k < length rs" and "1 \<le> n"
    and start: "\<And>i. free_pages rs sz n k i \<Longrightarrow> s \<le> i"
    and none: "\<And>a. s < region_len (rs ! k) \<Longrightarrow> aligned_search_start (rs ! k) sz s = Some a \<Longrightarrow>
      scan_region (frames (rs ! k)) sz (n * small_frames_per_frame sz) a = Ok None"
  shows "\<not> free_pages rs sz n k i"
proof
  assume i: "free_pages rs sz n k i"
  have base: "frame_bytes dvd base_addr (rs ! k)" using assms(1,2) by (simp add: regions_physical_def)
  from i have run: "run_free (frames (rs ! k)) (n * small_frames_per_frame sz) i" and al: "aligned_at (rs ! k) sz i"
    by (auto simp: free_pages_def)
  have "0 < n * small_frames_per_frame sz" using assms(3) by simp
  then have "i < region_len (rs ! k)" using run run_free_first by (auto simp: region_len_def)
  then have s: "s < region_len (rs ! k)" using start [OF i] by linarith
  then obtain a where a: "aligned_search_start (rs ! k) sz s = Some a" using aligned_search_start_defined by blast
  obtain j where "i = a + j * small_frames_per_frame sz"
    using aligned_search_start_Some(3) [OF base a start [OF i] al] by blast
  then show False using none [OF s a] run scan_region_None by blast
qed

lemma search_regions_correct:
  assumes "first_free m = Some ff" and "pmm_inv m" and "1 \<le> n"
    and "regions_physical (regions m)" and pf: "frame_constructor_ok pf"
    and "\<And>k i. k < ridx \<Longrightarrow> \<not> free_pages (regions m) sz n k i"
    and "region_idx ff \<le> ridx"
  shows "(\<exists>rng m'. search_regions pf sz n (n * small_frames_per_frame sz) ff ridx m = Ok (Some rng, m')
            \<and> allocated sz n m rng m' \<and> pmm_inv m') \<or>
         (search_regions pf sz n (n * small_frames_per_frame sz) ff ridx m = Ok (None, m)
            \<and> (\<forall>k i. \<not> free_pages (regions m) sz n k i)) \<or>
         (search_regions pf sz n (n * small_frames_per_frame sz) ff ridx m = Panic
            \<and> 2 ^ 63 < n * small_frames_per_frame sz)"
  using assms(6,7)
proof (induction "length (regions m) - ridx" arbitrary: ridx)
  case 0
  then show ?case
    by (simp add: search_regions.simps [of pf sz n _ ff ridx m] free_pages_def)
next
  case (Suc d)
  let ?r = "regions m ! ridx"
  let ?count = "n * small_frames_per_frame sz"
  let ?start = "if ridx = region_idx ff then frame_idx ff else 0"
  have ridx: "ridx < length (regions m)" using Suc.hyps(2) by simp
  have ff: "is_first_free (regions m) ff" using assms(1,2) by (simp add: pmm_inv_Some)
  have start: "?start \<le> i" if "free_pages (regions m) sz n ridx i" for i
    using run_after_first_free [OF ff that assms(3)] by auto
  have scan: "(\<exists>r. scan_region (frames ?r) sz ?count a = Ok r) \<or>
      scan_region (frames ?r) sz ?count a = Panic \<and> 2 ^ 63 < ?count"
    if "aligned_search_start ?r sz ?start = Some a" for a
    using scan_physical [OF assms(4) ridx that, of ?count] .
  consider (stuck) a where "?start < region_len ?r" "aligned_search_start ?r sz ?start = Some a"
      "scan_region (frames ?r) sz ?count a = Panic" "2 ^ 63 < ?count"
    | (found) "\<exists>a cur. ?start < region_len ?r \<and> aligned_search_start ?r sz ?start = Some a
        \<and> scan_region (frames ?r) sz ?count a = Ok (Some cur)"
    | (none) "\<And>a. ?start < region_len ?r \<Longrightarrow> aligned_search_start ?r sz ?start = Some a \<Longrightarrow>
        scan_region (frames ?r) sz ?count a = Ok None"
    using scan by (metis option.exhaust)
  then show ?case
  proof cases
    case stuck
    then show ?thesis using ridx by (simp add: search_regions.simps [of pf sz n _ ff ridx m])
  next
    case found
    then obtain a cur where st: "?start < region_len ?r"
      and a: "aligned_search_start ?r sz ?start = Some a"
      and cur: "scan_region (frames ?r) sz ?count a = Ok (Some cur)" by blast
    from scan_finds_pages [OF assms(4) ridx a cur] have "free_pages (regions m) sz n ridx cur" .
    then show ?thesis using claim_run_correct [OF assms(1-3) pf assms(4)] st a cur ridx
      by (simp add: search_regions.simps [of pf sz n _ ff ridx m])
  next
    case none
    have no_run: "\<not> free_pages (regions m) sz n ridx i" for i
      using scan_misses_nothing [OF assms(4) ridx assms(3) start none] by blast
    have "search_regions pf sz n ?count ff ridx m = search_regions pf sz n ?count ff (Suc ridx) m"
      using none ridx
      by (auto simp: search_regions.simps [of pf sz n _ ff ridx m] not_le Let_def split: option.splits)
    moreover have "\<not> free_pages (regions m) sz n k i" if "k < Suc ridx" for k i
      using that no_run Suc.prems(1) by (auto simp: less_Suc_eq)
    ultimately show ?thesis using Suc.hyps(1) [of "Suc ridx"] Suc.hyps(2) Suc.prems(2) by auto
  qed
qed

lemma no_free_pages:
  assumes "\<forall>r \<in> set rs. Free \<notin> set (frames r)" and "1 \<le> n"
  shows "\<not> free_pages rs sz n k i"
proof
  assume "free_pages rs sz n k i"
  moreover have "0 < n * small_frames_per_frame sz" using assms(2) by simp
  ultimately have "k < length rs" "i < length (frames (rs ! k))" "frames (rs ! k) ! i = Free"
    using run_free_first by (auto simp: free_pages_def)
  then show False using assms(1) by (metis nth_mem)
qed

lemma allocate_frames_cases:
  assumes "pmm_inv m" and "regions_physical (regions m)" and "1 \<le> n"
    and "n * small_frames_per_frame sz < U64_LIMIT" and pf: "frame_constructor_ok pf"
  obtains (found) rng m' where "allocate_frames_impl pf sz n m = Ok (Some rng, m')"
      "allocated sz n m rng m'" "pmm_inv m'"
  | (full) "allocate_frames_impl pf sz n m = Ok (None, m)"
      "\<And>k i. \<not> free_pages (regions m) sz n k i"
  | (overflow) "allocate_frames_impl pf sz n m = Panic" "2 ^ 63 < n * small_frames_per_frame sz"
proof (cases "first_free m")
  case None
  then have "\<forall>r \<in> set (regions m). Free \<notin> set (frames r)"
    using assms(1) by (simp add: pmm_inv_None)
  then show ?thesis using None assms(3,4) full no_free_pages
    by (auto simp: allocate_frames_impl_def unwrap_def checked_mul_def)
next
  case (Some ff)
  then have ff: "is_first_free (regions m) ff" using assms(1) by (simp add: pmm_inv_Some)
  have "\<not> free_pages (regions m) sz n k i" if "k < region_idx ff" for k i
    using run_after_first_free [OF ff _ assms(3), of sz k i] that by auto
  then show ?thesis
    using search_regions_correct [OF Some assms(1,3,2) pf, of "region_idx ff" sz] Some assms(4) found full overflow
    by (auto simp: allocate_frames_impl_def unwrap_def checked_mul_def)
qed

end
