(* ===== verification/Phys_Mem_Free.thy ===== *)
theory Phys_Mem_Free
  imports Phys_Mem_Alloc
begin

text \<open>
  Correctness of deallocation in the physical frame allocator, the managers reachable through its
  operations, and the properties of the whole component.
\<close>

section \<open>Correctness of deallocation\<close>

definition in_region :: "memory_region \<Rightarrow> nat \<Rightarrow> bool" where
  "in_region r a \<longleftrightarrow> base_addr r \<le> a \<and> a < base_addr r + length (frames r) * frame_bytes"

definition regions_disjoint :: "memory_region list \<Rightarrow> bool" where
  "regions_disjoint rs \<longleftrightarrow>
     (\<forall>i < length rs. \<forall>j < length rs. \<forall>a. in_region (rs ! i) a \<and> in_region (rs ! j) a \<longrightarrow> i = j)"

definition run_allocated :: "frame_state list \<Rightarrow> nat \<Rightarrow> nat \<Rightarrow> bool" where
  "run_allocated fs count i \<longleftrightarrow>
     i + count \<le> length fs \<and> (\<forall>j < count. fs ! (i + j) = Allocated)"

lemma frame_index_Some:
  "frame_index r a = Some i \<longleftrightarrow> in_region r a \<and> i = (a - base_addr r) div 4096"
  by (auto simp: frame_index_def in_region_def Let_def div_less_iff_less_mult less_diff_conv2)

lemma frame_index_None: "frame_index r a = None \<longleftrightarrow> \<not> in_region r a"
  using frame_index_Some [of r a] by (cases "frame_index r a") auto

lemma find_frame_location_from_Some:
  "find_frame_location_from k rs a = Some loc \<Longrightarrow>
     k \<le> region_idx loc \<and> region_idx loc - k < length rs \<and>
     frame_index (rs ! (region_idx loc - k)) a = Some (frame_idx loc)"
proof (induction rs arbitrary: k)
  case (Cons r rs)
  show ?case
  proof (cases "frame_index r a")
    case None
    then have "find_frame_location_from (Suc k) rs a = Some loc" using Cons.prems by simp
    from Cons.IH [OF this] show ?thesis by (auto simp: nth_Cons' Suc_diff_Suc diff_Suc_eq_diff_pred [symmetric])
  next
    case (Some i)
    then show ?thesis using Cons.prems by auto
  qed
qed simp

lemma find_frame_location_from_None:
  "find_frame_location_from k rs a = None \<longleftrightarrow> (\<forall>r \<in> set rs. \<not> in_region r a)"
  by (induction rs arbitrary: k)
     (auto simp: frame_index_None frame_index_Some split: option.splits)

lemma find_frame_location_SomeD:
  assumes "find_frame_location rs a = Some loc"
  shows "region_idx loc < length rs" "in_region (rs ! region_idx loc) a"
    "frame_idx loc = (a - base_addr (rs ! region_idx loc)) div 4096"
    "frame_idx loc < length (frames (rs ! region_idx loc))"
proof -
  have f: "region_idx loc < length rs" "frame_index (rs ! region_idx loc) a = Some (frame_idx loc)"
    using find_frame_location_from_Some [of 0 rs a loc] assms by (auto simp: find_frame_location_def)
  then show "region_idx loc < length rs" "in_region (rs ! region_idx loc) a"
    "frame_idx loc = (a - base_addr (rs ! region_idx loc)) div 4096"
    by (auto simp: frame_index_Some)
  show "frame_idx loc < length (frames (rs ! region_idx loc))"
    using f(2) by (auto simp: frame_index_def Let_def split: if_splits)
qed

lemma find_frame_location_frame:
  assumes "regions_disjoint rs" and "k < length rs" and "i < length (frames (rs ! k))"
  shows "find_frame_location rs (base_addr (rs ! k) + i * 4096) = Some \<lparr>region_idx = k, frame_idx = i\<rparr>"
proof -
  let ?a = "base_addr (rs ! k) + i * 4096"
  have in_k: "in_region (rs ! k) ?a" using assms(3) by (simp add: in_region_def)
  then have "find_frame_location rs ?a \<noteq> None"
    using assms(2) by (auto simp: find_frame_location_def find_frame_location_from_None)
  then obtain loc where loc: "find_frame_location rs ?a = Some loc" by blast
  then have "region_idx loc = k"
    using find_frame_location_SomeD [OF loc] in_k assms(1,2) unfolding regions_disjoint_def by blast
  moreover have "frame_idx loc = i" using find_frame_location_SomeD(3) [OF loc] calculation by simp
  ultimately show ?thesis using loc by (cases loc) simp
qed

lemma deallocate_frame_4k_inv:
  assumes "pmm_inv m"
  shows "pmm_inv (snd (deallocate_frame_4k a m))"
proof (cases "find_frame_location (regions m) a")
  case None
  then show ?thesis using assms by (simp add: deallocate_frame_4k_def)
next
  case (Some loc)
  let ?r = "regions m ! region_idx loc"
  let ?rs = "(regions m)[region_idx loc := ?r\<lparr>frames := (frames ?r)[frame_idx loc := Free]\<rparr>]"
  note bnd = find_frame_location_SomeD [OF Some]
  show ?thesis
  proof (cases "frames ?r ! frame_idx loc = Allocated")
    case False
    then show ?thesis using Some assms by (simp add: deallocate_frame_4k_def)
  next
    case True
    have new: "frames (?rs ! k) ! j =
        (if k = region_idx loc \<and> j = frame_idx loc then Free else frames (regions m ! k) ! j)"
      "length (frames (?rs ! k)) = length (frames (regions m ! k))"
      if "k < length (regions m)" "j < length (frames (regions m ! k))" for k j
      using that bnd by (auto simp: nth_list_update)
    have first: "is_first_free ?rs loc" if "no_free_before (regions m) (region_idx loc) (frame_idx loc)"
      using that bnd new by (auto simp: is_first_free_def no_free_before_def nth_list_update)
    show ?thesis
    proof (cases "first_free m")
      case None
      then have "no_free_before (regions m) (region_idx loc) (frame_idx loc)"
        using pmm_inv_None [OF assms None] unfolding no_free_before_def by (metis nth_mem)
      then show ?thesis using None Some True first
        by (simp add: deallocate_frame_4k_def Let_def pmm_inv_def find_first_free_Some [symmetric])
    next
      case ff: (Some ff)
      have isff: "is_first_free (regions m) ff" using pmm_inv_Some [OF assms ff] .
      show ?thesis
      proof (cases "region_idx loc < region_idx ff \<or> (region_idx loc = region_idx ff \<and> frame_idx loc < frame_idx ff)")
        case before: True
        then have "no_free_before (regions m) (region_idx loc) (frame_idx loc)"
          using isff by (auto simp: is_first_free_def no_free_before_def)
        then show ?thesis using before ff Some True first
          by (simp add: deallocate_frame_4k_def Let_def pmm_inv_def find_first_free_Some [symmetric])
      next
        case after: False
        have "loc \<noteq> ff" using isff True by (auto simp: is_first_free_def)
        then have "is_first_free ?rs ff" using isff after new bnd
          by (auto simp: is_first_free_def no_free_before_def nth_list_update)
        then show ?thesis using after ff Some True
          by (auto simp: deallocate_frame_4k_def Let_def pmm_inv_def find_first_free_Some [symmetric])
      qed
    qed
  qed
qed


lemma deallocate_each_inv:
  assumes "\<And>a m. pmm_inv m \<Longrightarrow> pmm_inv (snd (free a m))"
  shows "pmm_inv m \<Longrightarrow> pmm_inv (snd (deallocate_each free as m))"
proof (induction as arbitrary: m)
  case (Cons a as)
  then show ?case using assms [of m a] by (auto split: prod.splits option.splits)
qed simp

lemma deallocate_frame_inv:
  assumes "pmm_inv m"
  shows "pmm_inv (snd (deallocate_frame sz a m))"
proof -
  have two: "pmm_inv (snd (deallocate_frame_2m a m))" if "pmm_inv m" for a m
    using deallocate_each_inv [where free = deallocate_frame_4k, OF deallocate_frame_4k_inv that]
    by (auto simp: deallocate_frame_2m_def split: prod.splits bool.splits) (metis snd_conv)+
  have one: "pmm_inv (snd (deallocate_frame_1g a m))" if "pmm_inv m" for a m
    using deallocate_each_inv [where free = deallocate_frame_2m, OF two that]
    by (auto simp: deallocate_frame_1g_def split: prod.splits bool.splits) (metis snd_conv)+
  show ?thesis using assms two one deallocate_frame_4k_inv by (cases sz) simp_all
qed

lemma deallocate_frames_inv:
  assumes "pmm_inv m"
  shows "pmm_inv (snd (deallocate_frames sz rng m))"
proof -
  have "pmm_inv (snd (deallocate_frames_loop sz fs res m))" if "pmm_inv m" for fs res m
    using that
  proof (induction fs arbitrary: res m)
    case (Cons f fs)
    then show ?case using deallocate_frame_inv [of m sz f]
      by (auto split: prod.splits option.splits)
  qed simp
  then show ?thesis using assms by (simp add: deallocate_frames_def)
qed

text \<open>Freeing a run: what \<open>f\<close> does to the \<open>w\<close> frames that start at its argument.\<close>

definition frees_run ::
  "(nat \<Rightarrow> physical_memory_manager \<Rightarrow> nat option \<times> physical_memory_manager) \<Rightarrow> nat \<Rightarrow> bool" where
  "frees_run f w \<longleftrightarrow> (\<forall>m ridx cur.
     regions_disjoint (regions m) \<longrightarrow> ridx < length (regions m) \<longrightarrow>
     run_allocated (frames (regions m ! ridx)) w cur \<longrightarrow>
     (\<exists>m'. f (base_addr (regions m ! ridx) + cur * 4096) m =
             (Some (base_addr (regions m ! ridx) + cur * 4096), m') \<and>
           regions m' = mark_run (regions m) Free w ridx cur))"

lemma mark_run_disjoint:
  assumes "ridx < length rs" and "cur + count \<le> length (frames (rs ! ridx))"
  shows "regions_disjoint (mark_run rs st count ridx cur) \<longleftrightarrow> regions_disjoint rs"
  using assms by (simp add: regions_disjoint_def in_region_def frames_mark_run cong: conj_cong)

lemma regions_eqI:
  fixes rs ss :: "memory_region list"
  assumes "length rs = length ss"
    and "\<And>k. k < length rs \<Longrightarrow> base_addr (rs ! k) = base_addr (ss ! k)"
    and "\<And>k. k < length rs \<Longrightarrow> length (frames (rs ! k)) = length (frames (ss ! k))"
    and "\<And>k j. k < length rs \<Longrightarrow> j < length (frames (rs ! k)) \<Longrightarrow>
           frames (rs ! k) ! j = frames (ss ! k) ! j"
  shows "rs = ss"
  using assms by (intro nth_equalityI memory_region.equality) auto

lemma mark_run_append:
  assumes "ridx < length rs" and "cur + w + v \<le> length (frames (rs ! ridx))"
  shows "mark_run (mark_run rs st w ridx cur) st v ridx (cur + w) = mark_run rs st (w + v) ridx cur"
proof -
  have "cur + w \<le> length (frames (rs ! ridx))"
    "cur + w + v \<le> length (frames (mark_run rs st w ridx cur ! ridx))"
    using assms by (simp_all add: frames_mark_run)
  then show ?thesis using assms
    by (intro regions_eqI) (auto simp: frames_mark_run)
qed

lemma run_allocated_split:
  "run_allocated fs (w + v) i \<longleftrightarrow> run_allocated fs w i \<and> run_allocated fs v (i + w)"
proof -
  have "(\<forall>j < w + v. P j) \<longleftrightarrow> (\<forall>j < w. P j) \<and> (\<forall>j < v. P (w + j))" for P
  proof (intro iffI allI impI conjI)
    fix j assume *: "(\<forall>j < w. P j) \<and> (\<forall>j < v. P (w + j))" and "j < w + v"
    then show "P j" by (cases "j < w") (auto dest!: spec [of _ "j - w"])
  qed auto
  then show ?thesis by (auto simp: run_allocated_def add.assoc)
qed

lemma run_allocated_mark:
  assumes "ridx < length rs" and "cur + w \<le> length (frames (rs ! ridx))"
    and "run_allocated (frames (rs ! ridx)) v (cur + w)"
  shows "run_allocated (frames (mark_run rs st w ridx cur ! ridx)) v (cur + w)"
  using assms by (auto simp: run_allocated_def frames_mark_run)

lemma sub_frames_Suc: "sub_frames a (Suc k) s = a # sub_frames (a + s) k s"
proof -
  have "[0..<Suc k] = 0 # map Suc [0..<k]" by (simp add: upt_conv_Cons map_Suc_upt del: upt_Suc)
  then show ?thesis by (simp add: sub_frames_def algebra_simps del: upt_Suc)
qed

lemma deallocate_each_run:
  assumes "frees_run f w" and "regions_disjoint (regions m)" and "ridx < length (regions m)"
    and "run_allocated (frames (regions m ! ridx)) (k * w) cur"
  shows "\<exists>m'. deallocate_each f (sub_frames (base_addr (regions m ! ridx) + cur * 4096) k (w * 4096)) m
       = (True, m') \<and> regions m' = mark_run (regions m) Free (k * w) ridx cur"
  using assms(2-4)
proof (induction k arbitrary: m cur)
  case 0
  then show ?case by (simp add: sub_frames_def mark_run_def)
next
  case (Suc k)
  let ?a = "base_addr (regions m ! ridx) + cur * 4096"
  have run: "run_allocated (frames (regions m ! ridx)) w cur"
    "run_allocated (frames (regions m ! ridx)) (k * w) (cur + w)"
    using Suc.prems(3) by (simp_all add: run_allocated_split)
  then have fit: "cur + w + k * w \<le> length (frames (regions m ! ridx))"
    by (simp add: run_allocated_def)
  obtain m1 where m1: "f ?a m = (Some ?a, m1)" "regions m1 = mark_run (regions m) Free w ridx cur"
    using assms(1) Suc.prems run(1) unfolding frees_run_def by blast
  have "\<exists>m'. deallocate_each f (sub_frames (base_addr (regions m1 ! ridx) + (cur + w) * 4096) k (w * 4096)) m1
       = (True, m') \<and> regions m' = mark_run (regions m1) Free (k * w) ridx (cur + w)"
    using Suc.prems fit run m1(2)
    by (intro Suc.IH) (simp_all add: mark_run_disjoint run_allocated_mark)
  moreover have "base_addr (regions m1 ! ridx) + (cur + w) * 4096 = ?a + w * 4096"
    using Suc.prems fit m1(2) by (simp add: frames_mark_run)
  ultimately show ?case using m1 Suc.prems(2) fit mark_run_append [of ridx "regions m" cur w "k * w" Free]
    by (auto simp: sub_frames_Suc add.assoc)
qed

lemma frees_run_4k: "frees_run deallocate_frame_4k 1"
  unfolding frees_run_def
proof (intro allI impI)
  fix m :: physical_memory_manager and ridx cur
  assume *: "regions_disjoint (regions m)" "ridx < length (regions m)"
    "run_allocated (frames (regions m ! ridx)) 1 cur"
  let ?r = "regions m ! ridx"
  have cur: "cur < length (frames ?r)" "frames ?r ! cur = Allocated"
    using *(3) by (auto simp: run_allocated_def)
  have "overwrite cur [Free] (frames ?r) = (frames ?r)[cur := Free]"
    using cur(1) by (simp add: overwrite_def upd_conv_take_nth_drop)
  then show "\<exists>m'. deallocate_frame_4k (base_addr ?r + cur * 4096) m
      = (Some (base_addr ?r + cur * 4096), m') \<and> regions m' = mark_run (regions m) Free 1 ridx cur"
    using find_frame_location_frame [OF *(1,2) cur(1)] cur
    by (simp add: deallocate_frame_4k_def Let_def mark_run_def)
qed

lemma frees_run_each:
  assumes "frees_run f w"
    and "\<And>a m. g a m = (case deallocate_each f (sub_frames a k (w * 4096)) m of
           (True, m') \<Rightarrow> (Some a, m') | (False, m') \<Rightarrow> (None, m'))"
  shows "frees_run g (k * w)"
  unfolding frees_run_def using deallocate_each_run [OF assms(1), where k = k]
  by (fastforce simp: assms(2))

lemma frees_run_deallocate_frame: "frees_run (deallocate_frame sz) (small_frames_per_frame sz)"
proof -
  have two: "frees_run deallocate_frame_2m (512 * 1)"
    by (rule frees_run_each [OF frees_run_4k]) (simp add: deallocate_frame_2m_def)
  have "frees_run deallocate_frame_1g (512 * (512 * 1))"
    by (rule frees_run_each [OF two]) (simp add: deallocate_frame_1g_def)
  then show ?thesis using two frees_run_4k
    by (cases sz) (simp_all add: small_frames_per_frame_def)
qed

lemma deallocate_frames_loop_run:
  assumes "regions_disjoint (regions m)" and "ridx < length (regions m)"
    and "run_allocated (frames (regions m ! ridx)) (Suc k * small_frames_per_frame sz) cur"
  shows "\<exists>m'. deallocate_frames_loop sz
         (sub_frames (base_addr (regions m ! ridx) + cur * 4096) (Suc k) (page_bytes sz)) res m =
       (Some (case res of Some r \<Rightarrow> fst r | None \<Rightarrow> base_addr (regions m ! ridx) + cur * 4096,
              base_addr (regions m ! ridx) + cur * 4096 + k * page_bytes sz), m') \<and>
       regions m' = mark_run (regions m) Free (Suc k * small_frames_per_frame sz) ridx cur"
  using assms
proof (induction k arbitrary: m cur res)
  case 0
  then have "run_allocated (frames (regions m ! ridx)) (small_frames_per_frame sz) cur" by simp
  then obtain m' where "deallocate_frame sz (base_addr (regions m ! ridx) + cur * 4096) m =
      (Some (base_addr (regions m ! ridx) + cur * 4096), m')"
    "regions m' = mark_run (regions m) Free (small_frames_per_frame sz) ridx cur"
    using frees_run_deallocate_frame [of sz] 0(1,2) unfolding frees_run_def by blast
  then show ?case by (simp add: sub_frames_def)
next
  case (Suc k)
  let ?w = "small_frames_per_frame sz"
  let ?a = "base_addr (regions m ! ridx) + cur * 4096"
  have run: "run_allocated (frames (regions m ! ridx)) ?w cur"
    "run_allocated (frames (regions m ! ridx)) (Suc k * ?w) (cur + ?w)"
    using Suc.prems(3) run_allocated_split [of "frames (regions m ! ridx)" ?w "Suc k * ?w" cur]
    by simp_all
  then have fit: "cur + ?w + Suc k * ?w \<le> length (frames (regions m ! ridx))"
    by (simp add: run_allocated_def)
  obtain m1 where m1: "deallocate_frame sz ?a m = (Some ?a, m1)"
    "regions m1 = mark_run (regions m) Free ?w ridx cur"
    using frees_run_deallocate_frame [of sz] Suc.prems run(1) unfolding frees_run_def by blast
  have base: "base_addr (regions m1 ! ridx) + (cur + ?w) * 4096 = ?a + page_bytes sz"
    using Suc.prems fit m1(2) by (simp add: frames_mark_run page_bytes_eq [of sz])
  have "regions_disjoint (regions m1)" "ridx < length (regions m1)"
    "run_allocated (frames (regions m1 ! ridx)) (Suc k * ?w) (cur + ?w)"
    using Suc.prems fit run m1(2) by (simp_all add: mark_run_disjoint run_allocated_mark)
  from Suc.IH [OF this, of "Some (case res of Some r \<Rightarrow> fst r | None \<Rightarrow> ?a, ?a)"]
  show ?case unfolding base
    using m1 Suc.prems(2) fit mark_run_append [of ridx "regions m" cur ?w "Suc k * ?w" Free]
    by (auto simp: sub_frames_Suc [of _ "Suc k"] algebra_simps)
qed

lemma mark_run_undo:
  assumes "ridx < length rs" and "run_free (frames (rs ! ridx)) count cur"
  shows "mark_run (mark_run rs Allocated count ridx cur) Free count ridx cur = rs"
proof -
  have fit: "cur + count \<le> length (frames (rs ! ridx))" using assms(2) by (simp add: run_free_def)
  then have fit': "cur + count \<le> length (frames (mark_run rs Allocated count ridx cur ! ridx))"
    using assms(1) by (simp add: frames_mark_run)
  have "frames (rs ! ridx) ! j = Free" if "cur \<le> j" "j < cur + count" for j
    using assms(2) that by (auto simp: run_free_def dest!: spec [of _ "j - cur"])
  then show ?thesis using assms(1) fit fit' by (intro regions_eqI) (auto simp: frames_mark_run)
qed


section \<open>Reachable managers\<close>

text \<open>The operations other components call, as steps of the manager.\<close>

inductive pmm_step :: "frame_constructor \<Rightarrow> physical_memory_manager \<Rightarrow> physical_memory_manager \<Rightarrow> bool"
  for pf where
  allocate: "allocate_frames_impl pf sz n m = Ok (res, m') \<Longrightarrow> pmm_step pf m m'"
| deallocate: "deallocate_frame sz addr m = (res, m') \<Longrightarrow> pmm_step pf m m'"
| deallocate_range: "deallocate_frames sz rng m = (res, m') \<Longrightarrow> pmm_step pf m m'"

inductive pmm_reachable ::
  "frame_constructor \<Rightarrow> memory_region list \<Rightarrow> physical_memory_manager \<Rightarrow> bool" for pf rs where
  start: "pmm_reachable pf rs (pmm_new rs)"
| step: "pmm_reachable pf rs m \<Longrightarrow> pmm_step pf m m' \<Longrightarrow> pmm_reachable pf rs m'"

text \<open>The shape of the regions, which no operation changes.\<close>

definition region_shape :: "memory_region list \<Rightarrow> (nat \<times> nat) list" where
  "region_shape rs = map (\<lambda>r. (base_addr r, length (frames r))) rs"

lemma region_shape_update [simp]:
  "length (frames r) = length (frames (rs ! i)) \<Longrightarrow> base_addr r = base_addr (rs ! i) \<Longrightarrow>
   region_shape (rs[i := r]) = region_shape rs"
  by (rule nth_equalityI)
    (simp_all add: region_shape_def, metis nth_list_update_eq nth_list_update_neq)

lemma region_shape_physical: "region_shape rs = region_shape ss \<Longrightarrow> regions_physical rs \<longleftrightarrow> regions_physical ss"
proof -
  have "regions_physical rs \<longleftrightarrow> (\<forall>p \<in> set (region_shape rs). frame_bytes dvd fst p \<and> fst p + snd p * frame_bytes \<le> 2 ^ 52)" for rs
    by (auto simp: regions_physical_def region_shape_def)
  then show "region_shape rs = region_shape ss \<Longrightarrow> ?thesis" by simp
qed

lemma region_shape_disjoint: "region_shape rs = region_shape ss \<Longrightarrow> regions_disjoint rs \<longleftrightarrow> regions_disjoint ss"
proof -
  have "regions_disjoint rs \<longleftrightarrow> (let ps = region_shape rs in
      \<forall>i < length ps. \<forall>j < length ps. \<forall>a.
        fst (ps ! i) \<le> a \<and> a < fst (ps ! i) + snd (ps ! i) * 4096 \<and>
        fst (ps ! j) \<le> a \<and> a < fst (ps ! j) + snd (ps ! j) * 4096 \<longrightarrow> i = j)" for rs
    by (simp add: regions_disjoint_def in_region_def region_shape_def Let_def)
  then show "region_shape rs = region_shape ss \<Longrightarrow> ?thesis" by simp
qed

lemma search_regions_shape:
  "search_regions pf sz n count ff ridx m = Ok (res, m') \<Longrightarrow> region_shape (regions m') = region_shape (regions m)"
proof (induction "length (regions m) - ridx" arbitrary: ridx)
  case 0
  then show ?case by (simp add: search_regions.simps [of pf sz n count ff ridx m])
next
  case (Suc d)
  have rec: "search_regions pf sz n count ff (Suc ridx) m = Ok (res, m') \<Longrightarrow>
      region_shape (regions m') = region_shape (regions m)"
    using Suc.hyps(1) [of "Suc ridx"] Suc.hyps(2) by linarith
  have claim: "region_shape (regions m') = region_shape (regions m)"
    if "claim_run pf sz n count ff ridx cur m = Ok (res, m')"
      "scan_region (frames (regions m ! ridx)) sz count a = Ok (Some cur)" for cur a
  proof -
    have "cur + count \<le> length (frames (regions m ! ridx))"
      using scan_region_Some [OF that(2)] by (simp add: run_free_def)
    then show ?thesis using that(1)
      by (auto simp: claim_run_def Let_def outcome_simps split: if_splits)
  qed
  from Suc.prems rec claim show ?case
    by (auto simp: search_regions.simps [of pf sz n count ff ridx m] Let_def
        split: if_splits option.splits outcome.splits)
qed

lemma allocate_shape:
  "allocate_frames_impl pf sz n m = Ok (res, m') \<Longrightarrow> region_shape (regions m') = region_shape (regions m)"
  by (auto simp: allocate_frames_impl_def outcome_simps search_regions_shape split: option.splits)

lemma deallocate_frame_shape:
  "region_shape (regions (snd (deallocate_frame sz a m))) = region_shape (regions m)"
proof -
  have four: "region_shape (regions (snd (deallocate_frame_4k a m))) = region_shape (regions m)" for a m
    by (auto simp: deallocate_frame_4k_def Let_def split: option.splits)
  have each: "region_shape (regions (snd (deallocate_each f as m))) = region_shape (regions m)"
    if "\<And>a m. region_shape (regions (snd (f a m))) = region_shape (regions m)" for f as m
  proof (induction as arbitrary: m)
    case (Cons a as)
    then show ?case using that [of a m] by (auto split: prod.splits option.splits)
  qed simp
  have two: "region_shape (regions (snd (deallocate_frame_2m a m))) = region_shape (regions m)" for a m
    using each [of deallocate_frame_4k, OF four, of _ m]
    by (auto simp: deallocate_frame_2m_def split: prod.splits bool.splits) (metis snd_conv)+
  have one: "region_shape (regions (snd (deallocate_frame_1g a m))) = region_shape (regions m)" for a m
    using each [of deallocate_frame_2m, OF two, of _ m]
    by (auto simp: deallocate_frame_1g_def split: prod.splits bool.splits) (metis snd_conv)+
  show ?thesis using four two one by (cases sz) simp_all
qed

lemma deallocate_frames_shape:
  "region_shape (regions (snd (deallocate_frames sz rng m))) = region_shape (regions m)"
proof -
  have "region_shape (regions (snd (deallocate_frames_loop sz fs res m))) = region_shape (regions m)" for fs res
  proof (induction fs arbitrary: res m)
    case (Cons f fs)
    then show ?case using deallocate_frame_shape [of sz f m]
      by (auto split: prod.splits option.splits)
  qed simp
  then show ?thesis by (simp add: deallocate_frames_def)
qed

lemma allocate_zero:
  assumes "allocate_frames_impl pf sz 0 m = Ok (res, m')"
  shows "m' = m \<and> res = None"
proof -
  have claim: "claim_run pf sz 0 0 ff ridx cur m \<noteq> Ok (res, m')" for ff ridx cur
    by (auto simp: claim_run_def Let_def outcome_simps)
  have "search_regions pf sz 0 0 ff ridx m = Ok (res, m') \<Longrightarrow> m' = m \<and> res = None" for ff ridx
  proof (induction "length (regions m) - ridx" arbitrary: ridx)
    case 0
    then show ?case by (simp add: search_regions.simps [of pf sz 0 0 ff ridx m])
  next
    case (Suc d)
    have rec: "search_regions pf sz 0 0 ff (Suc ridx) m = Ok (res, m') \<Longrightarrow> m' = m \<and> res = None"
      using Suc.hyps(1) [of "Suc ridx"] Suc.hyps(2) by linarith
    from Suc.prems rec claim show ?case
      by (auto simp: search_regions.simps [of pf sz 0 0 ff ridx m] Let_def
          split: if_splits option.splits outcome.splits)
  qed
  then show ?thesis using assms
    by (auto simp: allocate_frames_impl_def outcome_simps split: option.splits)
qed

lemma pmm_step_inv:
  assumes "pmm_step pf m m'" and "pmm_inv m" and "regions_physical (regions m)"
    and "frame_constructor_ok pf"
  shows "pmm_inv m' \<and> region_shape (regions m') = region_shape (regions m)"
  using assms
proof (cases rule: pmm_step.cases)
  case (allocate sz n res)
  have "pmm_inv m'"
  proof (cases n)
    case 0
    then show ?thesis using allocate allocate_zero assms(2) by blast
  next
    case (Suc k)
    then have "n * small_frames_per_frame sz < U64_LIMIT" "1 \<le> n"
      using allocate by (auto simp: allocate_frames_impl_def outcome_simps)
    then show ?thesis using allocate allocate_frames_cases [OF assms(2,3), of n sz pf] assms(2,4)
      by (metis Pair_inject outcome.inject(1) outcome.distinct(3))
  qed
  then show ?thesis using allocate allocate_shape by blast
next
  case (deallocate sz addr res)
  then show ?thesis using deallocate_frame_inv [OF assms(2), of sz addr]
    deallocate_frame_shape [of sz addr m] by simp
next
  case (deallocate_range sz rng res)
  then show ?thesis using deallocate_frames_inv [OF assms(2), of sz rng]
    deallocate_frames_shape [of sz rng m] by simp
qed

lemma pmm_new_inv: "pmm_inv (pmm_new rs)" "regions (pmm_new rs) = rs"
  by (simp_all add: pmm_inv_def pmm_new_def)

lemma pmm_reachable_inv:
  assumes "pmm_reachable pf rs m" and "regions_physical rs" and "frame_constructor_ok pf"
  shows "pmm_inv m \<and> region_shape (regions m) = region_shape rs"
  using assms(1)
proof (induction rule: pmm_reachable.induct)
  case start
  then show ?case by (simp add: pmm_new_inv)
next
  case (step m m')
  then show ?case using pmm_step_inv [of pf m m'] region_shape_physical assms(2,3) by metis
qed

lemma deallocate_free_frame:
  assumes "regions_disjoint (regions m)" and "ridx < length (regions m)"
    and "cur < length (frames (regions m ! ridx))" and "frames (regions m ! ridx) ! cur \<noteq> Allocated"
  shows "deallocate_frame sz (base_addr (regions m ! ridx) + cur * 4096) m = (None, m)"
proof -
  let ?a = "base_addr (regions m ! ridx) + cur * 4096"
  have four: "deallocate_frame_4k ?a m = (None, m)"
    using find_frame_location_frame [OF assms(1-3)] assms(4) by (simp add: deallocate_frame_4k_def Let_def)
  have two: "deallocate_frame_2m ?a m = (None, m)"
    using four sub_frames_Suc [of ?a 511 4096] by (simp add: deallocate_frame_2m_def)
  have "deallocate_frame_1g ?a m = (None, m)"
    using two sub_frames_Suc [of ?a 511 2097152] by (simp add: deallocate_frame_1g_def)
  then show ?thesis using two four by (cases sz) simp_all
qed

lemma allocated_deallocate:
  assumes inv: "pmm_inv m" and al: "regions_physical (regions m)" and dj: "regions_disjoint (regions m)"
    and pf: "frame_constructor_ok pf" and alloc: "allocate_frames_impl pf sz n m = Ok (Some rng, m')"
  shows "deallocate_frames sz rng m' = (Some rng, m)" "deallocate_frames sz rng m = (None, m)"
proof -
  let ?w = "small_frames_per_frame sz"
  obtain k where n: "n = Suc k" using allocate_zero [of pf sz m "Some rng" m'] alloc by (cases n) auto
  have lim: "n * ?w < U64_LIMIT" using alloc by (auto simp: allocate_frames_impl_def outcome_simps)
  have done': "allocated sz n m rng m'" "pmm_inv m'"
    using allocate_frames_cases [OF inv al _ lim pf] alloc n
    by (metis Pair_inject le_add1 option.distinct(1) option.inject outcome.inject(1) outcome.distinct(3) plus_1_eq_Suc)+
  then obtain ridx cur where run: "free_pages (regions m) sz n ridx cur"
    "rng = (base_addr (regions m ! ridx) + cur * 4096,
            base_addr (regions m ! ridx) + cur * 4096 + k * page_bytes sz)"
    "regions m' = mark_run (regions m) Allocated (n * ?w) ridx cur"
    using n by (cases rng) (auto simp: allocated_def)
  then have fit: "ridx < length (regions m)" "cur + n * ?w \<le> length (frames (regions m ! ridx))"
    and free: "run_free (frames (regions m ! ridx)) (n * ?w) cur"
    by (auto simp: free_pages_def run_free_def)
  have frs: "range_frames sz rng = sub_frames (base_addr (regions m ! ridx) + cur * 4096) n (page_bytes sz)"
    using run(2) n page_bytes_eq [of sz] by (auto simp: range_frames_def)
  have base: "base_addr (regions m' ! ridx) = base_addr (regions m ! ridx)"
    using run(3) fit by (simp add: frames_mark_run)
  have "run_allocated (frames (regions m' ! ridx)) (n * ?w) cur"
    using run(3) fit by (auto simp: run_allocated_def frames_mark_run)
  then obtain m2 where m2: "deallocate_frames sz rng m' = (Some rng, m2)"
    "regions m2 = mark_run (regions m') Free (n * ?w) ridx cur"
    using deallocate_frames_loop_run [of m' ridx k sz cur None] base frs n run(2,3) fit dj mark_run_disjoint
    by (auto simp: deallocate_frames_def)
  have "regions m2 = regions m" using m2(2) run(3) mark_run_undo [OF fit(1) free] by simp
  moreover have "pmm_inv m2" using deallocate_frames_inv [OF done'(2), of sz rng] m2(1) by simp
  ultimately have "m2 = m" using inv by (simp add: pmm_inv_def)
  then show "deallocate_frames sz rng m' = (Some rng, m)" using m2(1) by simp
  have "0 < n * ?w" using n by simp
  then have "cur < length (frames (regions m ! ridx))" "frames (regions m ! ridx) ! cur \<noteq> Allocated"
    using fit run_free_first [OF free] by auto
  from deallocate_free_frame [OF dj fit(1) this, of sz]
  show "deallocate_frames sz rng m = (None, m)"
    using frs n by (simp add: deallocate_frames_def sub_frames_Suc)
qed

section \<open>Properties of the allocator\<close>

text \<open>A concrete manager, and the one after allocating a frame from it.\<close>

definition demo_manager :: physical_memory_manager where
  "demo_manager = pmm_new [region_with_frames 0 [Unusable, Free, Allocated, Free, Free]]"

definition demo_frame :: frame_constructor where
  "demo_frame sz addr = (if addr < 2 ^ 52 \<and> addr mod page_bytes sz = 0 then Ok addr else Panic)"

definition demo_after :: physical_memory_manager where
  "demo_after = (case allocate_frames_impl demo_frame Size4KiB 1 demo_manager of Ok (_, m) \<Rightarrow> m | _ \<Rightarrow> demo_manager)"

lemmas demo_eval = demo_frame_def demo_manager_def pmm_new_def region_with_frames_def find_first_free_internal_def
  allocate_frames_impl_def unwrap_def checked_add_def checked_mul_def checked_sub_def U64_LIMIT_def
  search_regions.simps scan_region.simps region_len_def aligned_search_start_def frame_address_def
  claim_run_def update_first_free_def slice_def overwrite_def nth_opt_def Let_def

lemma demo_allocations:
  "\<exists>r. allocate_frames_impl demo_frame Size4KiB 1 demo_manager = Ok (r, demo_after)"
  "\<exists>m'. allocate_frames_impl demo_frame Size4KiB 2 demo_manager = Ok (Some (12288, 16384), m')"
proof -
  have "case allocate_frames_impl demo_frame Size4KiB 1 demo_manager of Ok _ \<Rightarrow> True | _ \<Rightarrow> False"
    by (simp add: demo_eval)
  then show "\<exists>r. allocate_frames_impl demo_frame Size4KiB 1 demo_manager = Ok (r, demo_after)"
    by (auto simp: demo_after_def split: outcome.splits)
  have "case allocate_frames_impl demo_frame Size4KiB 2 demo_manager of
      Ok (r, m) \<Rightarrow> r = Some (12288, 16384) | _ \<Rightarrow> False"
    by (simp add: demo_eval)
  then show "\<exists>m'. allocate_frames_impl demo_frame Size4KiB 2 demo_manager = Ok (Some (12288, 16384), m')"
    by (auto split: outcome.splits)
qed

lemma demo_frame_ok: "frame_constructor_ok demo_frame"
  by (auto simp: frame_constructor_ok_def demo_frame_def split: if_splits)

lemma demo_regions:
  "pmm_reachable demo_frame [region_with_frames 0 [Unusable, Free, Allocated, Free, Free]] demo_manager"
  "regions_physical [region_with_frames 0 [Unusable, Free, Allocated, Free, Free]]"
  "regions_disjoint [region_with_frames 0 [Unusable, Free, Allocated, Free, Free]]"
  by (simp_all add: demo_manager_def pmm_reachable.start regions_physical_def regions_disjoint_def
      region_with_frames_def)

text \<open>C1: In every manager reached from \<open>new\<close> by allocations and deallocations of any size,
  failed ones included, the cached position is the lowest free frame over all regions (none is
  cached only when no frame is free), and no operation moves or resizes a region.\<close>

theorem first_free_reachable:
  assumes "frame_constructor_ok pf" and "regions_physical rs" and "pmm_reachable pf rs m"
  shows "(case first_free m of
            None \<Rightarrow> \<forall>r \<in> set (regions m). Free \<notin> set (frames r)
          | Some loc \<Rightarrow> is_first_free (regions m) loc) \<and>
         region_shape (regions m) = region_shape rs"
  using pmm_reachable_inv [OF assms(3,2,1)] pmm_inv_Some pmm_inv_None by (auto split: option.splits)

theorem first_free_reachable_witness:
  "is_first_free (regions demo_after) \<lparr>region_idx = 0, frame_idx = 3\<rparr>"
proof -
  have "pmm_reachable demo_frame [region_with_frames 0 [Unusable, Free, Allocated, Free, Free]] demo_after"
    using demo_allocations(1) demo_regions(1) by (blast intro: pmm_reachable.step pmm_step.allocate)
  moreover have "first_free demo_after = Some \<lparr>region_idx = 0, frame_idx = 3\<rparr>"
    by (simp add: demo_after_def demo_eval)
  ultimately show ?thesis
    using first_free_reachable [OF demo_frame_ok demo_regions(2)] by fastforce
qed



text \<open>C3: Deallocating the range an allocation returned succeeds and gives back exactly the
  manager from before the allocation, and a second deallocation of that range is refused and
  changes nothing.\<close>

theorem allocate_deallocate_frames:
  assumes "frame_constructor_ok pf" and "regions_physical rs" and "regions_disjoint rs"
    and "pmm_reachable pf rs m"
    and "allocate_frames_impl pf sz n m = Ok (Some rng, m')"
  shows "deallocate_frames sz rng m' = (Some rng, m) \<and> deallocate_frames sz rng m = (None, m)"
proof -
  have "pmm_inv m" "regions_physical (regions m)" "regions_disjoint (regions m)"
    using pmm_reachable_inv [OF assms(4,2,1)] region_shape_physical region_shape_disjoint assms(2,3) by blast+
  from allocated_deallocate [OF this assms(1,5)] show ?thesis by blast
qed

theorem allocate_deallocate_frames_witness:
  "\<exists>m'. allocate_frames_impl demo_frame Size4KiB 2 demo_manager = Ok (Some (12288, 16384), m') \<and>
     deallocate_frames Size4KiB (12288, 16384) m' = (Some (12288, 16384), demo_manager)"
  using allocate_deallocate_frames [OF demo_frame_ok demo_regions(2,3,1)] demo_allocations(2) by blast

end
