(* ===== verification/Virt_Mem.thy ===== *)
theory Virt_Mem
  imports Muffin_Prelude
begin

text \<open>
  The virtual address range allocator (\<open>kernel/virtual_memory/src\<close>): a set of reserved segments
  ordered by start and length, first-fit reservation, release and marking.

  \<open>VirtAddr + u64\<close> belongs to the \<open>x86_64\<close> crate and is the parameter \<open>add\<close>; its documentation
  promises the exact sum, or a panic when the sum overflows 64 bits or is not canonical. Of that,
  \<open>va_add_ok add lo hi\<close> is what concerns a canonical half \<open>[lo, hi)\<close>, \<open>[0, 2^47)\<close> or
  \<open>[2^64 - 2^47, 2^64)\<close>: a sum that stays in the half is returned, and one that leaves it by less
  than the size of the half panics.

  Shown here: reserved segments never overlap; a reservation terminates and is decided by the
  lowest address at which the request fits, with the outcome of every case, the panic included.
\<close>

section \<open>Segments\<close>

datatype segment = Segment (start: nat) (len: nat)

text \<open>The derived ordering compares the fields in order.\<close>

instantiation segment :: linorder
begin

definition less_eq_segment :: "segment \<Rightarrow> segment \<Rightarrow> bool" where
  "less_eq_segment a b \<longleftrightarrow> start a < start b \<or> start a = start b \<and> len a \<le> len b"

definition less_segment :: "segment \<Rightarrow> segment \<Rightarrow> bool" where
  "less_segment a b \<longleftrightarrow> start a < start b \<or> start a = start b \<and> len a < len b"

instance
  by standard (auto simp: less_eq_segment_def less_segment_def segment.expand)

end

type_synonym va_add = "nat \<Rightarrow> nat \<Rightarrow> nat opt_outcome"

definition va_add_exact :: "va_add \<Rightarrow> bool" where
  "va_add_exact add \<longleftrightarrow> (\<forall>a b c. add a b = Ok c \<longrightarrow> c = a + b) \<and> (\<forall>a b e. add a b \<noteq> Err e)"

definition va_add_ok :: "va_add \<Rightarrow> nat \<Rightarrow> nat \<Rightarrow> bool" where
  "va_add_ok add lo hi \<longleftrightarrow>
     (\<forall>a b. lo \<le> a \<longrightarrow> a + b < hi \<longrightarrow> add a b = Ok (a + b)) \<and>
     (\<forall>a b. lo \<le> a \<longrightarrow> a < hi \<longrightarrow> hi \<le> a + b \<longrightarrow> a + b < hi + (hi - lo) \<longrightarrow> add a b = Panic) \<and>
     va_add_exact add"

definition segment_contains :: "va_add \<Rightarrow> segment \<Rightarrow> nat \<Rightarrow> bool opt_outcome" where
  "segment_contains add s addr =
     (if start s \<le> addr
      then obind (add (start s) (len s)) (\<lambda>stop. Ok (addr < stop))
      else Ok False)"

section \<open>The manager\<close>

record virtual_memory_manager =
  mem_start :: nat
  mem_size :: nat
  segments :: "segment list"

definition vmm_new :: "nat \<Rightarrow> nat \<Rightarrow> virtual_memory_manager" where
  "vmm_new s n = \<lparr>mem_start = s, mem_size = n, segments = []\<rparr>"

definition segment_last :: "va_add \<Rightarrow> segment \<Rightarrow> nat opt_outcome" where
  "segment_last add s = obind (unwrap (checked_sub (len s) 1)) (\<lambda>l. add (start s) l)"

primrec find_overlapping :: "va_add \<Rightarrow> segment \<Rightarrow> segment list \<Rightarrow> segment option opt_outcome" where
  "find_overlapping add s [] = Ok None"
| "find_overlapping add s (existing # es) =
     obind (segment_last add existing) (\<lambda>existing_last.
       if start s \<le> existing_last
       then obind (segment_last add s) (\<lambda>s_last.
              if start existing \<le> s_last then Ok (Some existing) else find_overlapping add s es)
       else find_overlapping add s es)"

text \<open>The \<open>while let\<close> of \<open>reserve\<close>; \<open>None\<close> is a loop that does not end.\<close>

partial_function (option) reserve_loop ::
  "va_add \<Rightarrow> segment list \<Rightarrow> segment \<Rightarrow> segment opt_outcome option" where
  "reserve_loop add es s =
     (case find_overlapping add s es of
        Ok None \<Rightarrow> Some (Ok s)
      | Ok (Some existing) \<Rightarrow>
          (case add (start existing) (len existing) of
             Ok next_start \<Rightarrow> reserve_loop add es (Segment next_start (len s))
           | Err e \<Rightarrow> Some (Err e)
           | Panic \<Rightarrow> Some Panic)
      | Err e \<Rightarrow> Some (Err e)
      | Panic \<Rightarrow> Some Panic)"

definition reserve ::
  "va_add \<Rightarrow> nat \<Rightarrow> virtual_memory_manager
   \<Rightarrow> (segment option \<times> virtual_memory_manager) opt_outcome option" where
  "reserve add n m =
     (if n = 0 then Some (Ok (None, m))
      else map_option (\<lambda>r.
        obind r (\<lambda>s.
        obind (segment_last add (Segment (mem_start m) (mem_size m))) (\<lambda>mem_last.
        obind (segment_last add s) (\<lambda>s_last.
          if mem_last < s_last then Ok (None, m)
          else Ok (Some (Segment (start s) n), m\<lparr>segments := insort_insert s (segments m)\<rparr>)))))
        (reserve_loop add (segments m) (Segment (mem_start m) n)))"

definition release :: "segment \<Rightarrow> virtual_memory_manager \<Rightarrow> bool \<times> virtual_memory_manager" where
  "release s m = (s \<in> set (segments m), m\<lparr>segments := remove1 s (segments m)\<rparr>)"

datatype already_reserved = AlreadyReserved

definition mark_as_reserved ::
  "va_add \<Rightarrow> segment \<Rightarrow> virtual_memory_manager
   \<Rightarrow> (already_reserved, virtual_memory_manager) outcome" where
  "mark_as_reserved add s m =
     (case find_overlapping add s (segments m) of
        Ok (Some _) \<Rightarrow> Err AlreadyReserved
      | Ok None \<Rightarrow> Ok (m\<lparr>segments := insort_insert s (segments m)\<rparr>)
      | _ \<Rightarrow> Panic)"

section \<open>Overlap\<close>

definition span :: "segment \<Rightarrow> nat set" where
  "span s = {start s ..< start s + len s}"

definition in_half :: "nat \<Rightarrow> nat \<Rightarrow> segment \<Rightarrow> bool" where
  "in_half lo hi s \<longleftrightarrow> lo \<le> start s \<and> 0 < len s \<and> start s + len s \<le> hi"

definition disjoint_segments :: "segment list \<Rightarrow> bool" where
  "disjoint_segments es \<longleftrightarrow> (\<forall>e \<in> set es. \<forall>f \<in> set es. e \<noteq> f \<longrightarrow> span e \<inter> span f = {})"

lemma span_overlap_iff:
  assumes "0 < len a" and "0 < len b"
  shows "span a \<inter> span b \<noteq> {} \<longleftrightarrow> start a < start b + len b \<and> start b < start a + len a"
proof
  assume "span a \<inter> span b \<noteq> {}"
  then show "start a < start b + len b \<and> start b < start a + len a"
    by (auto simp: span_def)
next
  assume "start a < start b + len b \<and> start b < start a + len a"
  then have "max (start a) (start b) \<in> span a \<inter> span b"
    using assms by (auto simp: span_def max_def)
  then show "span a \<inter> span b \<noteq> {}" by blast
qed

lemma va_add_sum: "va_add_ok add lo hi \<Longrightarrow> lo \<le> a \<Longrightarrow> a + b < hi \<Longrightarrow> add a b = Ok (a + b)"
  unfolding va_add_ok_def by blast

lemma va_add_out:
  "va_add_ok add lo hi \<Longrightarrow> lo \<le> a \<Longrightarrow> a < hi \<Longrightarrow> hi \<le> a + b \<Longrightarrow> a + b < hi + (hi - lo) \<Longrightarrow>
   add a b = Panic"
  unfolding va_add_ok_def by blast

lemma va_add_ok_exact: "va_add_ok add lo hi \<Longrightarrow> va_add_exact add"
  by (simp add: va_add_ok_def)

lemma segment_last_ok:
  assumes "va_add_ok add lo hi" and "lo \<le> start s" and "0 < len s" and "start s + len s \<le> hi"
  shows "segment_last add s = Ok (start s + len s - 1)"
proof -
  have "add (start s) (len s - 1) = Ok (start s + (len s - 1))"
    using assms by (intro va_add_sum [OF assms(1)]) auto
  then show ?thesis using assms(3)
    by (simp add: segment_last_def unwrap_def checked_sub_def)
qed

lemma find_overlapping_ok:
  assumes add: "va_add_ok add lo hi" and s: "lo \<le> start s" "0 < len s" "start s + len s \<le> hi"
    and es: "\<forall>e \<in> set es. in_half lo hi e"
  shows "find_overlapping add s es = Ok (find (\<lambda>e. span s \<inter> span e \<noteq> {}) es)"
  using es
proof (induction es)
  case (Cons e es)
  from Cons.prems have e: "lo \<le> start e" "0 < len e" "start e + len e \<le> hi" by (auto simp: in_half_def)
  let ?ls = "start s + len s - 1" and ?le = "start e + len e - 1"
  have ov: "span s \<inter> span e \<noteq> {} \<longleftrightarrow> start s \<le> ?le \<and> start e \<le> ?ls"
    using span_overlap_iff [OF s(2) e(2)] e s by linarith
  have last: "segment_last add s = Ok ?ls" "segment_last add e = Ok ?le"
    using segment_last_ok [OF add s] segment_last_ok [OF add e] by blast+
  have "find_overlapping add s (e # es) =
      (if span s \<inter> span e \<noteq> {} then Ok (Some e) else find_overlapping add s es)"
    unfolding find_overlapping.simps last obind.simps ov by simp
  then show ?case using Cons by (simp del: find_overlapping.simps)
qed simp

text \<open>What a comparison that returned says, wherever the segments lie.\<close>

lemma segment_last_exact:
  assumes "va_add_exact add"
  shows "segment_last add s = Ok l \<Longrightarrow> 0 < len s \<and> Suc l = start s + len s"
    and "segment_last add s \<noteq> Err e"
proof -
  show "0 < len s \<and> Suc l = start s + len s" if "segment_last add s = Ok l"
  proof -
    have pos: "1 \<le> len s" and sum: "add (start s) (len s - 1) = Ok l"
      using that by (auto simp: segment_last_def unwrap_def checked_sub_def split: if_splits)
    have "l = start s + (len s - 1)" using assms sum by (simp add: va_add_exact_def)
    then show ?thesis using pos by simp
  qed
  show "segment_last add s \<noteq> Err e"
    using assms by (simp add: segment_last_def unwrap_def checked_sub_def va_add_exact_def)
qed

lemma find_overlapping_None:
  assumes "va_add_exact add" and "find_overlapping add s es = Ok None"
  shows "\<forall>e \<in> set es. span s \<inter> span e = {}"
  using assms(2)
proof (induction es)
  case (Cons e es)
  from Cons.prems obtain el where el: "segment_last add e = Ok el" by (auto simp: outcome_simps)
  have "span s \<inter> span e = {} \<and> find_overlapping add s es = Ok None"
  proof (cases "start s \<le> el")
    case True
    then obtain sl where "segment_last add s = Ok sl" "sl < start e" "find_overlapping add s es = Ok None"
      using Cons.prems el by (auto simp: outcome_simps split: if_splits)
    then show ?thesis using segment_last_exact(1) [OF assms(1), of s sl] by (auto simp: span_def)
  next
    case False
    then show ?thesis using Cons.prems el segment_last_exact(1) [OF assms(1) el] by (auto simp: span_def)
  qed
  then show ?case using Cons.IH by simp
qed simp

lemma find_overlapping_Some:
  assumes "va_add_exact add" and "find_overlapping add s es = Ok (Some e)"
  shows "e \<in> set es \<and> 0 < len e \<and> start s < start e + len e \<and> start e < start s + len s"
  using assms(2)
proof (induction es)
  case (Cons f es)
  then show ?case using segment_last_exact(1) [OF assms(1)]
    by (fastforce simp: outcome_simps split: if_splits)
qed simp

lemma find_overlapping_Err:
  assumes "va_add_exact add"
  shows "find_overlapping add s es \<noteq> Err x"
proof (induction es)
  case (Cons f es)
  then show ?case using segment_last_exact(2) [OF assms]
    by (cases "segment_last add f"; cases "segment_last add s") auto
qed simp

lemma find_SomeD: "find P xs = Some x \<Longrightarrow> x \<in> set xs \<and> P x"
  by (auto simp: find_Some_iff)

lemma length_filter_less:
  assumes "x \<in> set xs" and "Q x" and "\<not> P x" and "\<And>y. P y \<Longrightarrow> Q y"
  shows "length (filter P xs) < length (filter Q xs)"
proof -
  obtain ys zs where xs: "xs = ys @ x # zs" using assms(1) split_list by metis
  have le: "length (filter P l) \<le> length (filter Q l)" for l
    using assms(4) by (induction l) auto
  show ?thesis using le [of ys] le [of zs] assms(2,3) by (simp add: xs)
qed

section \<open>Reservation\<close>

text \<open>The request of \<open>n\<close> bytes does not overlap anything when placed at \<open>a\<close>.\<close>

definition fits_at :: "segment list \<Rightarrow> nat \<Rightarrow> nat \<Rightarrow> bool" where
  "fits_at es n a \<longleftrightarrow> (\<forall>e \<in> set es. span (Segment a n) \<inter> span e = {})"

text \<open>The lowest such place at or after \<open>x\<close>, and that there always is one: beyond the last
  segment, representable or not.\<close>

definition first_fit :: "segment list \<Rightarrow> nat \<Rightarrow> nat \<Rightarrow> nat \<Rightarrow> bool" where
  "first_fit es n x a \<longleftrightarrow> x \<le> a \<and> fits_at es n a \<and> (\<forall>b. x \<le> b \<and> b < a \<longrightarrow> \<not> fits_at es n b)"

lemma first_fit_unique: "first_fit es n x a \<Longrightarrow> first_fit es n x b \<Longrightarrow> a = b"
  unfolding first_fit_def by (metis nat_neq_iff)

lemma first_fit_exists: "\<exists>a. first_fit es n x a"
proof -
  let ?P = "\<lambda>a. x \<le> a \<and> fits_at es n a"
  let ?far = "x + sum_list (map (\<lambda>e. start e + len e) es)"
  have "start e + len e \<le> ?far" if "e \<in> set es" for e
    using member_le_sum_list [of "start e + len e" "map (\<lambda>e. start e + len e) es"] that by auto
  then have "?P ?far" by (fastforce simp: fits_at_def span_def)
  then have "?P (LEAST a. ?P a)" by (rule LeastI)
  moreover have "\<not> fits_at es n b" if "x \<le> b" "b < (LEAST a. ?P a)" for b
    using not_less_Least [OF that(2)] that(1) by blast
  ultimately show ?thesis unfolding first_fit_def by blast
qed

text \<open>Stepping over an overlapping segment skips no place.\<close>

lemma first_fit_step:
  assumes "0 < n" and "e \<in> set es" and "0 < len e" and "a < start e + len e" and "start e < a + n"
  shows "first_fit es n a c \<longleftrightarrow> first_fit es n (start e + len e) c"
proof -
  have no: "\<not> fits_at es n d" if "a \<le> d" "d < start e + len e" for d
  proof -
    have "start e < d + n" using that assms(5) by linarith
    then have "span (Segment d n) \<inter> span e \<noteq> {}"
      using that span_overlap_iff [of "Segment d n" e, unfolded segment.sel, OF assms(1,3)] by blast
    then show ?thesis using assms(2) unfolding fits_at_def by blast
  qed
  then show ?thesis using assms(4) unfolding first_fit_def
    by (meson le_less_linear less_imp_le order_trans)
qed

text \<open>The loop ends for every request: in a panic of the address arithmetic, or at the lowest
  place where the request fits.\<close>

lemma reserve_loop_returns:
  assumes add: "va_add_exact add" and n: "0 < n"
  shows "reserve_loop add es (Segment a n) = Some Panic \<or>
    (\<exists>b. reserve_loop add es (Segment a n) = Some (Ok (Segment b n)) \<and> first_fit es n a b \<and>
       (b = a \<or> (\<exists>e \<in> set es. add (start e) (len e) = Ok b)))"
proof (induction "length (filter (\<lambda>e. a < start e + len e) es)" arbitrary: a rule: less_induct)
  case less
  note unfold = reserve_loop.simps [of add es "Segment a n"]
  show ?case
  proof (cases "find_overlapping add (Segment a n) es")
    case (Ok r)
    show ?thesis
    proof (cases r)
      case None
      then have "first_fit es n a a"
        using find_overlapping_None [OF add] Ok by (auto simp: first_fit_def fits_at_def)
      then show ?thesis using Ok None unfold by simp
    next
      case (Some e)
      have e: "e \<in> set es" "0 < len e" "a < start e + len e" "start e < a + n"
        using find_overlapping_Some [OF add Ok [unfolded Some]] by simp_all
      let ?b = "start e + len e"
      have fewer: "length (filter (\<lambda>f. ?b < start f + len f) es) < length (filter (\<lambda>f. a < start f + len f) es)"
        using e by (intro length_filter_less [of e]) auto
      show ?thesis
      proof (cases "add (start e) (len e)")
        case sum: (Ok c)
        then have c: "c = ?b" using add by (simp add: va_add_exact_def)
        have "reserve_loop add es (Segment a n) = reserve_loop add es (Segment ?b n)"
          using unfold Ok Some sum c by simp
        then show ?thesis using less.hyps [OF fewer] first_fit_step [OF n e] sum c e(1) by metis
      next
        case (Err x)
        then show ?thesis using add by (simp add: va_add_exact_def)
      next
        case Panic
        then show ?thesis using unfold Ok Some by simp
      qed
    qed
  next
    case (Err x)
    then show ?thesis using find_overlapping_Err [OF add] by blast
  next
    case Panic
    then show ?thesis using unfold by simp
  qed
qed

text \<open>It does not panic when that place lies in the half.\<close>

lemma reserve_loop_reaches:
  assumes add: "va_add_ok add lo hi" and es: "\<forall>e \<in> set es. in_half lo hi e" and n: "0 < n"
    and "lo \<le> a" and "first_fit es n a b" and fit: "b + n \<le> hi"
  shows "reserve_loop add es (Segment a n) = Some (Ok (Segment b n))"
  using assms(4,5)
proof (induction "length (filter (\<lambda>e. a < start e + len e) es)" arbitrary: a rule: less_induct)
  case less
  have "a + n \<le> hi" using less.prems(2) fit by (simp add: first_fit_def)
  then have found: "find_overlapping add (Segment a n) es =
      Ok (find (\<lambda>e. span (Segment a n) \<inter> span e \<noteq> {}) es)"
    using find_overlapping_ok [OF add _ _ _ es, of "Segment a n"] less.prems n by simp
  note unfold = reserve_loop.simps [of add es "Segment a n"]
  show ?case
  proof (cases "find (\<lambda>e. span (Segment a n) \<inter> span e \<noteq> {}) es")
    case None
    then have "first_fit es n a a" by (auto simp: first_fit_def fits_at_def find_None_iff)
    then have "b = a" using first_fit_unique less.prems(2) by blast
    then show ?thesis using found None unfold by simp
  next
    case (Some e)
    then have e: "e \<in> set es" "0 < len e" "a < start e + len e" "start e < a + n"
      using find_overlapping_Some [OF va_add_ok_exact [OF add], of "Segment a n" es e] found by simp_all
    let ?b = "start e + len e"
    have next_fit: "first_fit es n ?b b" using first_fit_step [OF n e] less.prems(2) by blast
    have lo: "lo \<le> start e" using es e(1) by (auto simp: in_half_def)
    have "?b < hi" using next_fit fit n by (simp add: first_fit_def)
    then have step: "add (start e) (len e) = Ok ?b" using va_add_sum [OF add lo] by blast
    have fewer: "length (filter (\<lambda>f. ?b < start f + len f) es) < length (filter (\<lambda>f. a < start f + len f) es)"
      using e by (intro length_filter_less [of e]) auto
    show ?thesis using less.hyps [OF fewer _ next_fit] lo unfold found Some step by simp
  qed
qed

text \<open>What the loop returned overlaps nothing, without any assumption on the arithmetic.\<close>

lemma reserve_loop_result:
  assumes "reserve_loop add es s = Some r"
  shows "\<forall>t. r = Ok t \<longrightarrow> find_overlapping add t es = Ok None"
proof (rule reserve_loop.raw_induct [OF _ assms], intro allI impI)
  fix loop add es s r t
  assume IH: "\<And>add es s r. loop add es s = Some r \<Longrightarrow> \<forall>t. r = Ok t \<longrightarrow> find_overlapping add t es = Ok None"
    and body: "(case find_overlapping add s es of
        Ok None \<Rightarrow> Some (Ok s)
      | Ok (Some existing) \<Rightarrow>
          (case add (start existing) (len existing) of
             Ok next_start \<Rightarrow> loop add es (Segment next_start (len s))
           | Err e \<Rightarrow> Some (Err e)
           | Panic \<Rightarrow> Some Panic)
      | Err e \<Rightarrow> Some (Err e)
      | Panic \<Rightarrow> Some Panic) = Some r"
    and r: "r = Ok t"
  from body r show "find_overlapping add t es = Ok None"
    using IH [of add es "Segment _ (len s)" r] by (auto split: outcome.splits option.splits)
qed

section \<open>Sequences of operations\<close>

inductive vmm_step :: "va_add \<Rightarrow> virtual_memory_manager \<Rightarrow> virtual_memory_manager \<Rightarrow> bool"
  for add where
  reserve: "reserve add n m = Some (Ok (res, m')) \<Longrightarrow> vmm_step add m m'"
| release: "release s m = (res, m') \<Longrightarrow> vmm_step add m m'"
| mark: "mark_as_reserved add s m = Ok m' \<Longrightarrow> vmm_step add m m'"

inductive vmm_reachable :: "va_add \<Rightarrow> virtual_memory_manager \<Rightarrow> virtual_memory_manager \<Rightarrow> bool"
  for add m0 where
  start: "vmm_reachable add m0 m0"
| step: "vmm_reachable add m0 m \<Longrightarrow> vmm_step add m m' \<Longrightarrow> vmm_reachable add m0 m'"

definition mem_in_half :: "nat \<Rightarrow> nat \<Rightarrow> virtual_memory_manager \<Rightarrow> bool" where
  "mem_in_half lo hi m \<longleftrightarrow> lo \<le> mem_start m \<and> 0 < mem_size m \<and> mem_start m + mem_size m \<le> hi"

lemma insort_insert_disjoint:
  assumes "disjoint_segments es" and "\<forall>e \<in> set es. span s \<inter> span e = {}"
  shows "disjoint_segments (insort_insert s es)"
  using assms by (auto simp: disjoint_segments_def set_insort_insert)

lemma reserve_disjoint:
  assumes "va_add_exact add" and "disjoint_segments (segments m)" and "reserve add n m = Some (Ok (r, m'))"
  shows "disjoint_segments (segments m')"
proof (cases "m' = m")
  case False
  then obtain s where "reserve_loop add (segments m) (Segment (mem_start m) n) = Some (Ok s)"
    "m' = m\<lparr>segments := insort_insert s (segments m)\<rparr>"
    using assms(3) by (auto simp: reserve_def outcome_simps split: if_splits)
  moreover from this(1) have "find_overlapping add s (segments m) = Ok None"
    using reserve_loop_result by blast
  ultimately show ?thesis
    using insort_insert_disjoint [OF assms(2) find_overlapping_None [OF assms(1)]] by simp
qed (use assms(2) in simp)

lemma mark_disjoint:
  assumes "va_add_exact add" and "disjoint_segments (segments m)" and "mark_as_reserved add s m = Ok m'"
  shows "disjoint_segments (segments m')"
proof -
  have "find_overlapping add s (segments m) = Ok None" "m' = m\<lparr>segments := insort_insert s (segments m)\<rparr>"
    using assms(3) by (auto simp: mark_as_reserved_def split: outcome.splits option.splits)
  then show ?thesis using insort_insert_disjoint [OF assms(2)] find_overlapping_None [OF assms(1)] by simp
qed

lemma release_disjoint:
  "disjoint_segments (segments m) \<Longrightarrow> release s m = (res, m') \<Longrightarrow> disjoint_segments (segments m')"
  using set_remove1_subset [of s "segments m"] unfolding disjoint_segments_def release_def by fastforce

lemma vmm_reachable_disjoint:
  assumes "vmm_reachable add m0 m" and "va_add_exact add" and "disjoint_segments (segments m0)"
  shows "disjoint_segments (segments m)"
  using assms(1)
proof (induction rule: vmm_reachable.induct)
  case start
  then show ?case using assms by simp
next
  case (step m m')
  from step(2) show ?case
    by (cases rule: vmm_step.cases)
      (use step.IH reserve_disjoint mark_disjoint release_disjoint assms(2) in blast)+
qed

section \<open>Properties\<close>

text \<open>C4: In every manager reached from \<open>new\<close>, for any range, by reservations, releases and
  markings of any segments, two different reserved segments never overlap. Of the address
  arithmetic it needs only that a sum that is returned is exact.\<close>

theorem reserved_segments_disjoint:
  assumes "va_add_exact add" and "vmm_reachable add (vmm_new s n) m"
    and "e \<in> set (segments m)" and "f \<in> set (segments m)" and "e \<noteq> f"
  shows "span e \<inter> span f = {}"
proof -
  have "disjoint_segments (segments m)"
    using vmm_reachable_disjoint [OF assms(2,1)] by (simp add: vmm_new_def disjoint_segments_def)
  then show ?thesis using assms(3-5) by (simp add: disjoint_segments_def)
qed

lemma reserve_at:
  assumes add: "va_add_ok add lo hi" and mem: "mem_in_half lo hi m" and n: "0 < n"
    and loop: "reserve_loop add (segments m) (Segment (mem_start m) n) = Some (Ok (Segment a n))"
  shows "reserve add n m = Some (obind (segment_last add (Segment a n)) (\<lambda>s_last.
    if mem_start m + mem_size m \<le> s_last then Ok (None, m)
    else Ok (Some (Segment a n), m\<lparr>segments := insort_insert (Segment a n) (segments m)\<rparr>)))"
proof -
  have "segment_last add (Segment (mem_start m) (mem_size m)) = Ok (mem_start m + mem_size m - 1)"
    using segment_last_ok [OF add, of "Segment (mem_start m) (mem_size m)"] mem
    by (simp add: mem_in_half_def)
  moreover have "mem_start m + mem_size m - 1 < x \<longleftrightarrow> mem_start m + mem_size m \<le> x" for x
    using mem by (auto simp: mem_in_half_def)
  ultimately show ?thesis using loop n by (cases "segment_last add (Segment a n)") (simp_all add: reserve_def)
qed

lemma reserve_in_half:
  assumes add: "va_add_ok add lo hi" and es: "\<forall>e \<in> set (segments m). in_half lo hi e"
    and mem: "mem_in_half lo hi m" and n: "0 < n"
    and a: "first_fit (segments m) n (mem_start m) a" and fit: "a + n \<le> hi"
  shows "reserve add n m = Some (Ok
    (if a + n \<le> mem_start m + mem_size m
     then (Some (Segment a n), m\<lparr>segments := insort (Segment a n) (segments m)\<rparr>)
     else (None, m)))"
proof -
  have lo: "lo \<le> mem_start m" "mem_start m \<le> a" using mem a by (auto simp: mem_in_half_def first_fit_def)
  have "segment_last add (Segment a n) = Ok (a + n - 1)"
    using segment_last_ok [OF add, of "Segment a n"] lo n fit by simp
  moreover have "Segment a n \<notin> set (segments m)" using a n by (auto simp: first_fit_def fits_at_def span_def)
  moreover have "mem_start m + mem_size m \<le> a + n - 1 \<longleftrightarrow> \<not> a + n \<le> mem_start m + mem_size m"
    using n by linarith
  ultimately show ?thesis
    using reserve_at [OF add mem n reserve_loop_reaches [OF add es n lo(1) a fit]]
    by (simp add: insort_insert_insort)
qed

lemma reserve_beyond_half:
  assumes add: "va_add_ok add lo hi" and es: "\<forall>e \<in> set (segments m). in_half lo hi e"
    and mem: "mem_in_half lo hi m" and n: "0 < n"
    and a: "first_fit (segments m) n (mem_start m) a" and out: "hi < a + n"
  shows "reserve add n m = Some Panic \<or> hi - lo < n \<and> reserve add n m = Some (Ok (None, m))"
proof (cases "reserve_loop add (segments m) (Segment (mem_start m) n) = Some Panic")
  case True
  then show ?thesis using n by (simp add: reserve_def)
next
  case False
  have exact: "va_add_exact add" using va_add_ok_exact [OF add] .
  obtain b where b: "reserve_loop add (segments m) (Segment (mem_start m) n) = Some (Ok (Segment b n))"
    "first_fit (segments m) n (mem_start m) b"
    "b = mem_start m \<or> (\<exists>e \<in> set (segments m). add (start e) (len e) = Ok b)"
    using reserve_loop_returns [OF exact n, of "segments m" "mem_start m"] False by blast
  then have [simp]: "b = a" using first_fit_unique a by blast
  have bounds: "lo \<le> mem_start m" "mem_start m < hi" "mem_start m + mem_size m \<le> hi"
    using mem by (auto simp: mem_in_half_def)
  note res = reserve_at [OF add mem n b(1)]
  have "a < hi"
  proof (cases "a = mem_start m")
    case False
    then obtain e where e: "e \<in> set (segments m)" "add (start e) (len e) = Ok a" using b(3) by auto
    then have "lo \<le> start e" "start e < hi" "start e + len e \<le> hi" using es by (auto simp: in_half_def)
    moreover have "a = start e + len e" using e(2) exact by (simp add: va_add_exact_def)
    moreover have "hi < hi + (hi - lo)" using bounds by simp
    ultimately show ?thesis using va_add_out [OF add, of "start e" "len e"] e(2)
      by (cases "start e + len e = hi") auto
  qed (use bounds in simp)
  have lo: "lo \<le> a" using a bounds by (simp add: first_fit_def)
  show ?thesis
  proof (cases "hi - lo < n")
    case True
    show ?thesis
    proof (cases "segment_last add (Segment a n)")
      case (Ok l)
      then show ?thesis using res True segment_last_exact(1) [OF exact Ok] out bounds by simp
    qed (use res segment_last_exact(2) [OF exact] in auto)
  next
    case False
    then have "hi \<le> a + (n - 1)" "a + (n - 1) < hi + (hi - lo)" using out n \<open>a < hi\<close> by linarith+
    then have "add a (n - 1) = Panic" by (rule va_add_out [OF add lo \<open>a < hi\<close>])
    then show ?thesis using res n by (simp add: segment_last_def unwrap_def checked_sub_def)
  qed
qed

text \<open>C5: In a manager whose range and segments are nonempty and lie in one canonical half
  \<open>[lo, hi)\<close>, every positive request is decided by the lowest place at or after the start of the
  range at which it overlaps no segment: if the request ends inside the range there, it is
  reserved there and recorded; if it ends beyond the range but inside the half, the reservation
  returns nothing and changes nothing; if it would end beyond the half, the reservation panics
  in the address arithmetic, unless the request is larger than the half, when it may also return
  nothing. In the kernel's half, which ends with the address space, a request for which no space
  is left is of the panicking kind.\<close>

theorem reserve_first_fit:
  assumes "va_add_ok add lo hi" and "\<forall>e \<in> set (segments m). in_half lo hi e"
    and "mem_in_half lo hi m" and "0 < n"
  shows "\<exists>a. mem_start m \<le> a \<and> fits_at (segments m) n a \<and>
    (\<forall>b. mem_start m \<le> b \<and> b < a \<longrightarrow> \<not> fits_at (segments m) n b) \<and>
    (if a + n \<le> mem_start m + mem_size m
     then reserve add n m = Some (Ok (Some (Segment a n), m\<lparr>segments := insort (Segment a n) (segments m)\<rparr>))
     else if a + n \<le> hi then reserve add n m = Some (Ok (None, m))
     else reserve add n m = Some Panic \<or> hi - lo < n \<and> reserve add n m = Some (Ok (None, m)))"
proof -
  obtain a where a: "first_fit (segments m) n (mem_start m) a" using first_fit_exists by blast
  have "mem_start m + mem_size m \<le> hi" using assms(3) by (simp add: mem_in_half_def)
  then show ?thesis using a reserve_in_half [OF assms a] reserve_beyond_half [OF assms a]
    unfolding first_fit_def by (intro exI [of _ a]) auto
qed

text \<open>The address arithmetic of the crate, and the kernel's manager of the upper half with the
  kernel image, which ends with the address space, marked.\<close>

definition demo_add :: va_add where
  "demo_add a b =
     (if a + b < 140737488355328 \<or> 18446603336221196288 \<le> a + b \<and> a + b < 18446744073709551616
      then Ok (a + b) else Panic)"

definition demo_vmm :: virtual_memory_manager where
  "demo_vmm = \<lparr>mem_start = 18446603336221196288, mem_size = 140737488355328,
     segments = [Segment 18446744071562067968 2147483648]\<rparr>"

lemma demo_add_ok:
  "va_add_ok demo_add 0 140737488355328" "va_add_ok demo_add 18446603336221196288 18446744073709551616"
  by (auto simp: va_add_ok_def va_add_exact_def demo_add_def split: if_splits)

lemma demo_mark:
  "mark_as_reserved demo_add (Segment 18446744071562067968 2147483648)
     (vmm_new 18446603336221196288 140737488355328) = Ok demo_vmm"
  by (simp add: mark_as_reserved_def vmm_new_def demo_vmm_def insort_insert_key_def)

theorem reserved_segments_disjoint_witness:
  "\<exists>m. vmm_reachable demo_add (vmm_new 18446603336221196288 140737488355328) m \<and>
     set (segments m) = {Segment 18446603336221196288 4096, Segment 18446744071562067968 2147483648} \<and>
     span (Segment 18446603336221196288 4096) \<inter> span (Segment 18446744071562067968 2147483648) = {}"
proof -
  let ?m = "demo_vmm\<lparr>segments := [Segment 18446603336221196288 4096, Segment 18446744071562067968 2147483648]\<rparr>"
  have "reserve demo_add 4096 demo_vmm = Some (Ok (Some (Segment 18446603336221196288 4096), ?m))"
    by (simp add: demo_vmm_def reserve_def reserve_loop.simps segment_last_def demo_add_def unwrap_def
        checked_sub_def insort_insert_key_def less_eq_segment_def)
  then have r: "vmm_reachable demo_add (vmm_new 18446603336221196288 140737488355328) ?m"
    using demo_mark by (blast intro: vmm_reachable.intros vmm_step.intros)
  show ?thesis
    using r reserved_segments_disjoint [OF va_add_ok_exact [OF demo_add_ok(1)] r,
        of "Segment 18446603336221196288 4096" "Segment 18446744071562067968 2147483648"]
    by (intro exI [of _ ?m]) simp
qed

lemma demo_fits:
  "0 < n \<Longrightarrow> fits_at (segments demo_vmm) n a \<longleftrightarrow> a + n \<le> 18446744071562067968 \<or> 18446744073709551616 \<le> a"
  using span_overlap_iff [of "Segment a n" "Segment 18446744071562067968 2147483648"]
  by (auto simp: fits_at_def demo_vmm_def)

theorem reserve_first_fit_witness:
  "reserve demo_add 4096 demo_vmm = Some (Ok (Some (Segment 18446603336221196288 4096),
       demo_vmm\<lparr>segments := insort (Segment 18446603336221196288 4096) (segments demo_vmm)\<rparr>)) \<and>
   reserve demo_add 140737488355328 demo_vmm = Some Panic"
proof -
  have half: "\<forall>e \<in> set (segments demo_vmm). in_half 18446603336221196288 18446744073709551616 e"
    "mem_in_half 18446603336221196288 18446744073709551616 demo_vmm"
    by (simp_all add: demo_vmm_def in_half_def mem_in_half_def)
  note fit = reserve_first_fit [OF demo_add_ok(2) half]
  have sizes: "mem_start demo_vmm = 18446603336221196288" "mem_size demo_vmm = 140737488355328"
    by (simp_all add: demo_vmm_def)
  from fit [of 4096] obtain a where a: "18446603336221196288 \<le> a"
    "\<forall>b. 18446603336221196288 \<le> b \<and> b < a \<longrightarrow> \<not> fits_at (segments demo_vmm) 4096 b"
    "if a + 4096 \<le> 18446744073709551616
     then reserve demo_add 4096 demo_vmm = Some (Ok (Some (Segment a 4096),
       demo_vmm\<lparr>segments := insort (Segment a 4096) (segments demo_vmm)\<rparr>)) else True"
    by (auto simp: sizes)
  have "a = 18446603336221196288"
    using a(1) a(2) [rule_format, of 18446603336221196288] demo_fits [of 4096] by force
  then have small: "reserve demo_add 4096 demo_vmm = Some (Ok (Some (Segment 18446603336221196288 4096),
       demo_vmm\<lparr>segments := insort (Segment 18446603336221196288 4096) (segments demo_vmm)\<rparr>))"
    using a(3) by simp
  from fit [of 140737488355328] obtain b where b: "18446603336221196288 \<le> b"
    "fits_at (segments demo_vmm) 140737488355328 b"
    "\<not> b + 140737488355328 \<le> 18446744073709551616 \<longrightarrow> reserve demo_add 140737488355328 demo_vmm = Some Panic"
    by (auto simp: sizes split: if_splits)
  have "18446744073709551616 \<le> b" using b(1,2) demo_fits [of 140737488355328 b] by auto
  then have "reserve demo_add 140737488355328 demo_vmm = Some Panic" using b(3) by simp
  with small show ?thesis by blast
qed

end
