(* ===== verification/Abi.thy ===== *)
theory Abi
  imports Muffin_Prelude
begin

text \<open>
  The kernel ABI (\<open>kernel/abi/src\<close>): error numbers, signals and their default actions, signal
  sets, \<open>lseek\<close> origins, \<open>ioctl\<close> requests with the framebuffer geometry, memory protection and
  mapping flags, system call numbers.
\<close>

section \<open>Error numbers\<close>

datatype errno = Errno (errno_value: int)

text \<open>The table the macro \<open>n!\<close> expands, the lookup of a name in it and the conversions from
  and to \<open>isize\<close> (the first one truncates to 32 bits).\<close>

definition errno_table :: "(string \<times> int) list" where
  "errno_table =
    [(''E2BIG'', 1), (''EACCES'', 2), (''EADDRINUSE'', 3), (''EADDRNOTAVAIL'', 4),
     (''EAFNOSUPPORT'', 5), (''EAGAIN'', 6), (''EALREADY'', 7), (''EBADF'', 8),
     (''EBADMSG'', 9), (''EBUSY'', 10), (''ECANCELED'', 11), (''ECHILD'', 12),
     (''ECONNABORTED'', 13), (''ECONNREFUSED'', 14), (''EDEADLK'', 15), (''EDESTADDRREQ'', 16),
     (''EDOM'', 17), (''EDQUOT'', 18), (''EEXIST'', 19), (''EFAULT'', 20), (''EFBIG'', 21),
     (''EHOSTUNREACH'', 22), (''EIDRM'', 23), (''EILSEQ'', 24), (''EINPROGRESS'', 25),
     (''EINTR'', 26), (''EINVAL'', 27), (''EIO'', 28), (''EISCONN'', 29), (''EISDIR'', 30),
     (''ELOOP'', 31), (''EMFILE'', 32), (''EMLINK'', 33), (''EMSGSIZE'', 34),
     (''EMULTIHOP'', 35), (''ENAMETOOLONG'', 36), (''ENETDOWN'', 37), (''ENETRESET'', 38),
     (''ENETUNREACH'', 39), (''ENFILE'', 40), (''ENOBUFS'', 41), (''ENODEV'', 42),
     (''ENOENT'', 43), (''ENOEXEC'', 44), (''ENOLCK'', 45), (''ENOLINK'', 46),
     (''ENOMEM'', 47), (''ENOMSG'', 48), (''ENOPROTOOPT'', 49), (''ENOSPC'', 50),
     (''ENOSYS'', 51), (''ENOTCONN'', 52), (''ENOTDIR'', 53), (''ENOTEMPTY'', 54),
     (''ENOTRECOVERABLE'', 55), (''ENOTSOCK'', 56), (''ENOTSUP'', 57), (''ENOTTY'', 58),
     (''ENXIO'', 59), (''EOPNOTSUPP'', 60), (''EOVERFLOW'', 61), (''EOWNERDEAD'', 62),
     (''EPERM'', 63), (''EPIPE'', 64), (''EPROTO'', 65), (''EPROTONOSUPPORT'', 66),
     (''EPROTOTYPE'', 67), (''ERANGE'', 68), (''EROFS'', 69), (''ESOCKTNOSUPPORT'', 70),
     (''ESPIPE'', 71), (''ESRCH'', 72), (''ESTALE'', 73), (''ETIMEDEOUT'', 74),
     (''ETXTBSY'', 75), (''EWOULDBLOCK'', 76), (''EXDEV'', 77)]"

definition table_name :: "(string \<times> int) list \<Rightarrow> int \<Rightarrow> string" where
  "table_name tab n = (case find (\<lambda>e. snd e = n) tab of Some e \<Rightarrow> fst e | None \<Rightarrow> ''<unknown>'')"

definition errno_name :: "errno \<Rightarrow> string" where
  "errno_name e = table_name errno_table (errno_value e)"

definition errno_from_isize :: "int \<Rightarrow> errno" where
  "errno_from_isize n = Errno (signed_take_bit 31 n)"

abbreviation E2BIG :: errno where
  "E2BIG \<equiv> Errno 1"

abbreviation EACCES :: errno where
  "EACCES \<equiv> Errno 2"

abbreviation EAGAIN :: errno where
  "EAGAIN \<equiv> Errno 6"

abbreviation EBADF :: errno where
  "EBADF \<equiv> Errno 8"

abbreviation EEXIST :: errno where
  "EEXIST \<equiv> Errno 19"

abbreviation EFAULT :: errno where
  "EFAULT \<equiv> Errno 20"

abbreviation EINTR :: errno where
  "EINTR \<equiv> Errno 26"

abbreviation EINVAL :: errno where
  "EINVAL \<equiv> Errno 27"

abbreviation EIO :: errno where
  "EIO \<equiv> Errno 28"

abbreviation EISDIR :: errno where
  "EISDIR \<equiv> Errno 30"

abbreviation EMFILE :: errno where
  "EMFILE \<equiv> Errno 32"

abbreviation ENAMETOOLONG :: errno where
  "ENAMETOOLONG \<equiv> Errno 36"

abbreviation ENODEV :: errno where
  "ENODEV \<equiv> Errno 42"

abbreviation ENOENT :: errno where
  "ENOENT \<equiv> Errno 43"

abbreviation ENOEXEC :: errno where
  "ENOEXEC \<equiv> Errno 44"

abbreviation ENOMEM :: errno where
  "ENOMEM \<equiv> Errno 47"

abbreviation ENOSPC :: errno where
  "ENOSPC \<equiv> Errno 50"

abbreviation ENOSYS :: errno where
  "ENOSYS \<equiv> Errno 51"

abbreviation ENOTDIR :: errno where
  "ENOTDIR \<equiv> Errno 53"

abbreviation ENOTSUP :: errno where
  "ENOTSUP \<equiv> Errno 57"

abbreviation ENOTTY :: errno where
  "ENOTTY \<equiv> Errno 58"

abbreviation EOVERFLOW :: errno where
  "EOVERFLOW \<equiv> Errno 61"

abbreviation EPERM :: errno where
  "EPERM \<equiv> Errno 63"

abbreviation ERANGE :: errno where
  "ERANGE \<equiv> Errno 68"

abbreviation EROFS :: errno where
  "EROFS \<equiv> Errno 69"

abbreviation ESPIPE :: errno where
  "ESPIPE \<equiv> Errno 71"

abbreviation ESRCH :: errno where
  "ESRCH \<equiv> Errno 72"

section \<open>Signals\<close>

type_synonym sig_set = u64

datatype signal =
    SigAbort | SigAlarm | SigBus | SigChild | SigContinue
  | SigFpe | SigHangup | SigIllegalInstruction | SigInterrupt | SigKill
  | SigPipe | SigQuit | SigSegfault | SigStop | SigTerminate
  | SigTerminalStop | SigTerminalInput | SigTerminalOutput | SigUsr1 | SigUsr2
  | SigWindowChanged | SigBadSyscall | SigTrap | SigUrgent | SigVirtualTimerAlarm
  | SigExceededCpuLimit | SigExceededFileSizeLimit

primrec signal_number :: "signal \<Rightarrow> int" where
  "signal_number SigAbort = 1"
| "signal_number SigAlarm = 2"
| "signal_number SigBus = 3"
| "signal_number SigChild = 4"
| "signal_number SigContinue = 5"
| "signal_number SigFpe = 6"
| "signal_number SigHangup = 7"
| "signal_number SigIllegalInstruction = 8"
| "signal_number SigInterrupt = 9"
| "signal_number SigKill = 10"
| "signal_number SigPipe = 11"
| "signal_number SigQuit = 12"
| "signal_number SigSegfault = 13"
| "signal_number SigStop = 14"
| "signal_number SigTerminate = 15"
| "signal_number SigTerminalStop = 16"
| "signal_number SigTerminalInput = 17"
| "signal_number SigTerminalOutput = 18"
| "signal_number SigUsr1 = 19"
| "signal_number SigUsr2 = 20"
| "signal_number SigWindowChanged = 21"
| "signal_number SigBadSyscall = 22"
| "signal_number SigTrap = 23"
| "signal_number SigUrgent = 24"
| "signal_number SigVirtualTimerAlarm = 25"
| "signal_number SigExceededCpuLimit = 26"
| "signal_number SigExceededFileSizeLimit = 27"

primrec signal_name :: "signal \<Rightarrow> string" where
  "signal_name SigAbort = ''SIGABRT''"
| "signal_name SigAlarm = ''SIGALRM''"
| "signal_name SigBus = ''SIGBUS''"
| "signal_name SigChild = ''SIGCHLD''"
| "signal_name SigContinue = ''SIGCONT''"
| "signal_name SigFpe = ''SIGFPE''"
| "signal_name SigHangup = ''SIGHUP''"
| "signal_name SigIllegalInstruction = ''SIGILL''"
| "signal_name SigInterrupt = ''SIGINT''"
| "signal_name SigKill = ''SIGKILL''"
| "signal_name SigPipe = ''SIGPIPE''"
| "signal_name SigQuit = ''SIGQUIT''"
| "signal_name SigSegfault = ''SIGSEGV''"
| "signal_name SigStop = ''SIGSTOP''"
| "signal_name SigTerminate = ''SIGTERM''"
| "signal_name SigTerminalStop = ''SIGTSTP''"
| "signal_name SigTerminalInput = ''SIGTTIN''"
| "signal_name SigTerminalOutput = ''SIGTTOU''"
| "signal_name SigUsr1 = ''SIGUSR1''"
| "signal_name SigUsr2 = ''SIGUSR2''"
| "signal_name SigWindowChanged = ''SIGWINCH''"
| "signal_name SigBadSyscall = ''SIGSYS''"
| "signal_name SigTrap = ''SIGTRAP''"
| "signal_name SigUrgent = ''SIGURG''"
| "signal_name SigVirtualTimerAlarm = ''SIGVTALRM''"
| "signal_name SigExceededCpuLimit = ''SIGXCPU''"
| "signal_name SigExceededFileSizeLimit = ''SIGXFSZ''"

definition all_signals :: "signal list" where
  "all_signals =
    [SigAbort, SigAlarm, SigBus, SigChild, SigContinue, SigFpe, SigHangup,
     SigIllegalInstruction, SigInterrupt, SigKill, SigPipe, SigQuit, SigSegfault, SigStop,
     SigTerminate, SigTerminalStop, SigTerminalInput, SigTerminalOutput, SigUsr1, SigUsr2,
     SigWindowChanged, SigBadSyscall, SigTrap, SigUrgent, SigVirtualTimerAlarm,
     SigExceededCpuLimit, SigExceededFileSizeLimit]"

definition SIGNAL_COUNT :: nat where
  "SIGNAL_COUNT = 27"

definition signal_try_from :: "int \<Rightarrow> (errno, signal) outcome" where
  "signal_try_from v =
     (case find (\<lambda>s. signal_number s = v) all_signals of Some s \<Rightarrow> Ok s | None \<Rightarrow> Err EINVAL)"

definition signal_bit :: "signal \<Rightarrow> sig_set" where
  "signal_bit s = push_bit (nat (signal_number s - 1)) 1"

definition STOP_SIGNALS_MASK :: sig_set where
  "STOP_SIGNALS_MASK = signal_bit SigStop OR signal_bit SigTerminalStop OR
     signal_bit SigTerminalInput OR signal_bit SigTerminalOutput"

datatype default_act = ActTerminate | ActIgnore | ActStop

definition default_action :: "signal \<Rightarrow> default_act" where
  "default_action s =
     (if s \<in> {SigChild, SigWindowChanged, SigUrgent, SigContinue} then ActIgnore
      else if s \<in> {SigStop, SigTerminalStop, SigTerminalInput, SigTerminalOutput} then ActStop
      else ActTerminate)"

datatype sig_mask_how = HowBlock | HowUnblock | HowSetMask

definition sig_mask_how_try_from :: "nat \<Rightarrow> (errno, sig_mask_how) outcome" where
  "sig_mask_how_try_from v =
     (if v = 0 then Ok HowBlock else if v = 1 then Ok HowUnblock else if v = 2 then Ok HowSetMask
      else Err EINVAL)"

text \<open>Handlers are addresses; 0 and 1 are the two special ones.\<close>

type_synonym sig_handler = u64

definition handler_is_default :: "sig_handler \<Rightarrow> bool" where
  "handler_is_default h \<longleftrightarrow> h = 0"

definition handler_is_ignore :: "sig_handler \<Rightarrow> bool" where
  "handler_is_ignore h \<longleftrightarrow> h = 1"

definition SA_RESTART :: u32 where "SA_RESTART = 1"

definition SA_SIGINFO :: u32 where "SA_SIGINFO = 2"

definition SA_NODEFER :: u32 where "SA_NODEFER = 4"

definition SA_RESETHAND :: u32 where "SA_RESETHAND = 8"

definition sa_contains :: "u32 \<Rightarrow> u32 \<Rightarrow> bool" where
  "sa_contains flags other \<longleftrightarrow> flags AND other = other"

record sig_action =
  sa_handler :: sig_handler
  sa_mask :: sig_set
  sa_flags :: u32
  sa_restorer :: u64

definition sig_action_default :: sig_action where
  "sig_action_default = \<lparr>sa_handler = 0, sa_mask = 0, sa_flags = 0, sa_restorer = 0\<rparr>"

type_synonym process_id = nat

datatype sig_info_field =
    InfoNone
  | InfoKill process_id u32
  | InfoFault u64 int
  | InfoTimer int u64
  | InfoChild process_id int u32

record sig_info =
  si_signo :: signal
  si_code :: int
  si_errno :: int
  si_info :: sig_info_field

definition is_root :: "process_id \<Rightarrow> bool" where
  "is_root pid \<longleftrightarrow> pid = 0"

section \<open>Numbers the system calls take\<close>

datatype whence = SeekSet | SeekCur | SeekEnd

definition whence_try_from :: "nat \<Rightarrow> (errno, whence) outcome" where
  "whence_try_from v =
     (if v = 0 then Ok SeekSet else if v = 1 then Ok SeekCur else if v = 2 then Ok SeekEnd
      else Err EINVAL)"

datatype ioctl_request = FbGetScreenInfo

record fb_screen_info =
  fb_width :: u32
  fb_height :: u32
  fb_pitch :: u32
  fb_bpp :: u32

definition FB_SCREEN_INFO_SIZE :: nat where
  "FB_SCREEN_INFO_SIZE = 16"

primrec ioctl_arg_size :: "ioctl_request \<Rightarrow> nat" where
  "ioctl_arg_size FbGetScreenInfo = FB_SCREEN_INFO_SIZE"

primrec ioctl_number :: "ioctl_request \<Rightarrow> nat" where
  "ioctl_number FbGetScreenInfo = 1"

definition ioctl_request_try_from :: "nat \<Rightarrow> (errno, ioctl_request) outcome" where
  "ioctl_request_try_from v = (if v = 1 then Ok FbGetScreenInfo else Err ENOTTY)"

text \<open>The native byte order of the target is little endian.\<close>

definition fb_to_bytes :: "fb_screen_info \<Rightarrow> bytes" where
  "fb_to_bytes i =
     overwrite 12 (word_to_le 4 (fb_bpp i))
       (overwrite 8 (word_to_le 4 (fb_pitch i))
         (overwrite 4 (word_to_le 4 (fb_height i))
           (overwrite 0 (word_to_le 4 (fb_width i)) (replicate FB_SCREEN_INFO_SIZE 0))))"

definition fb_from_bytes :: "bytes \<Rightarrow> fb_screen_info" where
  "fb_from_bytes b =
     \<lparr>fb_width = word_from_le (slice 0 4 b), fb_height = word_from_le (slice 4 8 b),
      fb_pitch = word_from_le (slice 8 12 b), fb_bpp = word_from_le (slice 12 16 b)\<rparr>"

definition PROT_NONE :: u32 where "PROT_NONE = 0"

definition PROT_READ :: u32 where "PROT_READ = 1"

definition PROT_WRITE :: u32 where "PROT_WRITE = 2"

definition PROT_EXEC :: u32 where "PROT_EXEC = 4"

definition MAP_SHARED :: u32 where "MAP_SHARED = 1"

definition MAP_PRIVATE :: u32 where "MAP_PRIVATE = 2"

definition MAP_FIXED :: u32 where "MAP_FIXED = 16"

definition MAP_ANONYMOUS :: u32 where "MAP_ANONYMOUS = 32"

definition syscall_table :: "(string \<times> int) list" where
  "syscall_table =
    [(''SYS_EXIT'', 1), (''SYS_FCNTL'', 2), (''SYS_OPEN'', 3), (''SYS_STAT'', 4),
     (''SYS_FSTAT'', 5), (''SYS_PTHREAD_COND_INIT'', 6), (''SYS_PTHREAD_COND_WAIT'', 7),
     (''SYS_PTHREAD_COND_SIGNAL'', 8), (''SYS_PTHREAD_COND_DESTROY'', 9),
     (''SYS_PTHREAD_SETSPECIFIC'', 10), (''SYS_PTHREAD_MUTEXATTR_INIT'', 11),
     (''SYS_PTHREAD_MUTEXATTR_DESTROY'', 12), (''SYS_PTHREAD_MUTEXATTR_SETTYPE'', 13),
     (''SYS_PTHREAD_MUTEX_INIT'', 14), (''SYS_PTHREAD_MUTEX_LOCK'', 15),
     (''SYS_PTHREAD_MUTEX_TRYLOCK'', 16), (''SYS_PTHREAD_MUTEX_UNLOCK'', 17),
     (''SYS_PTHREAD_MUTEX_DESTROY'', 18), (''SYS_PTHREAD_CONDATTR_INIT'', 19),
     (''SYS_PTHREAD_CONDATTR_SETCLOCK'', 20), (''SYS_PTHREAD_CONDATTR_DESTROY'', 21),
     (''SYS_PTHREAD_KEY_CREATE'', 22), (''SYS_PTHREAD_KEY_DELETE'', 23), (''SYS_POLL'', 24),
     (''SYS_SIGNAL'', 25), (''SYS_GETENV'', 26), (''SYS_MALLOC'', 27), (''SYS_FREE'', 28),
     (''SYS_REALLOC'', 29), (''SYS_CALLOC'', 30), (''SYS_POSIX_MEMALIGN'', 31),
     (''SYS_ABORT'', 32), (''SYS_REALPATH'', 33), (''SYS_STRERROR_R'', 34),
     (''SYS_GETCWD'', 35), (''SYS_READ'', 36), (''SYS_WRITE'', 37), (''SYS_WRITEV'', 38),
     (''SYS_LSEEK'', 39), (''SYS_CLOSE'', 40), (''SYS_MMAP'', 41), (''SYS_KILL'', 42),
     (''SYS_SIGACTION'', 43), (''SYS_SIGPROCMASK'', 44), (''SYS_SIGPENDING'', 45),
     (''SYS_SIGRETURN'', 46), (''SYS_GETPID'', 47), (''SYS_IOCTL'', 48), (''SYS_FSYNC'', 49),
     (''SYS_CLOCK_GETTIME'', 50), (''SYS_EXE_PATH'', 51), (''SYS_NANOSLEEP'', 52),
     (''SYS_EXECVE'', 53)]"

definition syscall_name :: "nat \<Rightarrow> string" where
  "syscall_name n = table_name syscall_table (int n)"

section \<open>Facts about the encodings\<close>

lemma all_signals_complete [simp]: "s \<in> set all_signals"
  by (cases s) (simp_all add: all_signals_def)

lemma signal_number_bounds: "1 \<le> signal_number s \<and> signal_number s \<le> int SIGNAL_COUNT"
  by (cases s) (simp_all add: SIGNAL_COUNT_def)

lemma signal_numbers: "map signal_number all_signals = [1..27]"
  by (simp add: all_signals_def upto_rec1)

lemma signal_number_inj: "signal_number s = signal_number t \<longleftrightarrow> s = t"
proof
  assume eq: "signal_number s = signal_number t"
  have "inj_on signal_number (set all_signals)"
    using distinct_map [of signal_number all_signals] by (simp add: signal_numbers)
  then show "s = t" using eq by (simp add: inj_on_eq_iff)
qed simp

lemma signal_try_from_iff: "signal_try_from v = Ok s \<longleftrightarrow> signal_number s = v"
proof -
  have "find (\<lambda>s. signal_number s = v) all_signals = Some s \<longleftrightarrow> signal_number s = v"
  proof
    assume "find (\<lambda>s. signal_number s = v) all_signals = Some s"
    then show "signal_number s = v" by (auto simp: find_Some_iff)
  next
    assume s: "signal_number s = v"
    then have "find (\<lambda>s. signal_number s = v) all_signals \<noteq> None" by (auto simp: find_None_iff)
    then obtain t where t: "find (\<lambda>s. signal_number s = v) all_signals = Some t" by blast
    then have "signal_number t = v" by (auto simp: find_Some_iff)
    then show "find (\<lambda>s. signal_number s = v) all_signals = Some s"
      using t s signal_number_inj [of t s] by simp
  qed
  then show ?thesis by (auto simp: signal_try_from_def split: option.splits)
qed

lemma signal_try_from_Err: "signal_try_from v = Err e \<longleftrightarrow> e = EINVAL \<and> \<not> (1 \<le> v \<and> v \<le> 27)"
proof -
  have "(\<exists>s. signal_number s = v) \<longleftrightarrow> v \<in> set (map signal_number all_signals)" by auto
  then have "(\<exists>s. signal_number s = v) \<longleftrightarrow> 1 \<le> v \<and> v \<le> 27" by (simp add: signal_numbers)
  then show ?thesis by (auto simp: signal_try_from_def find_None_iff find_Some_iff split: option.splits)
qed

definition sig_index :: "signal \<Rightarrow> nat" where
  "sig_index s = nat (signal_number s - 1)"

lemma sig_index_less: "sig_index s < SIGNAL_COUNT"
  using signal_number_bounds [of s] by (auto simp: sig_index_def)

lemma sig_index_inj: "sig_index s = sig_index t \<longleftrightarrow> s = t"
  using signal_number_bounds [of s] signal_number_bounds [of t] signal_number_inj [of s t]
  by (auto simp: sig_index_def)

lemma sig_index_surj: "i < SIGNAL_COUNT \<Longrightarrow> \<exists>s. sig_index s = i"
proof -
  assume "i < SIGNAL_COUNT"
  then have "int i + 1 \<in> set (map signal_number all_signals)"
    by (simp add: signal_numbers SIGNAL_COUNT_def)
  then obtain s where "signal_number s = int i + 1" by auto
  then show ?thesis by (auto simp: sig_index_def intro: exI [of _ s])
qed

lemma bit_signal_bit: "bit (signal_bit s) n \<longleftrightarrow> n = sig_index s"
  using sig_index_less [of s]
  by (auto simp: signal_bit_def sig_index_def bit_simps SIGNAL_COUNT_def)

lemma signal_mask_zero: "w AND signal_bit s = 0 \<longleftrightarrow> \<not> bit w (sig_index s)"
proof -
  have "bit (w AND signal_bit s) n \<longleftrightarrow> bit w (sig_index s) \<and> n = sig_index s" for n
    by (auto simp: bit_and_iff bit_signal_bit)
  then show ?thesis by (metis bit_0_eq bot_apply bot_bool_def bit_eqI)
qed

definition stop_family :: "signal set" where
  "stop_family = {SigStop, SigTerminalStop, SigTerminalInput, SigTerminalOutput}"

lemma bit_STOP_SIGNALS_MASK: "bit STOP_SIGNALS_MASK n \<longleftrightarrow> (\<exists>s \<in> stop_family. n = sig_index s)"
  by (auto simp: STOP_SIGNALS_MASK_def stop_family_def bit_simps bit_signal_bit)

lemma fb_bytes: "fb_from_bytes (fb_to_bytes i) = i" "length (fb_to_bytes i) = 16"
  by (simp_all add: fb_from_bytes_def fb_to_bytes_def FB_SCREEN_INFO_SIZE_def slice_overwrite_field
      slice_overwrite_disjoint word_from_to_le)

section \<open>Properties\<close>

text \<open>C13: The raw numbers crossing the system call boundary decode exactly to the values they
  encode: signals, \<open>ioctl\<close> requests and the framebuffer geometry survive the round trip, a number
  outside 1 to 27 is no signal and is refused with \<open>EINVAL\<close>.\<close>

theorem abi_round_trip:
  "(signal_try_from v = Ok s \<longleftrightarrow> v = signal_number s) \<and>
   (signal_try_from v = Err EINVAL \<longleftrightarrow> v \<notin> {1..27}) \<and>
   ioctl_request_try_from (ioctl_number r) = Ok r \<and>
   length (fb_to_bytes i) = ioctl_arg_size FbGetScreenInfo \<and> fb_from_bytes (fb_to_bytes i) = i"
  by (cases r) (auto simp: signal_try_from_iff signal_try_from_Err ioctl_request_try_from_def fb_bytes
      FB_SCREEN_INFO_SIZE_def)

end
