(* ===== verification/Signals.thy ===== *)
theory Signals
  imports Abi
begin

text \<open>
  The signal policy (\<open>kernel/syscall/src/signal.rs\<close>): the per-process \<open>SignalState\<close> with its
  pending and blocked sets, dispositions, \<open>sigaction\<close>, \<open>sigprocmask\<close>, handler entry and exec,
  and the \<open>kill\<close> system call over the access traits.

  Shown here: the invariants every sequence of operations keeps (a stop signal and \<open>Continue\<close>
  are never pending together, \<open>Kill\<close> and \<open>Stop\<close> are never blocked and keep their default
  action); that the next signal delivered is the lowest-numbered deliverable one; what \<open>kill\<close>
  delivers and returns.
\<close>

section \<open>The state\<close>

datatype disp = DispIgnore | DispTerminate | DispStop | DispHandler sig_action

record deliver_effect =
  resume_tasks :: bool

record signal_state =
  actions :: "sig_action list"
  pending :: sig_set
  blocked :: sig_set
  stopped :: bool

definition signal_state_default :: signal_state where
  "signal_state_default =
     \<lparr>actions = replicate SIGNAL_COUNT sig_action_default, pending = 0, blocked = 0, stopped = False\<rparr>"

definition KILL_STOP_MASK :: sig_set where
  "KILL_STOP_MASK = signal_bit SigKill OR signal_bit SigStop"

definition action :: "signal \<Rightarrow> signal_state \<Rightarrow> sig_action" where
  "action s st = actions st ! sig_index s"

definition signals_in :: "sig_set \<Rightarrow> signal list" where
  "signals_in w = List.map_filter (\<lambda>i.
     if w AND push_bit i 1 \<noteq> 0
     then (case signal_try_from (int i + 1) of Ok s \<Rightarrow> Some s | _ \<Rightarrow> None)
     else None) [0..<SIGNAL_COUNT]"

definition set_pending :: "signal \<Rightarrow> signal_state \<Rightarrow> signal_state" where
  "set_pending s st =
     (let st1 = st\<lparr>pending := pending st OR signal_bit s\<rparr>
      in if STOP_SIGNALS_MASK AND signal_bit s \<noteq> 0
         then st1\<lparr>pending := pending st1 AND NOT (signal_bit SigContinue)\<rparr>
         else if s = SigContinue
         then st1\<lparr>pending := pending st1 AND NOT STOP_SIGNALS_MASK\<rparr>
         else st1)"

definition deliver :: "signal \<Rightarrow> signal_state \<Rightarrow> deliver_effect \<times> signal_state" where
  "deliver s st =
     (let st1 = set_pending s st
      in if (s = SigContinue \<or> s = SigKill) \<and> stopped st1
         then (\<lparr>resume_tasks = True\<rparr>, st1\<lparr>stopped := False\<rparr>)
         else (\<lparr>resume_tasks = False\<rparr>, st1))"

text \<open>\<open>u64::trailing_zeros\<close>: the number of the lowest set bit, the width for zero.\<close>

definition trailing_zeros :: "'a::len word \<Rightarrow> nat" where
  "trailing_zeros w = (case find (bit w) [0..<LENGTH('a)] of Some i \<Rightarrow> i | None \<Rightarrow> LENGTH('a))"

definition take_next_deliverable :: "signal_state \<Rightarrow> signal option \<times> signal_state" where
  "take_next_deliverable st =
     (let deliverable = pending st AND NOT (blocked st)
      in if deliverable = 0 then (None, st)
         else case signal_try_from (int (trailing_zeros deliverable) + 1) of
                Ok s \<Rightarrow> (Some s, st\<lparr>pending := pending st AND NOT (signal_bit s)\<rparr>)
              | _ \<Rightarrow> (None, st))"

definition disposition :: "signal \<Rightarrow> signal_state \<Rightarrow> disp" where
  "disposition s st =
     (if s = SigKill then DispTerminate
      else let act = action s st
           in if handler_is_ignore (sa_handler act) then DispIgnore
              else if handler_is_default (sa_handler act)
              then (case default_action s of
                      ActIgnore \<Rightarrow> DispIgnore
                    | ActTerminate \<Rightarrow> DispTerminate
                    | ActStop \<Rightarrow> DispStop)
              else DispHandler act)"

definition has_fatal_deliverable :: "signal_state \<Rightarrow> bool" where
  "has_fatal_deliverable st =
     list_ex (\<lambda>s. disposition s st = DispTerminate) (signals_in (pending st AND NOT (blocked st)))"

fun is_interrupting :: "disp \<Rightarrow> bool" where
  "is_interrupting (DispHandler _) = True"
| "is_interrupting DispTerminate = True"
| "is_interrupting _ = False"

definition has_interrupting_deliverable :: "signal_state \<Rightarrow> bool" where
  "has_interrupting_deliverable st =
     list_ex (\<lambda>s. is_interrupting (disposition s st)) (signals_in (pending st AND NOT (blocked st)))"

definition is_custom :: "sig_action \<Rightarrow> bool" where
  "is_custom a \<longleftrightarrow> \<not> handler_is_default (sa_handler a) \<and> \<not> handler_is_ignore (sa_handler a)"

definition sigaction ::
  "signal \<Rightarrow> sig_action option \<Rightarrow> signal_state \<Rightarrow> (errno, sig_action) outcome \<times> signal_state" where
  "sigaction s new_action st =
     (let old = action s st
      in case new_action of
           None \<Rightarrow> (Ok old, st)
         | Some new \<Rightarrow>
             if s = SigKill \<or> s = SigStop then (Err EINVAL, st)
             else if is_custom new \<and> sa_restorer new = 0 then (Err EINVAL, st)
             else if sa_contains (sa_flags new) SA_SIGINFO then (Err EINVAL, st)
             else (Ok old, st\<lparr>actions := (actions st)[sig_index s := new]\<rparr>))"

definition exec_reset :: "signal_state \<Rightarrow> signal_state" where
  "exec_reset st = st\<lparr>actions := map (\<lambda>a.
     if \<not> handler_is_ignore (sa_handler a) then sig_action_default else a) (actions st)\<rparr>"

definition sigprocmask ::
  "sig_mask_how \<Rightarrow> sig_set option \<Rightarrow> signal_state \<Rightarrow> (errno, sig_set) outcome \<times> signal_state" where
  "sigprocmask how new_set st =
     (let old = blocked st
      in case new_set of
           None \<Rightarrow> (Ok old, st)
         | Some m \<Rightarrow>
             let b = (case how of
                        HowBlock \<Rightarrow> blocked st OR m
                      | HowUnblock \<Rightarrow> blocked st AND NOT m
                      | HowSetMask \<Rightarrow> m)
             in (Ok old, st\<lparr>blocked := b AND NOT KILL_STOP_MASK\<rparr>))"

definition sigpending :: "signal_state \<Rightarrow> sig_set" where
  "sigpending st = pending st"

definition set_blocked_raw :: "sig_set \<Rightarrow> signal_state \<Rightarrow> signal_state" where
  "set_blocked_raw m st = st\<lparr>blocked := m AND NOT KILL_STOP_MASK\<rparr>"

definition apply_handler_entry ::
  "signal \<Rightarrow> sig_action \<Rightarrow> signal_state \<Rightarrow> sig_set \<times> signal_state" where
  "apply_handler_entry s act st =
     (let old_blocked = blocked st;
          b1 = blocked st OR sa_mask act;
          b2 = (if \<not> sa_contains (sa_flags act) SA_NODEFER then b1 OR signal_bit s else b1);
          st1 = st\<lparr>blocked := b2 AND NOT KILL_STOP_MASK\<rparr>;
          st2 = (if sa_contains (sa_flags act) SA_RESETHAND
                 then st1\<lparr>actions := (actions st1)[sig_index s := sig_action_default]\<rparr> else st1)
      in (old_blocked, st2))"

definition set_stopped :: "bool \<Rightarrow> signal_state \<Rightarrow> signal_state" where
  "set_stopped b st = st\<lparr>stopped := b\<rparr>"

section \<open>Sending a signal\<close>

datatype signal_target =
    BroadcastAll
  | SpecificProcess process_id
  | ProcessGroup process_id

record identity =
  id_process :: process_id
  id_user :: u32
  id_group :: process_id

record process_handle =
  process_id :: process_id
  process_group_id :: process_id

text \<open>
  The access traits \<open>SignalAccess\<close>, \<open>PermissionAccess\<close> and \<open>ProcessesAccess\<close> as the operations
  a kernel state \<open>'s\<close> provides; \<open>process_by_id\<close> and \<open>processes_in_group\<close> are the default methods.
  The result of \<open>check_permission\<close> is its error, if any.
\<close>

record 's kill_access =
  current_identity :: "'s \<Rightarrow> identity"
  all_processes :: "'s \<Rightarrow> process_handle list"
  check_permission :: "'s \<Rightarrow> process_id \<Rightarrow> errno option"
  deliver_to :: "process_id \<Rightarrow> sig_info \<Rightarrow> 's \<Rightarrow> 's"

definition process_by_id :: "'s kill_access \<Rightarrow> 's \<Rightarrow> process_id \<Rightarrow> process_handle option" where
  "process_by_id cx st pid = find (\<lambda>p. process_id p = pid) (all_processes cx st)"

definition processes_in_group :: "'s kill_access \<Rightarrow> 's \<Rightarrow> process_id \<Rightarrow> process_handle list" where
  "processes_in_group cx st pgid = filter (\<lambda>p. process_group_id p = pgid) (all_processes cx st)"

fun distribute_fold ::
  "'s kill_access \<Rightarrow> sig_info \<Rightarrow> process_handle list \<Rightarrow> (errno, nat) outcome \<times> 's
   \<Rightarrow> (errno, nat) outcome \<times> 's" where
  "distribute_fold cx info [] acc = acc"
| "distribute_fold cx info (p # ps) (res, st) =
     distribute_fold cx info ps
       (case check_permission cx st (process_id p) of
          None \<Rightarrow> (Ok 0, deliver_to cx (process_id p) info st)
        | Some _ \<Rightarrow> (if is_ok res then res else Err EPERM, st))"

definition distribute_signal ::
  "'s kill_access \<Rightarrow> process_handle list \<Rightarrow> sig_info \<Rightarrow> 's \<Rightarrow> (errno, nat) outcome \<times> 's" where
  "distribute_signal cx ps info st = distribute_fold cx info ps (Err ESRCH, st)"

definition sys_kill ::
  "'s kill_access \<Rightarrow> signal_target \<Rightarrow> signal \<Rightarrow> 's \<Rightarrow> (errno, nat) outcome \<times> 's" where
  "sys_kill cx target s st =
     (let me = current_identity cx st;
          info = \<lparr>si_signo = s, si_code = 0, si_errno = 0,
                  si_info = InfoKill (id_process me) (id_user me)\<rparr>
      in case target of
           SpecificProcess pid \<Rightarrow>
             (case process_by_id cx st pid of
                None \<Rightarrow> (Err ESRCH, st)
              | Some p \<Rightarrow>
                  (case check_permission cx st (process_id p) of
                     None \<Rightarrow> (Ok 0, deliver_to cx pid info st)
                   | Some e \<Rightarrow> (Err e, st)))
         | BroadcastAll \<Rightarrow> distribute_signal cx (all_processes cx st) info st
         | ProcessGroup pgid \<Rightarrow>
             distribute_signal cx
               (processes_in_group cx st (if is_root pgid then id_group me else pgid)) info st)"

section \<open>Reading the sets\<close>

definition is_pending :: "signal_state \<Rightarrow> signal \<Rightarrow> bool" where
  "is_pending st s \<longleftrightarrow> bit (pending st) (sig_index s)"

definition is_blocked :: "signal_state \<Rightarrow> signal \<Rightarrow> bool" where
  "is_blocked st s \<longleftrightarrow> bit (blocked st) (sig_index s)"

definition discards :: "signal \<Rightarrow> signal \<Rightarrow> bool" where
  "discards s t \<longleftrightarrow> s \<in> stop_family \<and> t = SigContinue \<or> s = SigContinue \<and> t \<in> stop_family"

lemma sig_index_64: "sig_index s < 64"
  using sig_index_less [of s] by (simp add: SIGNAL_COUNT_def)

lemma stop_mask_iff: "STOP_SIGNALS_MASK AND signal_bit s \<noteq> 0 \<longleftrightarrow> s \<in> stop_family"
  by (auto simp: signal_mask_zero bit_STOP_SIGNALS_MASK sig_index_inj)

lemma bit_KILL_STOP_MASK: "bit KILL_STOP_MASK n \<longleftrightarrow> n = sig_index SigKill \<or> n = sig_index SigStop"
  by (simp add: KILL_STOP_MASK_def bit_simps bit_signal_bit)

lemma set_pending_bit:
  assumes "n < 64"
  shows "bit (pending (set_pending s st)) n \<longleftrightarrow>
    n = sig_index s \<or> bit (pending st) n \<and> (\<forall>t. n = sig_index t \<longrightarrow> \<not> discards s t)"
  using assms
  by (auto simp: set_pending_def Let_def stop_mask_iff bit_simps bit_signal_bit discards_def
      bit_STOP_SIGNALS_MASK sig_index_inj stop_family_def)

lemma is_pending_set_pending:
  "is_pending (set_pending s st) t \<longleftrightarrow> t = s \<or> is_pending st t \<and> \<not> discards s t"
  using set_pending_bit [of "sig_index t" s st, OF sig_index_64] by (auto simp: is_pending_def sig_index_inj)

lemma set_pending_rest [simp]:
  "actions (set_pending s st) = actions st" "blocked (set_pending s st) = blocked st"
  "stopped (set_pending s st) = stopped st"
  by (simp_all add: set_pending_def Let_def)

section \<open>The invariant\<close>

definition signal_inv :: "signal_state \<Rightarrow> bool" where
  "signal_inv st \<longleftrightarrow>
     length (actions st) = SIGNAL_COUNT \<and>
     (\<forall>n. bit (pending st) n \<longrightarrow> n < SIGNAL_COUNT) \<and>
     (\<forall>s t. is_pending st s \<and> is_pending st t \<longrightarrow> \<not> discards s t) \<and>
     \<not> is_blocked st SigKill \<and> \<not> is_blocked st SigStop \<and>
     action SigKill st = sig_action_default \<and> action SigStop st = sig_action_default \<and>
     (\<forall>s. is_custom (action s st) \<longrightarrow> sa_restorer (action s st) \<noteq> 0)"

inductive signal_step :: "signal_state \<Rightarrow> signal_state \<Rightarrow> bool" where
  deliver: "deliver s st = (eff, st') \<Longrightarrow> signal_step st st'"
| pend: "signal_step st (set_pending s st)"
| take_next: "take_next_deliverable st = (res, st') \<Longrightarrow> signal_step st st'"
| sigaction: "sigaction s new st = (res, st') \<Longrightarrow> signal_step st st'"
| exec: "signal_step st (exec_reset st)"
| sigprocmask: "sigprocmask how new_set st = (res, st') \<Longrightarrow> signal_step st st'"
| set_blocked: "signal_step st (set_blocked_raw m st)"
| handler: "apply_handler_entry s act st = (old, st') \<Longrightarrow> signal_step st st'"
| set_stopped: "signal_step st (set_stopped b st)"

inductive signal_reachable :: "signal_state \<Rightarrow> bool" where
  start: "signal_reachable signal_state_default"
| step: "signal_reachable st \<Longrightarrow> signal_step st st' \<Longrightarrow> signal_reachable st'"

lemma action_update:
  assumes "length (actions st) = SIGNAL_COUNT"
  shows "action t (st\<lparr>actions := (actions st)[sig_index s := a]\<rparr>) = (if t = s then a else action t st)"
  using assms sig_index_less [of s] sig_index_less [of t]
  by (auto simp: action_def nth_list_update sig_index_inj)

lemma custom_default [simp]: "\<not> is_custom sig_action_default"
  by (simp add: is_custom_def sig_action_default_def handler_is_default_def)

lemma signal_inv_pending:
  assumes "signal_inv st" and "\<And>n. bit p n \<Longrightarrow> bit (pending st) n"
  shows "signal_inv (st\<lparr>pending := p\<rparr>)"
  using assms by (auto simp: signal_inv_def is_pending_def is_blocked_def action_def)

lemma signal_inv_blocked:
  assumes "signal_inv st"
  shows "signal_inv (st\<lparr>blocked := m AND NOT KILL_STOP_MASK\<rparr>)"
  using assms by (auto simp: signal_inv_def is_pending_def is_blocked_def action_def bit_simps bit_KILL_STOP_MASK)

lemma signal_inv_set_pending:
  assumes "signal_inv st"
  shows "signal_inv (set_pending s st)"
proof -
  have "n < SIGNAL_COUNT" if "bit (pending (set_pending s st)) n" for n
    using that assms set_pending_bit [of n s st] sig_index_less [of s] bit_imp_le_length [OF that]
    by (auto simp: signal_inv_def)
  moreover have "\<not> discards t u" if "is_pending (set_pending s st) t" "is_pending (set_pending s st) u" for t u
    using that assms by (auto simp: is_pending_set_pending signal_inv_def discards_def stop_family_def)
  ultimately show ?thesis using assms by (simp add: signal_inv_def is_blocked_def action_def)
qed

lemma signal_inv_action:
  assumes "signal_inv st" and "is_custom a \<longrightarrow> sa_restorer a \<noteq> 0"
    and "s \<noteq> SigKill \<and> s \<noteq> SigStop \<or> a = sig_action_default"
  shows "signal_inv (st\<lparr>actions := (actions st)[sig_index s := a]\<rparr>)"
proof -
  have len: "length (actions st) = SIGNAL_COUNT" using assms(1) by (simp add: signal_inv_def)
  show ?thesis using assms unfolding signal_inv_def action_update [OF len]
    by (auto simp: is_pending_def is_blocked_def)
qed

lemma signal_inv_stopped: "signal_inv (st\<lparr>stopped := b\<rparr>) = signal_inv st"
  by (simp add: signal_inv_def is_pending_def is_blocked_def action_def)

lemma signal_inv_exec: "signal_inv st \<Longrightarrow> signal_inv (exec_reset st)"
proof -
  assume inv: "signal_inv st"
  then have "action s (exec_reset st) =
      (if \<not> handler_is_ignore (sa_handler (action s st)) then sig_action_default else action s st)" for s
    using sig_index_less [of s] by (simp add: signal_inv_def action_def exec_reset_def)
  then show ?thesis using inv
    by (auto simp: signal_inv_def is_pending_def is_blocked_def exec_reset_def)
qed

lemma signal_inv_step:
  assumes "signal_step st st'" and "signal_inv st"
  shows "signal_inv st'"
  using assms
proof (cases rule: signal_step.cases)
  case (deliver s eff)
  then show ?thesis using signal_inv_set_pending [OF assms(2), of s]
    by (auto simp: deliver_def Let_def signal_inv_stopped split: if_splits)
next
  case (pend s)
  then show ?thesis using signal_inv_set_pending [OF assms(2)] by simp
next
  case (take_next res)
  have "signal_inv (st\<lparr>pending := pending st AND NOT (signal_bit s)\<rparr>)" for s
    by (rule signal_inv_pending [OF assms(2)]) (simp add: bit_simps)
  then show ?thesis using assms(2) take_next
    by (auto simp: take_next_deliverable_def Let_def split: if_splits outcome.splits)
next
  case (sigaction s new res)
  then show ?thesis using assms(2) signal_inv_action [OF assms(2)]
    by (auto simp: sigaction_def Let_def split: if_splits option.splits)
next
  case exec
  then show ?thesis using signal_inv_exec assms(2) by simp
next
  case (sigprocmask how new_set res)
  then show ?thesis using assms(2) signal_inv_blocked [OF assms(2)]
    by (auto simp: sigprocmask_def Let_def split: option.splits)
next
  case (set_blocked m)
  then show ?thesis using signal_inv_blocked [OF assms(2)] by (simp add: set_blocked_raw_def)
next
  case (handler s act old)
  let ?b = "if \<not> sa_contains (sa_flags act) SA_NODEFER then (blocked st OR sa_mask act) OR signal_bit s
            else blocked st OR sa_mask act"
  let ?st = "st\<lparr>blocked := ?b AND NOT KILL_STOP_MASK\<rparr>"
  have "signal_inv ?st" using signal_inv_blocked [OF assms(2)] .
  then have "signal_inv (?st\<lparr>actions := (actions ?st)[sig_index s := sig_action_default]\<rparr>)"
    by (intro signal_inv_action) auto
  then show ?thesis using handler \<open>signal_inv ?st\<close>
    by (auto simp: apply_handler_entry_def Let_def split: if_splits)
next
  case (set_stopped b)
  then show ?thesis using assms(2) by (simp add: set_stopped_def signal_inv_stopped)
qed

lemma signal_inv_default: "signal_inv signal_state_default"
  using sig_index_less
  by (auto simp: signal_inv_def signal_state_default_def is_pending_def is_blocked_def action_def)

lemma signal_reachable_inv: "signal_reachable st \<Longrightarrow> signal_inv st"
  by (induction rule: signal_reachable.induct) (auto intro: signal_inv_default signal_inv_step)

section \<open>Delivery\<close>

lemma find_first_bit:
  "find P [0..<n] = Some i \<longleftrightarrow> i < n \<and> P i \<and> (\<forall>j < i. \<not> P j)"
  by (auto simp: find_Some_iff)

lemma trailing_zeros_eq:
  fixes w :: "'a::len word"
  assumes "bit w i" and "\<forall>j < i. \<not> bit w j"
  shows "trailing_zeros w = i"
proof -
  have "i < LENGTH('a)" using assms(1) bit_imp_le_length by blast
  then have "find (bit w) [0..<LENGTH('a)] = Some i" using assms by (simp add: find_first_bit)
  then show ?thesis by (simp add: trailing_zeros_def)
qed

definition is_deliverable :: "signal_state \<Rightarrow> signal \<Rightarrow> bool" where
  "is_deliverable st s \<longleftrightarrow> is_pending st s \<and> \<not> is_blocked st s"

lemma bit_deliverable:
  "bit (pending st AND NOT (blocked st)) (sig_index s) \<longleftrightarrow> is_deliverable st s"
  using sig_index_64 [of s]
  by (auto simp: is_deliverable_def is_pending_def is_blocked_def bit_simps)

lemma deliverable_bit:
  assumes "signal_inv st" and "bit (pending st AND NOT (blocked st)) n"
  shows "\<exists>s. n = sig_index s \<and> is_deliverable st s"
proof -
  have "n < SIGNAL_COUNT" using assms by (auto simp: signal_inv_def bit_simps)
  then obtain s where "sig_index s = n" using sig_index_surj by blast
  then show ?thesis using assms(2) bit_deliverable by blast
qed

lemma number_sig_index: "signal_number s = int (sig_index s) + 1"
  using signal_number_bounds [of s] by (simp add: sig_index_def)

lemma take_next_None:
  assumes "signal_inv st" and "\<forall>s. \<not> is_deliverable st s"
  shows "take_next_deliverable st = (None, st)"
proof -
  have "pending st AND NOT (blocked st) = 0"
    using assms deliverable_bit by (metis bit_0_eq bit_eqI bot_apply bot_bool_def)
  then show ?thesis by (simp add: take_next_deliverable_def)
qed

lemma take_next_Some:
  assumes "signal_inv st" and "is_deliverable st s"
    and "\<forall>t. is_deliverable st t \<longrightarrow> signal_number s \<le> signal_number t"
  shows "take_next_deliverable st = (Some s, st\<lparr>pending := pending st AND NOT (signal_bit s)\<rparr>)"
proof -
  let ?d = "pending st AND NOT (blocked st)"
  have b: "bit ?d (sig_index s)" using assms(2) bit_deliverable by blast
  have "\<not> bit ?d j" if "j < sig_index s" for j
  proof
    assume "bit ?d j"
    then obtain t where "j = sig_index t" "is_deliverable st t" using deliverable_bit [OF assms(1)] by blast
    then show False using that assms(3) number_sig_index [of s] number_sig_index [of t] by auto
  qed
  then have "trailing_zeros ?d = sig_index s" using b trailing_zeros_eq by blast
  moreover have "signal_try_from (int (sig_index s) + 1) = Ok s"
    by (simp add: signal_try_from_iff number_sig_index)
  moreover have "?d \<noteq> 0" using b by auto
  ultimately show ?thesis by (simp add: take_next_deliverable_def)
qed

lemma take_next_cases:
  assumes inv: "signal_inv st"
  obtains (none) "take_next_deliverable st = (None, st)" "\<forall>s. \<not> is_deliverable st s"
  | (some) s where "is_deliverable st s" "\<forall>t. is_deliverable st t \<longrightarrow> signal_number s \<le> signal_number t"
      "take_next_deliverable st = (Some s, st\<lparr>pending := pending st AND NOT (signal_bit s)\<rparr>)"
proof (cases "\<exists>s. is_deliverable st s")
  case False
  then show ?thesis using take_next_None [OF inv] none by simp
next
  case True
  define s where "s = arg_min_on sig_index {s. is_deliverable st s}"
  have fin: "finite {s. is_deliverable st s}"
    by (rule finite_subset [of _ "set all_signals"]) auto
  have s: "is_deliverable st s" "\<forall>t. is_deliverable st t \<longrightarrow> sig_index s \<le> sig_index t"
    using arg_min_if_finite [OF fin, of sig_index] True unfolding s_def by (auto simp: not_less)
  then have "\<forall>t. is_deliverable st t \<longrightarrow> signal_number s \<le> signal_number t"
    by (simp add: number_sig_index)
  then show ?thesis using take_next_Some [OF inv s(1)] s(1) some by blast
qed

lemma set_signals_in: "s \<in> set (signals_in w) \<longleftrightarrow> bit w (sig_index s)"
proof -
  have body: "(if w AND push_bit i 1 \<noteq> 0
      then (case signal_try_from (int i + 1) of Ok s \<Rightarrow> Some s | _ \<Rightarrow> None) else None) = Some s \<longleftrightarrow>
      bit w i \<and> i = sig_index s" if i: "i < SIGNAL_COUNT" for i
  proof -
    obtain t where t: "sig_index t = i" using sig_index_surj [OF i] by blast
    then have "push_bit i 1 = signal_bit t" by (simp add: signal_bit_def sig_index_def)
    then have "w AND push_bit i 1 \<noteq> 0 \<longleftrightarrow> bit w i" using signal_mask_zero [of w t] t by simp
    moreover have "signal_try_from (int i + 1) = Ok t"
      using t number_sig_index [of t] by (simp add: signal_try_from_iff)
    ultimately show ?thesis using t sig_index_inj [of t s] by auto
  qed
  have "s \<in> set (signals_in w) \<longleftrightarrow> (\<exists>i < SIGNAL_COUNT. bit w i \<and> i = sig_index s)"
    unfolding signals_in_def set_map_filter using body by (simp add: Bex_def)
  then show ?thesis using sig_index_less by auto
qed

section \<open>Sending\<close>

text \<open>What the client of the access traits may rely on: delivering a signal changes neither who
  is asking nor which processes exist nor who may signal whom.\<close>

locale kill_interface =
  fixes cx :: "'s kill_access"
  assumes deliver_identity: "current_identity cx (deliver_to cx pid info st) = current_identity cx st"
    and deliver_processes: "all_processes cx (deliver_to cx pid info st) = all_processes cx st"
    and deliver_permission: "check_permission cx (deliver_to cx pid info st) = check_permission cx st"
begin

definition permitted :: "'s \<Rightarrow> process_handle \<Rightarrow> bool" where
  "permitted st p \<longleftrightarrow> check_permission cx st (process_id p) = None"

definition deliver_all :: "sig_info \<Rightarrow> process_handle list \<Rightarrow> 's \<Rightarrow> 's" where
  "deliver_all info ps st = fold (\<lambda>p. deliver_to cx (process_id p) info) ps st"

lemma permitted_deliver [simp]: "permitted (deliver_to cx pid info st) = permitted st"
  by (simp add: permitted_def fun_eq_iff deliver_permission)

lemma distribute_fold_result:
  "distribute_fold cx info ps (res, st) =
     (if list_ex (permitted st) ps then Ok 0
      else if ps = [] \<or> is_ok res then res else Err EPERM,
      deliver_all info (filter (permitted st) ps) st)"
proof (induction ps arbitrary: res st)
  case Nil
  then show ?case by (simp add: deliver_all_def)
next
  case (Cons p ps)
  show ?case
  proof (cases "check_permission cx st (process_id p)")
    case None
    then show ?thesis using Cons [of "Ok 0" "deliver_to cx (process_id p) info st"]
      by (auto simp: deliver_all_def permitted_def deliver_permission)
  next
    case (Some e)
    then show ?thesis using Cons [of "if is_ok res then res else Err EPERM" st]
      by (auto simp: permitted_def split: if_splits)
  qed
qed

lemma distribute_signal_result:
  "distribute_signal cx ps info st =
     (if list_ex (permitted st) ps then Ok 0 else if ps = [] then Err ESRCH else Err EPERM,
      deliver_all info (filter (permitted st) ps) st)"
  by (simp add: distribute_signal_def distribute_fold_result)

lemma deliver_all_processes [simp]: "all_processes cx (deliver_all info ps st) = all_processes cx st"
  unfolding deliver_all_def by (induction ps arbitrary: st) (simp_all add: deliver_processes)

lemma sys_kill_processes: "all_processes cx (snd (sys_kill cx target s st)) = all_processes cx st"
  by (cases target)
    (auto simp: sys_kill_def Let_def distribute_signal_result deliver_processes split: option.splits)

end

section \<open>Properties\<close>

text \<open>C6: Over every sequence of operations on a process's signal state: a stop signal and
  \<open>Continue\<close> are never pending together, \<open>Kill\<close> and \<open>Stop\<close> are never blocked and their disposition
  is always to terminate and to stop, and a handler that can be entered always has a restorer.\<close>

theorem signal_state_invariant:
  assumes "signal_reachable st"
  shows "(is_pending st SigContinue \<longrightarrow> (\<forall>s \<in> stop_family. \<not> is_pending st s)) \<and>
    \<not> is_blocked st SigKill \<and> \<not> is_blocked st SigStop \<and>
    disposition SigKill st = DispTerminate \<and> disposition SigStop st = DispStop \<and>
    (disposition s st = DispHandler a \<longrightarrow> sa_restorer a \<noteq> 0)"
proof -
  have inv: "signal_inv st" using signal_reachable_inv assms .
  then have "disposition SigStop st = DispStop"
    by (simp add: signal_inv_def disposition_def Let_def sig_action_default_def handler_is_ignore_def
        handler_is_default_def default_action_def)
  moreover have "sa_restorer a \<noteq> 0" if "disposition s st = DispHandler a"
    using that inv
    by (auto simp: disposition_def Let_def signal_inv_def is_custom_def split: if_splits default_act.splits)
  ultimately show ?thesis using inv
    by (auto simp: signal_inv_def disposition_def discards_def)
qed

theorem signal_state_invariant_witness:
  "disposition SigStop (set_pending SigTerminalStop (set_pending SigContinue signal_state_default)) = DispStop \<and>
   \<not> is_pending (set_pending SigTerminalStop (set_pending SigContinue signal_state_default)) SigContinue"
proof -
  let ?st = "set_pending SigTerminalStop (set_pending SigContinue signal_state_default)"
  have "signal_reachable ?st"
    by (intro signal_reachable.step [OF _ signal_step.pend] signal_reachable.start)
  from signal_state_invariant [OF this] have "disposition SigStop ?st = DispStop"
    "is_pending ?st SigContinue \<longrightarrow> \<not> is_pending ?st SigTerminalStop"
    by (simp_all add: stop_family_def)
  then show ?thesis
    using is_pending_set_pending [of SigTerminalStop "set_pending SigContinue signal_state_default" SigTerminalStop]
    by simp
qed

text \<open>C7: Taking the next signal returns one exactly when some signal is pending and not blocked;
  it is the one with the lowest number, and only its pending bit is cleared.\<close>

theorem take_next_lowest:
  assumes "signal_reachable st"
  shows "case take_next_deliverable st of
      (None, st') \<Rightarrow> st' = st \<and> (\<forall>s. \<not> is_deliverable st s)
    | (Some s, st') \<Rightarrow> is_deliverable st s \<and>
        (\<forall>t. is_deliverable st t \<longrightarrow> signal_number s \<le> signal_number t) \<and>
        (\<forall>t. is_pending st' t \<longleftrightarrow> is_pending st t \<and> t \<noteq> s) \<and>
        st' = st\<lparr>pending := pending st'\<rparr>"
  by (rule take_next_cases [OF signal_reachable_inv [OF assms]])
    (use sig_index_64 in \<open>auto simp: is_pending_def bit_simps bit_signal_bit sig_index_inj\<close>)

theorem take_next_lowest_witness:
  "fst (take_next_deliverable (set_pending SigUsr1 (set_pending SigHangup signal_state_default))) =
     Some SigHangup"
proof -
  let ?st = "set_pending SigUsr1 (set_pending SigHangup signal_state_default)"
  have r: "signal_reachable ?st"
    by (intro signal_reachable.step [OF _ signal_step.pend] signal_reachable.start)
  have "is_pending ?st t \<longleftrightarrow> t = SigUsr1 \<or> t = SigHangup" for t
    unfolding is_pending_set_pending
    by (auto simp: discards_def stop_family_def is_pending_def signal_state_default_def)
  then have d: "is_deliverable ?st t \<longleftrightarrow> t = SigUsr1 \<or> t = SigHangup" for t
    by (simp add: is_deliverable_def is_blocked_def signal_state_default_def)
  obtain res st' where take: "take_next_deliverable ?st = (res, st')" by fastforce
  have spec: "case res of None \<Rightarrow> \<forall>s. \<not> is_deliverable ?st s
      | Some s \<Rightarrow> is_deliverable ?st s \<and> (\<forall>t. is_deliverable ?st t \<longrightarrow> signal_number s \<le> signal_number t)"
    using take_next_lowest [OF r] unfolding take by (cases res) simp_all
  have "res = Some SigHangup"
  proof (cases res)
    case None
    then show ?thesis using spec unfolding d by auto
  next
    case (Some s)
    then show ?thesis using spec unfolding d by auto
  qed
  then show ?thesis using take by simp
qed

text \<open>C8: After \<open>Kill\<close> is delivered to a process, whatever its state, the process is not stopped,
  its stopped tasks are resumed if it was, and a fatal signal is deliverable; a fatal or an
  interrupting deliverable signal is reported exactly when one exists.\<close>

theorem kill_is_fatal:
  assumes "signal_reachable st"
  shows "(case deliver SigKill st of (eff, st') \<Rightarrow>
      \<not> stopped st' \<and> (resume_tasks eff \<longleftrightarrow> stopped st) \<and>
      has_fatal_deliverable st' \<and> has_interrupting_deliverable st') \<and>
    (has_fatal_deliverable st \<longleftrightarrow> (\<exists>s. is_deliverable st s \<and> disposition s st = DispTerminate)) \<and>
    (has_interrupting_deliverable st \<longleftrightarrow>
      (\<exists>s. is_deliverable st s \<and> (disposition s st = DispTerminate \<or> (\<exists>a. disposition s st = DispHandler a))))"
proof -
  have inv: "signal_inv st" using signal_reachable_inv assms .
  have fatal: "has_fatal_deliverable st \<longleftrightarrow> (\<exists>s. is_deliverable st s \<and> disposition s st = DispTerminate)" for st
    by (auto simp: has_fatal_deliverable_def list_ex_iff set_signals_in bit_deliverable)
  have is_int: "is_interrupting d \<longleftrightarrow> d = DispTerminate \<or> (\<exists>a. d = DispHandler a)" for d
    by (cases d) auto
  have inter: "has_interrupting_deliverable st \<longleftrightarrow>
      (\<exists>s. is_deliverable st s \<and> (disposition s st = DispTerminate \<or> (\<exists>a. disposition s st = DispHandler a)))" for st
    by (auto simp: has_interrupting_deliverable_def list_ex_iff set_signals_in bit_deliverable is_int)
  obtain eff st' where d: "deliver SigKill st = (eff, st')" by (cases "deliver SigKill st")
  have "is_deliverable st' SigKill" "disposition SigKill st' = DispTerminate"
    using d inv is_pending_set_pending [of SigKill st SigKill]
    by (auto simp: deliver_def Let_def is_deliverable_def is_pending_def is_blocked_def signal_inv_def
        disposition_def split: if_splits)
  moreover have "\<not> stopped st' \<and> (resume_tasks eff \<longleftrightarrow> stopped st)"
    using d by (auto simp: deliver_def Let_def split: if_splits)
  ultimately show ?thesis using d fatal inter by auto
qed

theorem kill_is_fatal_witness:
  "has_fatal_deliverable (snd (deliver SigKill (set_stopped True signal_state_default)))"
  using kill_is_fatal [OF signal_reachable.step [OF signal_reachable.start signal_step.set_stopped [of _ True]]]
  by (simp add: case_prod_beta)

end
