(* ===== verification/User_Ptr.thy ===== *)
theory User_Ptr
  imports Abi
begin

text \<open>
  Userspace pointers (\<open>kernel/syscall/src/ptr.rs\<close>) and the user memory they point into.
  \<open>VirtAddr::try_new\<close> belongs to the \<open>x86_64\<close> crate: the predicate \<open>canonical\<close> says which
  addresses it accepts, and \<open>canonical_ok\<close> what its documentation promises.

  Shown here: a pointer and a size that pass the checks of a system call cover lower-half
  addresses only, whichever of the two pointer types is used.
\<close>

section \<open>Pointers\<close>

datatype not_userspace = NotUserspace nat

definition errno_of_not_userspace :: "not_userspace \<Rightarrow> errno" where
  "errno_of_not_userspace e = EINVAL"

definition lower_half :: nat where
  "lower_half = 2 ^ 47"

definition upper_half :: nat where
  "upper_half = 0xFFFF800000000000"

definition canonical_ok :: "(nat \<Rightarrow> bool) \<Rightarrow> bool" where
  "canonical_ok canonical \<longleftrightarrow>
     (\<forall>a < U64_LIMIT. canonical a \<longleftrightarrow> a < lower_half \<or> upper_half \<le> a)"

definition is_upper_half :: "(nat \<Rightarrow> bool) \<Rightarrow> nat \<Rightarrow> (not_userspace, bool) outcome" where
  "is_upper_half canonical addr =
     (if canonical addr then Ok (0xFFFF800000000000 \<le> addr) else Err (NotUserspace addr))"

text \<open>A pointer is its address; the two types differ in the check of the address.\<close>

datatype user_ptr = UserspacePtr (ptr_addr: nat)
datatype user_mut_ptr = UserspaceMutPtr (mut_addr: nat)

definition ptr_try_from_usize :: "(nat \<Rightarrow> bool) \<Rightarrow> nat \<Rightarrow> (not_userspace, user_ptr) outcome" where
  "ptr_try_from_usize canonical p =
     obind (is_upper_half canonical p) (\<lambda>upper.
       if upper then Err (NotUserspace p) else Ok (UserspacePtr p))"

definition mut_try_from_usize :: "nat \<Rightarrow> (not_userspace, user_mut_ptr) outcome" where
  "mut_try_from_usize p = (if bit p 63 then Err (NotUserspace p) else Ok (UserspaceMutPtr p))"

definition validate_addr_range :: "(nat \<Rightarrow> bool) \<Rightarrow> nat \<Rightarrow> nat \<Rightarrow> (not_userspace, unit) outcome" where
  "validate_addr_range canonical start n =
     obind (ok_or (checked_add start n) (NotUserspace start)) (\<lambda>stop.
     obind (is_upper_half canonical stop) (\<lambda>upper.
       if upper then Err (NotUserspace stop) else Ok ()))"

definition ptr_validate_range :: "(nat \<Rightarrow> bool) \<Rightarrow> user_ptr \<Rightarrow> nat \<Rightarrow> (not_userspace, unit) outcome" where
  "ptr_validate_range canonical p n = validate_addr_range canonical (ptr_addr p) n"

definition mut_validate_range ::
  "(nat \<Rightarrow> bool) \<Rightarrow> user_mut_ptr \<Rightarrow> nat \<Rightarrow> (not_userspace, unit) outcome" where
  "mut_validate_range canonical p n = validate_addr_range canonical (mut_addr p) n"

section \<open>User memory\<close>

type_synonym user_mem = "nat \<Rightarrow> u8"

definition read_bytes :: "nat \<Rightarrow> nat \<Rightarrow> user_mem \<Rightarrow> bytes" where
  "read_bytes a n m = map m [a..<a + n]"

definition write_bytes :: "nat \<Rightarrow> bytes \<Rightarrow> user_mem \<Rightarrow> user_mem" where
  "write_bytes a bs m = (\<lambda>x. if a \<le> x \<and> x < a + length bs then bs ! (x - a) else m x)"

lemma length_read_bytes [simp]: "length (read_bytes a n m) = n"
  by (simp add: read_bytes_def)

lemma read_write_same: "read_bytes a (length bs) (write_bytes a bs m) = bs"
  by (rule nth_equalityI) (auto simp: read_bytes_def write_bytes_def)

lemma read_write_disjoint:
  "b + n \<le> a \<or> a + length bs \<le> b \<Longrightarrow> read_bytes b n (write_bytes a bs m) = read_bytes b n m"
  by (auto simp: read_bytes_def write_bytes_def)

lemma write_bytes_outside: "x < a \<or> a + length bs \<le> x \<Longrightarrow> write_bytes a bs m x = m x"
  by (auto simp: write_bytes_def)

lemma read_bytes_cong: "(\<And>x. a \<le> x \<Longrightarrow> x < a + n \<Longrightarrow> m x = m' x) \<Longrightarrow> read_bytes a n m = read_bytes a n m'"
  by (simp add: read_bytes_def)

lemma slice_read_bytes:
  "b \<le> n \<Longrightarrow> slice c b (read_bytes a n m) = read_bytes (a + c) (b - c) m"
  by (rule nth_equalityI) (auto simp: read_bytes_def nth_slice add.assoc)

section \<open>Ranges\<close>

lemma is_upper_half_ok:
  assumes "canonical_ok canonical" and "a < U64_LIMIT"
  shows "is_upper_half canonical a =
    (if a < lower_half then Ok False else if upper_half \<le> a then Ok True else Err (NotUserspace a))"
  using assms by (auto simp: canonical_ok_def is_upper_half_def upper_half_def lower_half_def)

lemma validate_addr_range_iff:
  assumes "canonical_ok canonical"
  shows "validate_addr_range canonical a n = Ok () \<longleftrightarrow> a + n < lower_half"
proof (cases "a + n < U64_LIMIT")
  case True
  then show ?thesis using is_upper_half_ok [OF assms True]
    by (auto simp: validate_addr_range_def ok_or_def checked_add_def upper_half_def lower_half_def)
next
  case False
  then show ?thesis by (auto simp: validate_addr_range_def ok_or_def checked_add_def lower_half_def U64_LIMIT_def)
qed

lemma low_bit_63: "a < lower_half \<Longrightarrow> \<not> bit a 63"
  by (simp add: bit_iff_odd lower_half_def)

text \<open>C12: The checks of either pointer type let a range of \<open>n\<close> bytes at \<open>a\<close> through exactly when all of
  \<open>a, .., a + n\<close> are in the lower half, where user memory is: its bytes and the address just past
  them. So no range that leaves the lower half passes, the weaker address check of the mutable
  pointer is made up for by the range check, and a range that ends with the last byte of the lower
  half is refused by both.\<close>

theorem validated_range_is_userspace:
  assumes "canonical_ok canonical" and "a < U64_LIMIT"
  shows "((\<exists>p. ptr_try_from_usize canonical a = Ok p \<and> ptr_validate_range canonical p n = Ok ())
          \<longleftrightarrow> {a..a + n} \<subseteq> {..<lower_half}) \<and>
         ((\<exists>p. mut_try_from_usize a = Ok p \<and> mut_validate_range canonical p n = Ok ())
          \<longleftrightarrow> {a..a + n} \<subseteq> {..<lower_half})"
proof -
  have "{a..a + n} \<subseteq> {..<lower_half} \<longleftrightarrow> a + n < lower_half"
    by (auto dest: subsetD [of _ _ "a + n"])
  moreover have "(\<exists>p. ptr_try_from_usize canonical a = Ok p \<and> ptr_validate_range canonical p n = Ok ())
      \<longleftrightarrow> a + n < lower_half"
    using is_upper_half_ok [OF assms] validate_addr_range_iff [OF assms(1)]
    by (auto simp: ptr_try_from_usize_def ptr_validate_range_def)
  moreover have "(\<exists>p. mut_try_from_usize a = Ok p \<and> mut_validate_range canonical p n = Ok ())
      \<longleftrightarrow> a + n < lower_half"
    using validate_addr_range_iff [OF assms(1)] low_bit_63 [of a]
    by (auto simp: mut_try_from_usize_def mut_validate_range_def)
  ultimately show ?thesis by simp
qed

theorem validated_range_is_userspace_witness:
  "\<exists>p. mut_try_from_usize 4096 = Ok p \<and>
     mut_validate_range (\<lambda>a. a < lower_half \<or> upper_half \<le> a) p 100 = Ok ()"
proof -
  have "{4096..4096 + 100} \<subseteq> {..<lower_half}" by (auto simp: lower_half_def)
  then show ?thesis
    using validated_range_is_userspace [of "\<lambda>a. a < lower_half \<or> upper_half \<le> a" 4096 100]
    by (simp add: canonical_ok_def U64_LIMIT_def)
qed

end
