(* ===== verification/Signal_Delivery.thy ===== *)
theory Signal_Delivery
  imports Signals User_Ptr
begin

text \<open>
  The kernel side of signals: what generating a signal does to a process
  (\<open>kernel/boot/src/syscall/access/signal.rs\<close>) and the delivery to the running task at a timer
  tick or fault, the signal frame on the user stack and \<open>sigreturn\<close>
  (\<open>kernel/boot/src/arch/signal.rs\<close>).

  Shown here: what \<open>kill\<close> does to every process; delivery at a tick ends and acts on the
  lowest-numbered signal that is not ignored; a handler entered by delivery sees an aligned stack,
  leaves the red zone and everything outside the frame untouched, and \<open>sigreturn\<close> restores the
  interrupted context, the blocked set and the FPU state.
\<close>

section \<open>Processes\<close>

datatype exit_outcome = Exited nat | Signaled signal

text \<open>Unpark tickets and wakers are opaque here; releasing them is recorded as an event.\<close>

datatype ('t, 'w) wake_event = Unparked 't | Woke 'w

record ('t, 'w) process =
  proc_signals :: signal_state
  stop_unpark :: "'t list"
  interruptible_wakers :: "(nat \<times> 'w) list"
  proc_exit :: "exit_outcome option"

record ('t, 'w) kernel =
  current_pid :: process_id
  processes :: "(process_id \<times> ('t, 'w) process) list"
  events :: "('t, 'w) wake_event list"

definition store_stop_unpark :: "'t \<Rightarrow> ('t, 'w) process \<Rightarrow> ('t, 'w) process" where
  "store_stop_unpark ticket p = p\<lparr>stop_unpark := stop_unpark p @ [ticket]\<rparr>"

definition resume_stopped_tasks ::
  "('t, 'w) process \<Rightarrow> ('t, 'w) wake_event list \<times> ('t, 'w) process" where
  "resume_stopped_tasks p = (map Unparked (stop_unpark p), p\<lparr>stop_unpark := []\<rparr>)"

definition register_interruptible_waker :: "nat \<Rightarrow> 'w \<Rightarrow> ('t, 'w) process \<Rightarrow> ('t, 'w) process" where
  "register_interruptible_waker tid w p =
     p\<lparr>interruptible_wakers := interruptible_wakers p @ [(tid, w)]\<rparr>"

definition clear_interruptible_waker :: "nat \<Rightarrow> ('t, 'w) process \<Rightarrow> ('t, 'w) process" where
  "clear_interruptible_waker tid p =
     p\<lparr>interruptible_wakers := filter (\<lambda>e. fst e \<noteq> tid) (interruptible_wakers p)\<rparr>"

definition wake_interruptible ::
  "('t, 'w) process \<Rightarrow> ('t, 'w) wake_event list \<times> ('t, 'w) process" where
  "wake_interruptible p =
     (map (Woke \<circ> snd) (interruptible_wakers p), p\<lparr>interruptible_wakers := []\<rparr>)"

definition set_exit_outcome :: "exit_outcome \<Rightarrow> ('t, 'w) process \<Rightarrow> ('t, 'w) process" where
  "set_exit_outcome o' p = (case proc_exit p of None \<Rightarrow> p\<lparr>proc_exit := Some o'\<rparr> | Some _ \<Rightarrow> p)"

text \<open>\<open>SignalAccess::deliver\<close> on one process: the events it causes and the new process.\<close>

definition signal_process ::
  "signal \<Rightarrow> ('t, 'w) process \<Rightarrow> ('t, 'w) wake_event list \<times> ('t, 'w) process" where
  "signal_process s p =
     (let (eff, st) = deliver s (proc_signals p);
          p1 = p\<lparr>proc_signals := st\<rparr>;
          p2 = (case disposition s st of
                  DispTerminate \<Rightarrow> set_exit_outcome (Signaled s) p1
                | _ \<Rightarrow> p1);
          (ev1, p3) = (if resume_tasks eff then resume_stopped_tasks p2 else ([], p2));
          (ev2, p4) = wake_interruptible p3
      in (ev1 @ ev2, p4))"

definition kernel_deliver ::
  "process_id \<Rightarrow> sig_info \<Rightarrow> ('t, 'w) kernel \<Rightarrow> ('t, 'w) kernel" where
  "kernel_deliver pid info k =
     (case map_of (processes k) pid of
        None \<Rightarrow> k
      | Some p \<Rightarrow>
          let (ev, p') = signal_process (si_signo info) p
          in k\<lparr>processes := map (\<lambda>(q, r). if q = pid then (q, p') else (q, r)) (processes k),
               events := events k @ ev\<rparr>)"

definition kernel_identity :: "('t, 'w) kernel \<Rightarrow> identity" where
  "kernel_identity k = \<lparr>id_process = current_pid k, id_user = 0, id_group = current_pid k\<rparr>"

definition kernel_processes :: "('t, 'w) kernel \<Rightarrow> process_handle list" where
  "kernel_processes k =
     map (\<lambda>(pid, p). \<lparr>process_id = pid, process_group_id = pid\<rparr>) (processes k)"

definition kernel_access :: "('t, 'w) kernel kill_access" where
  "kernel_access = \<lparr>current_identity = kernel_identity, all_processes = kernel_processes,
     check_permission = (\<lambda>k pid. None), deliver_to = kernel_deliver\<rparr>"

section \<open>The running task\<close>

record syscall_registers =
  r11 :: u64
  r10 :: u64
  r9 :: u64
  r8 :: u64
  rdi :: u64
  rsi :: u64
  rdx :: u64
  rcx :: u64
  rax :: u64

record interrupt_frame =
  instruction_pointer :: u64
  code_segment :: u64
  cpu_flags :: u64
  stack_pointer :: u64
  stack_segment :: u64

text \<open>What delivery touches besides the signal state: registers and interrupt frame, the user
  memory, the FPU registers with the flag \<open>CR0.TS\<close> and the task's save area, the task's
  termination flag.\<close>

record task_cpu =
  regs :: syscall_registers
  iframe :: interrupt_frame
  umem :: user_mem
  fpu :: bytes
  task_switched :: bool
  fx_area :: "bytes option"
  should_terminate :: bool

record sig_frame =
  sf_fx :: bytes
  sf_regs :: syscall_registers
  sf_rip :: u64
  sf_rflags :: u64
  sf_rsp :: u64
  sf_old_blocked :: sig_set
  sf_signo :: u64
  sf_fx_valid :: bool
  sf_magic :: u64

definition SIGFRAME_MAGIC :: u64 where
  "SIGFRAME_MAGIC = 0x8D2FFAB819E3EECC"

definition SIGFRAME_SIZE :: nat where
  "SIGFRAME_SIZE = 640"

text \<open>The layout of the two \<open>repr(C)\<close> structs; the seven bytes after \<open>fx_valid\<close> are padding.\<close>

definition regs_to_bytes :: "syscall_registers \<Rightarrow> bytes" where
  "regs_to_bytes r = word_to_le 8 (r11 r) @ word_to_le 8 (r10 r) @ word_to_le 8 (r9 r) @
     word_to_le 8 (r8 r) @ word_to_le 8 (rdi r) @ word_to_le 8 (rsi r) @ word_to_le 8 (rdx r) @
     word_to_le 8 (rcx r) @ word_to_le 8 (rax r)"

definition field64 :: "bytes \<Rightarrow> nat \<Rightarrow> u64" where
  "field64 b off = word_from_le (slice off (off + 8) b)"

definition regs_from_bytes :: "bytes \<Rightarrow> syscall_registers" where
  "regs_from_bytes b =
     \<lparr>r11 = field64 b 0, r10 = field64 b 8, r9 = field64 b 16, r8 = field64 b 24,
      rdi = field64 b 32, rsi = field64 b 40, rdx = field64 b 48, rcx = field64 b 56,
      rax = field64 b 64\<rparr>"

definition sig_frame_to_bytes :: "sig_frame \<Rightarrow> bytes" where
  "sig_frame_to_bytes f =
     sf_fx f @ regs_to_bytes (sf_regs f) @ word_to_le 8 (sf_rip f) @ word_to_le 8 (sf_rflags f) @
     word_to_le 8 (sf_rsp f) @ word_to_le 8 (sf_old_blocked f) @ word_to_le 8 (sf_signo f) @
     [if sf_fx_valid f then 1 else 0] @ replicate 7 0 @ word_to_le 8 (sf_magic f)"

definition sig_frame_from_bytes :: "bytes \<Rightarrow> sig_frame" where
  "sig_frame_from_bytes b =
     \<lparr>sf_fx = slice 0 512 b, sf_regs = regs_from_bytes (slice 512 584 b), sf_rip = field64 b 584,
      sf_rflags = field64 b 592, sf_rsp = field64 b 600, sf_old_blocked = field64 b 608,
      sf_signo = field64 b 616, sf_fx_valid = (b ! 624 \<noteq> 0), sf_magic = field64 b 632\<rparr>"

definition capture_fpu :: "bytes \<Rightarrow> task_cpu \<Rightarrow> bytes \<times> bool" where
  "capture_fpu fx c =
     (if \<not> task_switched c then (fpu c, True)
      else case fx_area c of Some area \<Rightarrow> (area, True) | None \<Rightarrow> (fx, False))"

text \<open>An error is the signal the process is terminated with.\<close>

definition write_sigframe ::
  "(nat \<Rightarrow> bool) \<Rightarrow> signal \<Rightarrow> sig_set \<Rightarrow> sig_action \<Rightarrow> task_cpu \<Rightarrow> (signal, u64 \<times> user_mem) outcome"
  where
  "write_sigframe canonical s old_blocked act c =
     (let user_rsp = stack_pointer (iframe c);
          base = (user_rsp - 128 - of_nat SIGFRAME_SIZE) AND NOT 15
      in obind (unwrap (checked_sub (unat base) 8)) (\<lambda>start.
         obind (map_err (\<lambda>_. SigSegfault) (mut_try_from_usize start)) (\<lambda>uptr.
         obind (map_err (\<lambda>_. SigSegfault) (mut_validate_range canonical uptr (SIGFRAME_SIZE + 8))) (\<lambda>_.
           let (fx, valid) = capture_fpu (replicate 512 0) c;
               sf = \<lparr>sf_fx = fx, sf_regs = regs c, sf_rip = instruction_pointer (iframe c),
                     sf_rflags = cpu_flags (iframe c), sf_rsp = user_rsp,
                     sf_old_blocked = old_blocked, sf_signo = of_int (signal_number s),
                     sf_fx_valid = valid, sf_magic = SIGFRAME_MAGIC\<rparr>
           in Ok (base, write_bytes (start + 8) (sig_frame_to_bytes sf)
                          (write_bytes start (word_to_le 8 (sa_restorer act)) (umem c)))))))"

text \<open>Entering a handler, common to the tick and the fault path. \<open>VirtAddr::new_truncate\<close> is the
  parameter \<open>trunc\<close>.\<close>

definition enter_handler ::
  "(nat \<Rightarrow> bool) \<Rightarrow> (u64 \<Rightarrow> u64) \<Rightarrow> signal \<Rightarrow> sig_action \<Rightarrow> signal_state \<Rightarrow> task_cpu
   \<Rightarrow> (signal, signal_state \<times> task_cpu) outcome" where
  "enter_handler canonical trunc s act st c =
     (let (old_blocked, st') = apply_handler_entry s act st
      in obind (write_sigframe canonical s old_blocked act c) (\<lambda>(base, m).
           Ok (st', c\<lparr>umem := m,
             regs := (regs c)\<lparr>rdi := of_int (signal_number s)\<rparr>,
             iframe := (iframe c)\<lparr>instruction_pointer := trunc (sa_handler act),
                                  stack_pointer := trunc (base - 8)\<rparr>\<rparr>)))"

datatype pending_action = NoAction | StopAction | TerminateAction | HandlerAction signal sig_action

lemma take_next_pending:
  assumes "take_next_deliverable st = (Some s, st')"
  shows "card {n. bit (pending st') n} < card {n. bit (pending st) n}"
proof -
  let ?d = "pending st AND NOT (blocked st)"
  have d: "?d \<noteq> 0" "signal_try_from (int (trailing_zeros ?d) + 1) = Ok s"
    "st' = st\<lparr>pending := pending st AND NOT (signal_bit s)\<rparr>"
    using assms by (auto simp: take_next_deliverable_def Let_def split: if_splits outcome.splits)
  have tz: "trailing_zeros ?d = sig_index s"
    using d(2) by (simp add: signal_try_from_iff number_sig_index)
  have "find (bit ?d) [0..<64] \<noteq> None"
    using d(1) bit_imp_le_length [of ?d] by (auto simp: find_None_iff bit_eq_iff)
  then obtain i where i: "find (bit ?d) [0..<64] = Some i" by blast
  have "bit ?d i" using i by (auto simp: find_Some_iff)
  moreover have "trailing_zeros ?d = i" using i by (simp add: trailing_zeros_def)
  ultimately have "bit (pending st) (sig_index s)" using tz by (simp add: bit_simps)
  moreover have "finite {n. bit (pending st) n}"
    by (rule finite_subset [of _ "{..<64}"]) (use bit_imp_le_length [of "pending st"] in auto)
  ultimately show ?thesis
    using d(3) by (intro psubset_card_mono) (auto simp: bit_simps bit_signal_bit)
qed

function next_action :: "signal_state \<Rightarrow> pending_action \<times> signal_state" where
  "next_action st =
     (if stopped st then (StopAction, st)
      else case take_next_deliverable st of
             (None, st') \<Rightarrow> (NoAction, st')
           | (Some s, st') \<Rightarrow>
               (case disposition s st' of
                  DispIgnore \<Rightarrow> next_action st'
                | DispStop \<Rightarrow> (StopAction, set_stopped True st')
                | DispTerminate \<Rightarrow> (TerminateAction, st')
                | DispHandler act \<Rightarrow> (HandlerAction s act, st')))"
  by pat_completeness auto
termination
  by (relation "measure (\<lambda>st. card {n. bit (pending st) n})") (auto dest: take_next_pending [OF sym])

declare next_action.simps [simp del]

datatype delivery = NoSignal | ParkRequested | TerminationRequested | HandlerEntered

text \<open>\<open>free\<close> says whether the lock of the signal state was obtained.\<close>

definition deliver_pending ::
  "(nat \<Rightarrow> bool) \<Rightarrow> (u64 \<Rightarrow> u64) \<Rightarrow> bool \<Rightarrow> signal_state \<Rightarrow> task_cpu
   \<Rightarrow> (signal, delivery \<times> signal_state \<times> task_cpu) outcome" where
  "deliver_pending canonical trunc free st c =
     (if \<not> free then Ok (NoSignal, st, c)
      else case next_action st of
             (NoAction, st') \<Rightarrow> Ok (NoSignal, st', c)
           | (StopAction, st') \<Rightarrow> Ok (ParkRequested, st', c)
           | (TerminateAction, st') \<Rightarrow>
               Ok (TerminationRequested, st', c\<lparr>fx_area := None, should_terminate := True\<rparr>)
           | (HandlerAction s act, st') \<Rightarrow>
               obind (enter_handler canonical trunc s act st' c) (\<lambda>(st'', c').
                 Ok (HandlerEntered, st'', c')))"

definition deliver_fault ::
  "(nat \<Rightarrow> bool) \<Rightarrow> (u64 \<Rightarrow> u64) \<Rightarrow> signal \<Rightarrow> signal_state \<Rightarrow> task_cpu
   \<Rightarrow> (signal, signal_state \<times> task_cpu) outcome" where
  "deliver_fault canonical trunc s st c =
     (case disposition s st of
        DispHandler act \<Rightarrow>
          if signal_bit s AND blocked st = 0 then enter_handler canonical trunc s act st c
          else Err s
      | _ \<Rightarrow> Err s)"

text \<open>\<open>readable\<close> is \<open>AddressSpace::is_user_readable\<close>; the selectors come from the CPU's tables.\<close>

definition sys_sigreturn ::
  "(nat \<Rightarrow> bool) \<Rightarrow> (u64 \<Rightarrow> u64) \<Rightarrow> (nat \<Rightarrow> nat \<Rightarrow> bool) \<Rightarrow> u64 \<Rightarrow> u64 \<Rightarrow> signal_state \<Rightarrow> task_cpu
   \<Rightarrow> (signal, signal_state \<times> task_cpu) outcome" where
  "sys_sigreturn canonical trunc readable user_code user_data st c =
     (let addr = unat (stack_pointer (iframe c))
      in obind (map_err (\<lambda>_. SigSegfault) (mut_try_from_usize addr)) (\<lambda>ptr.
         obind (map_err (\<lambda>_. SigSegfault) (mut_validate_range canonical ptr SIGFRAME_SIZE)) (\<lambda>_.
         if \<not> readable addr SIGFRAME_SIZE then Err SigSegfault
         else let saved = sig_frame_from_bytes (read_bytes addr SIGFRAME_SIZE (umem c))
              in if sf_magic saved \<noteq> SIGFRAME_MAGIC then Err SigSegfault
                 else let c1 = c\<lparr>regs := sf_regs saved,
                        iframe := \<lparr>instruction_pointer = trunc (sf_rip saved),
                                   code_segment = user_code,
                                   cpu_flags = (sf_rflags saved AND 0xDD5) OR 0x200,
                                   stack_pointer = trunc (sf_rsp saved),
                                   stack_segment = user_data\<rparr>\<rparr>;
                      st1 = set_blocked_raw (sf_old_blocked saved) st;
                      c2 = (if sf_fx_valid saved
                            then c1\<lparr>task_switched := False, fpu := sf_fx saved\<rparr> else c1)
                  in Ok (st1, c2))))"

section \<open>What \<open>kill\<close> does\<close>

interpretation kernel_kill: kill_interface kernel_access
  by unfold_locales
    (auto simp: kernel_access_def kernel_identity_def kernel_processes_def kernel_deliver_def
      split: option.splits prod.splits)

lemma map_of_update:
  "map_of (map (\<lambda>(q, r). if q = pid then (q, p) else (q, r)) xs) q =
     (if q = pid then map_option (\<lambda>_. p) (map_of xs q) else map_of xs q)"
  by (induction xs) auto

lemma kernel_deliver_lookup:
  "map_of (processes (kernel_deliver pid info k)) q =
     (if q = pid then map_option (snd \<circ> signal_process (si_signo info)) (map_of (processes k) q)
      else map_of (processes k) q)"
  by (auto simp: kernel_deliver_def map_of_update split: option.splits prod.splits)

lemma deliver_all_lookup:
  assumes "distinct (map process_id ps)"
  shows "map_of (processes (kernel_kill.deliver_all info ps k)) q =
     (if q \<in> process_id ` set ps
      then map_option (snd \<circ> signal_process (si_signo info)) (map_of (processes k) q)
      else map_of (processes k) q)"
  using assms
proof (induction ps arbitrary: k)
  case Nil
  then show ?case by (simp add: kernel_kill.deliver_all_def)
next
  case (Cons p ps)
  have "kernel_kill.deliver_all info (p # ps) k =
      kernel_kill.deliver_all info ps (kernel_deliver (process_id p) info k)"
    unfolding kernel_kill.deliver_all_def by (simp add: kernel_access_def)
  then show ?case using Cons by (auto simp: kernel_deliver_lookup comp_def)
qed

lemma kernel_permitted [simp]: "kernel_kill.permitted k p"
  unfolding kernel_kill.permitted_def by (simp add: kernel_access_def)

definition kill_targets :: "signal_target \<Rightarrow> ('t, 'w) kernel \<Rightarrow> process_id set" where
  "kill_targets target k =
     (case target of
        BroadcastAll \<Rightarrow> fst ` set (processes k)
      | SpecificProcess pid \<Rightarrow> {pid} \<inter> fst ` set (processes k)
      | ProcessGroup g \<Rightarrow> {if g = 0 then current_pid k else g} \<inter> fst ` set (processes k))"

lemma kernel_process_ids: "map process_id (kernel_processes k) = map fst (processes k)"
  by (auto simp: kernel_processes_def)

lemma kernel_group: "p \<in> set (kernel_processes k) \<Longrightarrow> process_group_id p = process_id p"
  by (auto simp: kernel_processes_def)

lemma signal_info_signo: "si_signo \<lparr>si_signo = s, si_code = c, si_errno = e, si_info = i\<rparr> = s"
  by simp

lemma distribute_kernel:
  assumes "distinct (map process_id ps)"
  shows "fst (distribute_signal kernel_access ps info k) = (if ps = [] then Err ESRCH else Ok 0)"
    and "map_of (processes (snd (distribute_signal kernel_access ps info k))) q =
     (if q \<in> process_id ` set ps
      then map_option (snd \<circ> signal_process (si_signo info)) (map_of (processes k) q)
      else map_of (processes k) q)"
  unfolding kernel_kill.distribute_signal_result
  using deliver_all_lookup [OF assms, of info k q] by (cases ps; simp)+

section \<open>The action at a tick\<close>

lemma disposition_pending [simp]: "disposition s (st\<lparr>pending := p\<rparr>) = disposition s st"
  by (simp add: disposition_def action_def)

definition actionable :: "signal_state \<Rightarrow> signal \<Rightarrow> bool" where
  "actionable st s \<longleftrightarrow> is_deliverable st s \<and> disposition s st \<noteq> DispIgnore"

lemma deliverable_taken:
  "is_deliverable (st\<lparr>pending := pending st AND NOT (signal_bit s)\<rparr>) t \<longleftrightarrow> is_deliverable st t \<and> t \<noteq> s"
  using sig_index_64 [of t]
  by (auto simp: is_deliverable_def is_pending_def is_blocked_def bit_simps bit_signal_bit sig_index_inj)

fun action_of :: "signal \<Rightarrow> disp \<Rightarrow> pending_action" where
  "action_of s DispIgnore = NoAction"
| "action_of s DispTerminate = TerminateAction"
| "action_of s DispStop = StopAction"
| "action_of s (DispHandler act) = HandlerAction s act"

lemma next_action_spec:
  assumes "signal_inv st" and "\<not> stopped st"
  shows "if \<exists>s. actionable st s
    then \<exists>s. actionable st s \<and> (\<forall>t. actionable st t \<longrightarrow> signal_number s \<le> signal_number t) \<and>
           fst (next_action st) = action_of s (disposition s st)
    else fst (next_action st) = NoAction"
  using assms
proof (induction st rule: next_action.induct)
  case (1 st)
  show ?case
  proof (rule take_next_cases [OF "1.prems"(1)])
    assume "take_next_deliverable st = (None, st)" "\<forall>s. \<not> is_deliverable st s"
    then show ?thesis using "1.prems"(2) by (simp add: next_action.simps [of st] actionable_def)
  next
    fix s
    let ?st = "st\<lparr>pending := pending st AND NOT (signal_bit s)\<rparr>"
    assume s: "is_deliverable st s" "\<forall>t. is_deliverable st t \<longrightarrow> signal_number s \<le> signal_number t"
      and take: "take_next_deliverable st = (Some s, ?st)"
    show ?thesis
    proof (cases "disposition s st = DispIgnore")
      case False
      then have "fst (next_action st) = action_of s (disposition s st)"
        using take "1.prems"(2) by (cases "disposition s st") (simp_all add: next_action.simps [of st])
      then show ?thesis using s False by (auto simp: actionable_def)
    next
      case True
      have inv: "signal_inv ?st" by (rule signal_inv_pending [OF "1.prems"(1)]) (simp add: bit_simps)
      have same: "actionable ?st = actionable st"
        using True by (auto simp: actionable_def deliverable_taken fun_eq_iff)
      have "next_action st = next_action ?st"
        using take True "1.prems"(2) by (simp add: next_action.simps [of st])
      then show ?thesis
        using "1.IH" [OF "1.prems"(2) take [symmetric] refl _ inv] True "1.prems"(2)
        unfolding same disposition_pending by simp
    qed
  qed
qed

section \<open>The signal frame\<close>

lemma length_regs_to_bytes [simp]: "length (regs_to_bytes r) = 72"
  by (simp add: regs_to_bytes_def)

lemma regs_round_trip: "regs_from_bytes (regs_to_bytes r) = r"
  by (simp add: regs_from_bytes_def regs_to_bytes_def field64_def slice_def word_from_to_le)

lemma length_sig_frame [simp]: "length (sf_fx f) = 512 \<Longrightarrow> length (sig_frame_to_bytes f) = SIGFRAME_SIZE"
  by (simp add: sig_frame_to_bytes_def SIGFRAME_SIZE_def)

lemma sig_frame_round_trip:
  "length (sf_fx f) = 512 \<Longrightarrow> sig_frame_from_bytes (sig_frame_to_bytes f) = f"
  by (simp add: sig_frame_from_bytes_def sig_frame_to_bytes_def field64_def slice_def word_from_to_le
      regs_round_trip nth_append)


lemma write_sigframe_ok:
  assumes can: "canonical_ok canonical" and rsp: "784 \<le> unat (stack_pointer (iframe c))"
    "unat (stack_pointer (iframe c)) < lower_half"
    and base: "base = (stack_pointer (iframe c) - 128 - of_nat SIGFRAME_SIZE) AND NOT 15"
  shows "unat base + 768 \<le> unat (stack_pointer (iframe c))" "16 dvd unat base" "16 \<le> unat base"
    "write_sigframe canonical s old act c =
      (let (fx, valid) = capture_fpu (replicate 512 0) c;
           sf = \<lparr>sf_fx = fx, sf_regs = regs c, sf_rip = instruction_pointer (iframe c),
                 sf_rflags = cpu_flags (iframe c), sf_rsp = stack_pointer (iframe c),
                 sf_old_blocked = old, sf_signo = of_int (signal_number s),
                 sf_fx_valid = valid, sf_magic = SIGFRAME_MAGIC\<rparr>
       in Ok (base, write_bytes (unat base) (sig_frame_to_bytes sf)
                      (write_bytes (unat base - 8) (word_to_le 8 (sa_restorer act)) (umem c))))"
proof -
  let ?rsp = "stack_pointer (iframe c)"
  have sub: "?rsp - 128 - of_nat SIGFRAME_SIZE = ?rsp - 768" by (simp add: SIGFRAME_SIZE_def)
  have "unat (?rsp - 768) = unat ?rsp - 768" using unat_minus_le [of 768 ?rsp] rsp(1) by simp
  then have u: "unat base = (unat ?rsp - 768) div 16 * 16" unfolding base sub unat_align_16 by simp
  show al: "16 dvd unat base" using u by simp
  have "(unat ?rsp - 768) div 16 * 16 \<le> unat ?rsp - 768" by simp
  then show le: "unat base + 768 \<le> unat ?rsp" using u rsp(1) by linarith
  have "16 div 16 \<le> (unat ?rsp - 768) div 16" using rsp(1) by (intro div_le_mono) linarith
  then show ge: "16 \<le> unat base" using u by simp
  let ?start = "unat base - 8"
  have start: "checked_sub (unat base) 8 = Some ?start" using ge by (simp add: checked_sub_def)
  have low: "?start + 648 < lower_half" using le rsp(2) ge by linarith
  have ptr: "mut_try_from_usize ?start = Ok (UserspaceMutPtr ?start)"
    using low low_bit_63 [of ?start] by (simp add: mut_try_from_usize_def)
  have rng: "mut_validate_range canonical (UserspaceMutPtr ?start) (SIGFRAME_SIZE + 8) = Ok ()"
    using validate_addr_range_iff [OF can, of ?start 648] low
    by (simp add: mut_validate_range_def SIGFRAME_SIZE_def)
  have eight: "?start + 8 = unat base" using ge by simp
  show "write_sigframe canonical s old act c =
      (let (fx, valid) = capture_fpu (replicate 512 0) c;
           sf = \<lparr>sf_fx = fx, sf_regs = regs c, sf_rip = instruction_pointer (iframe c),
                 sf_rflags = cpu_flags (iframe c), sf_rsp = ?rsp,
                 sf_old_blocked = old, sf_signo = of_int (signal_number s),
                 sf_fx_valid = valid, sf_magic = SIGFRAME_MAGIC\<rparr>
       in Ok (base, write_bytes (unat base) (sig_frame_to_bytes sf)
                      (write_bytes (unat base - 8) (word_to_le 8 (sa_restorer act)) (umem c))))"
    unfolding write_sigframe_def Let_def base [symmetric] start unwrap_def option.case obind.simps ptr
      map_err.simps rng eight
    by (simp add: case_prod_beta)
qed


definition trunc_ok :: "(u64 \<Rightarrow> u64) \<Rightarrow> bool" where
  "trunc_ok trunc \<longleftrightarrow> (\<forall>w. unat w < lower_half \<longrightarrow> trunc w = w)"

text \<open>The interrupted user context: stack and code in the lower half, room for a frame, FPU
  images of the size the hardware writes.\<close>

definition user_context :: "task_cpu \<Rightarrow> bool" where
  "user_context c \<longleftrightarrow> 784 \<le> unat (stack_pointer (iframe c)) \<and>
     unat (stack_pointer (iframe c)) < lower_half \<and> unat (instruction_pointer (iframe c)) < lower_half \<and>
     length (fpu c) = 512 \<and> (\<forall>area. fx_area c = Some area \<longrightarrow> length area = 512)"

definition frame_base :: "task_cpu \<Rightarrow> u64" where
  "frame_base c = (stack_pointer (iframe c) - 128 - of_nat SIGFRAME_SIZE) AND NOT 15"

definition saved_frame :: "signal \<Rightarrow> sig_set \<Rightarrow> task_cpu \<Rightarrow> sig_frame" where
  "saved_frame s old c = (let (fx, valid) = capture_fpu (replicate 512 0) c in
     \<lparr>sf_fx = fx, sf_regs = regs c, sf_rip = instruction_pointer (iframe c),
      sf_rflags = cpu_flags (iframe c), sf_rsp = stack_pointer (iframe c),
      sf_old_blocked = old, sf_signo = of_int (signal_number s),
      sf_fx_valid = valid, sf_magic = SIGFRAME_MAGIC\<rparr>)"

lemma length_captured: "user_context c \<Longrightarrow> length (fst (capture_fpu (replicate 512 0) c)) = 512"
  by (auto simp: capture_fpu_def user_context_def split: option.splits)

lemma length_saved_frame [simp]: "user_context c \<Longrightarrow> length (sf_fx (saved_frame s old c)) = 512"
  using length_captured [of c] by (simp add: saved_frame_def case_prod_beta)

lemma frame_base_bounds:
  assumes "user_context c"
  shows "unat (frame_base c) + 768 \<le> unat (stack_pointer (iframe c))" "16 dvd unat (frame_base c)"
    "16 \<le> unat (frame_base c)" "unat (frame_base c - 8) = unat (frame_base c) - 8"
    "unat (frame_base c) + 640 < lower_half"
proof -
  have rsp: "784 \<le> unat (stack_pointer (iframe c))" "unat (stack_pointer (iframe c)) < lower_half"
    using assms by (auto simp: user_context_def)
  have can: "canonical_ok (\<lambda>a. a < lower_half \<or> upper_half \<le> a)" by (simp add: canonical_ok_def)
  note b = write_sigframe_ok(1-3) [OF can rsp frame_base_def]
  show "unat (frame_base c) + 768 \<le> unat (stack_pointer (iframe c))" "16 dvd unat (frame_base c)"
    "16 \<le> unat (frame_base c)" using b by auto
  show "unat (frame_base c - 8) = unat (frame_base c) - 8"
    using unat_minus_le [of 8 "frame_base c"] b(3) by simp
  show "unat (frame_base c) + 640 < lower_half" using b(1) rsp(2) by linarith
qed

lemma enter_handler_ok:
  assumes can: "canonical_ok canonical" and tr: "trunc_ok trunc" and c: "user_context c"
  shows "enter_handler canonical trunc s act st c =
    Ok (snd (apply_handler_entry s act st),
        c\<lparr>umem := write_bytes (unat (frame_base c)) (sig_frame_to_bytes (saved_frame s (blocked st) c))
                   (write_bytes (unat (frame_base c) - 8) (word_to_le 8 (sa_restorer act)) (umem c)),
          regs := (regs c)\<lparr>rdi := of_int (signal_number s)\<rparr>,
          iframe := (iframe c)\<lparr>instruction_pointer := trunc (sa_handler act),
                               stack_pointer := frame_base c - 8\<rparr>\<rparr>)"
proof -
  have rsp: "784 \<le> unat (stack_pointer (iframe c))" "unat (stack_pointer (iframe c)) < lower_half"
    using c by (auto simp: user_context_def)
  have "trunc (frame_base c - 8) = frame_base c - 8"
    using tr frame_base_bounds(4,5) [OF c] by (simp add: trunc_ok_def)
  moreover have "fst (apply_handler_entry s act st) = blocked st"
    by (simp add: apply_handler_entry_def Let_def)
  moreover have "write_sigframe canonical s (blocked st) act c =
      Ok (frame_base c, write_bytes (unat (frame_base c)) (sig_frame_to_bytes (saved_frame s (blocked st) c))
        (write_bytes (unat (frame_base c) - 8) (word_to_le 8 (sa_restorer act)) (umem c)))"
    unfolding write_sigframe_ok(4) [OF can rsp frame_base_def] saved_frame_def
    by (simp add: case_prod_beta Let_def)
  ultimately show ?thesis by (simp add: enter_handler_def case_prod_beta)
qed

lemma next_action_rest:
  "blocked (snd (next_action st)) = blocked st \<and> actions (snd (next_action st)) = actions st"
proof (induction st rule: next_action.induct)
  case (1 st)
  have keep: "blocked st' = blocked st \<and> actions st' = actions st"
    if "take_next_deliverable st = (r, st')" for r st'
    using that by (auto simp: take_next_deliverable_def Let_def split: if_splits outcome.splits)
  show ?case
  proof (cases "stopped st")
    case True
    then show ?thesis by (simp add: next_action.simps [of st])
  next
    case False
    obtain r st' where t: "take_next_deliverable st = (r, st')" by fastforce
    show ?thesis
    proof (cases r)
      case None
      then show ?thesis using False t keep [OF t] by (simp add: next_action.simps [of st])
    next
      case (Some s)
      then show ?thesis
        using False t keep [OF t] 1 [OF False t [symmetric] Some]
        by (cases "disposition s st'") (simp_all add: next_action.simps [of st] set_stopped_def)
    qed
  qed
qed

lemma unblockable_mask:
  assumes "\<not> is_blocked st SigKill" and "\<not> is_blocked st SigStop"
  shows "blocked st AND NOT KILL_STOP_MASK = blocked st"
  by (rule bit_eqI) (use assms in \<open>auto simp: bit_simps bit_KILL_STOP_MASK is_blocked_def\<close>)

lemma sigreturn_restores:
  assumes can: "canonical_ok canonical" and tr: "trunc_ok trunc" and c: "user_context c"
    and nb: "\<not> is_blocked st SigKill" "\<not> is_blocked st SigStop"
    and sp: "stack_pointer (iframe c2) = frame_base c"
    and mem: "read_bytes (unat (frame_base c)) SIGFRAME_SIZE (umem c2) =
      sig_frame_to_bytes (saved_frame s (blocked st) c)"
    and rd: "readable (unat (frame_base c)) SIGFRAME_SIZE"
  shows "sys_sigreturn canonical trunc readable user_code user_data st2 c2 =
    Ok (st2\<lparr>blocked := blocked st\<rparr>,
      let c3 = c2\<lparr>regs := regs c,
        iframe := \<lparr>instruction_pointer = instruction_pointer (iframe c), code_segment = user_code,
                   cpu_flags = (cpu_flags (iframe c) AND 0xDD5) OR 0x200,
                   stack_pointer = stack_pointer (iframe c), stack_segment = user_data\<rparr>\<rparr>
      in case capture_fpu (replicate 512 0) c of
           (fx, True) \<Rightarrow> c3\<lparr>task_switched := False, fpu := fx\<rparr>
         | (fx, False) \<Rightarrow> c3)"
proof -
  let ?a = "unat (frame_base c)" and ?f = "saved_frame s (blocked st) c"
  have low: "?a + 640 < lower_half" using frame_base_bounds(5) [OF c] .
  have ptr: "mut_try_from_usize ?a = Ok (UserspaceMutPtr ?a)"
    using low low_bit_63 [of ?a] by (simp add: mut_try_from_usize_def)
  have rng: "mut_validate_range canonical (UserspaceMutPtr ?a) SIGFRAME_SIZE = Ok ()"
    using validate_addr_range_iff [OF can, of ?a 640] low
    by (simp add: mut_validate_range_def SIGFRAME_SIZE_def)
  have dec: "sig_frame_from_bytes (read_bytes ?a SIGFRAME_SIZE (umem c2)) = ?f"
    using mem sig_frame_round_trip [of ?f] c by simp
  have t: "trunc (instruction_pointer (iframe c)) = instruction_pointer (iframe c)"
    "trunc (stack_pointer (iframe c)) = stack_pointer (iframe c)"
    using tr c by (auto simp: trunc_ok_def user_context_def)
  show ?thesis
    unfolding sys_sigreturn_def Let_def sp ptr map_err.simps obind.simps rng dec
    using rd t unblockable_mask [OF nb]
    by (auto simp: saved_frame_def set_blocked_raw_def case_prod_beta split: bool.splits prod.splits)
qed


lemma next_action_stop: "fst (next_action st) = StopAction \<Longrightarrow> stopped (snd (next_action st))"
proof (induction st rule: next_action.induct)
  case (1 st)
  obtain r st' where t: "take_next_deliverable st = (r, st')" by fastforce
  show ?case
  proof (cases "stopped st \<or> r = None")
    case True
    then show ?thesis using t 1(2) by (auto simp: next_action.simps [of st])
  next
    case False
    then obtain s where s: "r = Some s" "\<not> stopped st" by auto
    then show ?thesis using t 1(1) [OF s(2) t [symmetric] s(1)] 1(2)
      by (cases "disposition s st'") (simp_all add: next_action.simps [of st] set_stopped_def)
  qed
qed

section \<open>Properties\<close>

text \<open>C9: \<open>kill\<close> signals exactly its targets (one process, all of them, or the one whose group is
  named, 0 naming the caller's own), each of them once, leaves every other process as it was, and
  fails with \<open>ESRCH\<close> exactly when there is no target.\<close>

theorem kill_signals_targets:
  fixes k :: "('t, 'w) kernel"
  assumes "distinct (map fst (processes k))"
  shows "fst (sys_kill kernel_access target s k) =
      (if kill_targets target k = {} then Err ESRCH else Ok 0) \<and>
    map_of (processes (snd (sys_kill kernel_access target s k))) pid =
      (if pid \<in> kill_targets target k
       then map_option (snd \<circ> signal_process s) (map_of (processes k) pid)
       else map_of (processes k) pid)"
proof (cases target)
  case (SpecificProcess p)
  have "process_by_id kernel_access k p \<noteq> None \<longleftrightarrow> p \<in> fst ` set (processes k)"
    by (force simp: process_by_id_def kernel_access_def kernel_processes_def find_None_iff)
  then show ?thesis using SpecificProcess
    by (auto simp: sys_kill_def Let_def kernel_access_def kill_targets_def kernel_deliver_lookup comp_def
        map_of_eq_None_iff split: option.splits)
next
  case BroadcastAll
  have d: "distinct (map process_id (kernel_processes k))" using assms by (simp add: kernel_process_ids)
  have ids: "process_id ` set (kernel_processes k) = fst ` set (processes k)"
    using kernel_process_ids [of k] by (metis list.set_map)
  have "kernel_processes k = [] \<longleftrightarrow> processes k = []" by (simp add: kernel_processes_def)
  moreover have "sys_kill kernel_access target s k = distribute_signal kernel_access (kernel_processes k)
      \<lparr>si_signo = s, si_code = 0, si_errno = 0, si_info = InfoKill (current_pid k) 0\<rparr> k"
    using BroadcastAll by (simp add: sys_kill_def Let_def kernel_access_def kernel_identity_def)
  ultimately show ?thesis using BroadcastAll distribute_kernel [OF d, of _ k] ids
    by (simp add: kill_targets_def)
next
  case (ProcessGroup g)
  let ?g = "if g = 0 then current_pid k else g"
  let ?ps = "filter (\<lambda>p. process_group_id p = ?g) (kernel_processes k)"
  have d: "distinct (map process_id ?ps)" using assms by (simp add: kernel_process_ids distinct_map_filter)
  have ids: "process_id ` set ?ps = {?g} \<inter> fst ` set (processes k)"
  proof -
    have "process_id ` set ?ps = {?g} \<inter> process_id ` set (kernel_processes k)"
      using kernel_group [of _ k] by auto
    then show ?thesis using kernel_process_ids [of k] by (metis list.set_map)
  qed
  have empty: "?ps = [] \<longleftrightarrow> {?g} \<inter> fst ` set (processes k) = {}" unfolding ids [symmetric]
    by (auto simp: filter_empty_conv)
  have "sys_kill kernel_access target s k = distribute_signal kernel_access ?ps
      \<lparr>si_signo = s, si_code = 0, si_errno = 0, si_info = InfoKill (current_pid k) 0\<rparr> k"
    using ProcessGroup
    by (simp add: sys_kill_def Let_def processes_in_group_def kernel_access_def kernel_identity_def is_root_def)
  moreover have "kill_targets target k = {?g} \<inter> fst ` set (processes k)"
    using ProcessGroup by (simp add: kill_targets_def)
  ultimately show ?thesis using distribute_kernel [OF d, of _ k, unfolded ids] empty
    by (simp only: signal_info_signo)
qed

definition demo_process :: "(unit, unit) process" where
  "demo_process = \<lparr>proc_signals = signal_state_default, stop_unpark = [], interruptible_wakers = [],
     proc_exit = None\<rparr>"

definition demo_kernel :: "(unit, unit) kernel" where
  "demo_kernel = \<lparr>current_pid = 1, processes = [(1, demo_process), (2, demo_process)], events = []\<rparr>"

theorem kill_signals_targets_witness:
  "fst (sys_kill kernel_access (SpecificProcess 2) SigTerminate demo_kernel) = Ok 0 \<and>
   map_of (processes (snd (sys_kill kernel_access (SpecificProcess 2) SigTerminate demo_kernel))) 1 =
     Some demo_process"
  using kill_signals_targets [of demo_kernel "SpecificProcess 2" SigTerminate 1]
  by (simp add: demo_kernel_def kill_targets_def)

text \<open>C10: What a tick does to a task interrupted in user mode with room for a frame below its stack
  pointer. If the lock of the signal state is taken, nothing; if the process is already stopped, the
  task is parked and its pending signals stay. Otherwise the lowest-numbered deliverable signal that
  is not ignored decides: its handler is entered with the signal number as argument, or the process
  is stopped, or the task is asked to terminate; with no such signal nothing happens to the task.\<close>

theorem tick_acts_on_lowest:
  assumes "canonical_ok canonical" and "trunc_ok trunc" and "user_context c"
    and "signal_reachable st"
  shows "if \<not> free then deliver_pending canonical trunc free st c = Ok (NoSignal, st, c)
    else if stopped st then deliver_pending canonical trunc free st c = Ok (ParkRequested, st, c)
    else if \<exists>s. actionable st s
    then \<exists>s. actionable st s \<and> (\<forall>t. actionable st t \<longrightarrow> signal_number s \<le> signal_number t) \<and>
      (\<exists>st' d c'. deliver_pending canonical trunc free st c = Ok (d, st', c') \<and>
        (case disposition s st of
           DispTerminate \<Rightarrow> d = TerminationRequested \<and> should_terminate c'
         | DispStop \<Rightarrow> d = ParkRequested \<and> stopped st' \<and> c' = c
         | DispHandler act \<Rightarrow> d = HandlerEntered \<and> rdi (regs c') = of_int (signal_number s) \<and>
             instruction_pointer (iframe c') = trunc (sa_handler act)
         | DispIgnore \<Rightarrow> False))
    else \<exists>st'. deliver_pending canonical trunc free st c = Ok (NoSignal, st', c)"
proof (cases "free \<and> \<not> stopped st")
  case False
  then show ?thesis by (simp add: deliver_pending_def next_action.simps [of st])
next
  case running: True
  obtain a st' where na: "next_action st = (a, st')" by fastforce
  note spec = next_action_spec [OF signal_reachable_inv [OF assms(4)], unfolded na fst_conv]
  show ?thesis
  proof (cases "\<exists>s. actionable st s")
    case False
    then show ?thesis using spec na running by (simp add: deliver_pending_def)
  next
    case True
    then obtain s where s: "actionable st s" "\<forall>t. actionable st t \<longrightarrow> signal_number s \<le> signal_number t"
      "a = action_of s (disposition s st)" using spec running by auto
    have "stopped st'" if "a = StopAction" using next_action_stop [of st] na that by simp
    then have "\<exists>st' d c'. deliver_pending canonical trunc free st c = Ok (d, st', c') \<and>
        (case disposition s st of
           DispTerminate \<Rightarrow> d = TerminationRequested \<and> should_terminate c'
         | DispStop \<Rightarrow> d = ParkRequested \<and> stopped st' \<and> c' = c
         | DispHandler act \<Rightarrow> d = HandlerEntered \<and> rdi (regs c') = of_int (signal_number s) \<and>
             instruction_pointer (iframe c') = trunc (sa_handler act)
         | DispIgnore \<Rightarrow> False)"
      using s(1,3) na running enter_handler_ok [OF assms(1-3)]
      by (cases "disposition s st") (auto simp: deliver_pending_def actionable_def)
    then show ?thesis using True s running by auto
  qed
qed

definition demo_cpu :: task_cpu where
  "demo_cpu = \<lparr>regs = \<lparr>r11 = 0, r10 = 0, r9 = 0, r8 = 0, rdi = 0, rsi = 0, rdx = 0, rcx = 0, rax = 7\<rparr>,
     iframe = \<lparr>instruction_pointer = 4096, code_segment = 0, cpu_flags = 0x202, stack_pointer = 65536,
               stack_segment = 0\<rparr>,
     umem = (\<lambda>_. 0), fpu = replicate 512 3, task_switched = False, fx_area = None,
     should_terminate = False\<rparr>"

definition demo_canonical :: "nat \<Rightarrow> bool" where
  "demo_canonical a \<longleftrightarrow> a < lower_half \<or> upper_half \<le> a"

lemma demo_machine: "canonical_ok demo_canonical" "trunc_ok (\<lambda>w. w)" "user_context demo_cpu"
  by (simp_all add: canonical_ok_def demo_canonical_def trunc_ok_def user_context_def demo_cpu_def
      lower_half_def)

text \<open>A terminal stop and a termination are pending; the termination has the lower number.\<close>

definition demo_pending :: signal_state where
  "demo_pending = set_pending SigTerminate (set_pending SigTerminalStop signal_state_default)"

lemma demo_actionable:
  "actionable demo_pending s \<longleftrightarrow> s = SigTerminate \<or> s = SigTerminalStop"
  "disposition SigTerminate demo_pending = DispTerminate"
proof -
  have disp: "disposition SigTerminate demo_pending = DispTerminate"
    "disposition SigTerminalStop demo_pending = DispStop"
    by (simp_all add: demo_pending_def disposition_def action_def signal_state_default_def sig_index_less
        sig_action_default_def handler_is_ignore_def handler_is_default_def default_action_def)
  then show "disposition SigTerminate demo_pending = DispTerminate" by blast
  have "\<not> is_pending signal_state_default t" for t by (simp add: is_pending_def signal_state_default_def)
  moreover have "blocked demo_pending = 0" by (simp add: demo_pending_def signal_state_default_def)
  ultimately have "is_deliverable demo_pending s \<longleftrightarrow> s = SigTerminate \<or> s = SigTerminalStop"
    by (auto simp: demo_pending_def is_deliverable_def is_pending_set_pending discards_def is_blocked_def)
  then show "actionable demo_pending s \<longleftrightarrow> s = SigTerminate \<or> s = SigTerminalStop"
    using disp by (auto simp: actionable_def)
qed

theorem tick_acts_on_lowest_witness:
  "\<exists>st' c'. deliver_pending demo_canonical (\<lambda>w. w) True demo_pending demo_cpu =
     Ok (TerminationRequested, st', c') \<and> should_terminate c'"
proof -
  have reach: "signal_reachable demo_pending" unfolding demo_pending_def
    by (blast intro: signal_reachable.intros signal_step.pend)
  have "stopped demo_pending = False" by (simp add: demo_pending_def signal_state_default_def)
  moreover have "Ex (actionable demo_pending) = True" using demo_actionable(1) by blast
  ultimately obtain s where s: "actionable demo_pending s"
      "\<forall>t. actionable demo_pending t \<longrightarrow> signal_number s \<le> signal_number t"
      "\<exists>st' d c'. deliver_pending demo_canonical (\<lambda>w. w) True demo_pending demo_cpu = Ok (d, st', c') \<and>
        (case disposition s demo_pending of
           DispTerminate \<Rightarrow> d = TerminationRequested \<and> should_terminate c'
         | DispStop \<Rightarrow> d = ParkRequested \<and> stopped st' \<and> c' = demo_cpu
         | DispHandler act \<Rightarrow> d = HandlerEntered \<and> rdi (regs c') = of_int (signal_number s) \<and>
             instruction_pointer (iframe c') = sa_handler act
         | DispIgnore \<Rightarrow> False)"
    using tick_acts_on_lowest [OF demo_machine reach, of True]
    by (simp only: if_True if_False not_True_eq_False) blast
  have "s = SigTerminate" using s(1) s(2) [rule_format, of SigTerminate] by (auto simp: demo_actionable(1))
  then show ?thesis using s(3) by (auto simp: demo_actionable(2))
qed

text \<open>C11: Entering a handler leaves user memory outside the frame and its return address as it
  was, in particular the 128 bytes below the interrupted stack pointer; the stack pointer is 8
  modulo 16 and points at the restorer. When the handler has returned through it with the frame
  intact, \<open>sigreturn\<close> succeeds and restores registers, instruction and stack pointer, the blocked
  set and the FPU state, with only harmless flags taken from the frame and the selectors from the
  kernel.\<close>

theorem handler_round_trip:
  assumes "canonical_ok canonical" and "trunc_ok trunc" and "user_context c" and "signal_reachable st"
    and "deliver_pending canonical trunc True st c = Ok (HandlerEntered, st1, c1)"
    and "stack_pointer (iframe c2) = stack_pointer (iframe c1) + 8"
    and "\<forall>x. unat (stack_pointer (iframe c2)) \<le> x \<and> x < unat (stack_pointer (iframe c2)) + SIGFRAME_SIZE
      \<longrightarrow> umem c2 x = umem c1 x"
    and "readable (unat (stack_pointer (iframe c2))) SIGFRAME_SIZE"
  shows "unat (stack_pointer (iframe c1)) mod 16 = 8 \<and>
    (\<forall>x. x < unat (stack_pointer (iframe c1)) \<or> unat (stack_pointer (iframe c)) - 128 \<le> x \<longrightarrow>
      umem c1 x = umem c x) \<and>
    (\<exists>c3. sys_sigreturn canonical trunc readable user_code user_data st2 c2 =
        Ok (st2\<lparr>blocked := blocked st\<rparr>, c3) \<and>
      regs c3 = regs c \<and> instruction_pointer (iframe c3) = instruction_pointer (iframe c) \<and>
      stack_pointer (iframe c3) = stack_pointer (iframe c) \<and>
      cpu_flags (iframe c3) = (cpu_flags (iframe c) AND 0xDD5) OR 0x200 \<and>
      code_segment (iframe c3) = user_code \<and> stack_segment (iframe c3) = user_data \<and>
      (\<not> task_switched c \<longrightarrow> fpu c3 = fpu c) \<and>
      (task_switched c \<longrightarrow> (\<forall>area. fx_area c = Some area \<longrightarrow> fpu c3 = area)))"
proof -
  note b = frame_base_bounds [OF assms(3)]
  obtain st' s act where na: "next_action st = (HandlerAction s act, st')"
    and en: "enter_handler canonical trunc s act st' c = Ok (st1, c1)"
    using assms(5) by (auto simp: deliver_pending_def outcome_simps split: prod.splits pending_action.splits)
  have bl: "blocked st' = blocked st" using next_action_rest [of st] na by simp
  let ?f = "saved_frame s (blocked st) c"
  have c1: "stack_pointer (iframe c1) = frame_base c - 8"
    "umem c1 = write_bytes (unat (frame_base c)) (sig_frame_to_bytes ?f)
      (write_bytes (unat (frame_base c) - 8) (word_to_le 8 (sa_restorer act)) (umem c))"
    using en enter_handler_ok [OF assms(1-3), of s act st'] by (auto simp: bl)
  have sp: "stack_pointer (iframe c2) = frame_base c" using assms(6) c1 by simp
  have len: "length (sig_frame_to_bytes ?f) = SIGFRAME_SIZE" using assms(3) by simp
  have "read_bytes (unat (frame_base c)) SIGFRAME_SIZE (umem c2) =
      read_bytes (unat (frame_base c)) SIGFRAME_SIZE (umem c1)"
    using assms(7) sp by (intro read_bytes_cong) auto
  also have "\<dots> = sig_frame_to_bytes ?f" unfolding c1 len [symmetric] by (rule read_write_same)
  finally have mem: "read_bytes (unat (frame_base c)) SIGFRAME_SIZE (umem c2) = sig_frame_to_bytes ?f" .
  have nb: "\<not> is_blocked st SigKill" "\<not> is_blocked st SigStop"
    using signal_reachable_inv [OF assms(4)] by (auto simp: signal_inv_def)
  note ret = sigreturn_restores [where readable = readable, OF assms(1-3) nb sp mem assms(8) [unfolded sp],
      of user_code user_data st2]
  have "umem c1 x = umem c x"
    if "x < unat (stack_pointer (iframe c1)) \<or> unat (stack_pointer (iframe c)) - 128 \<le> x" for x
  proof -
    have "x < unat (frame_base c) - 8 \<or> unat (frame_base c) + 640 \<le> x"
      using that b c1(1) by auto
    then show ?thesis unfolding c1(2) write_bytes_def len using b(3) by (auto simp: SIGFRAME_SIZE_def)
  qed
  moreover have "unat (stack_pointer (iframe c1)) mod 16 = 8"
  proof -
    obtain q where "unat (frame_base c) = 16 * Suc q" using b(2,3) by (metis dvdE mult_0_right not0_implies_Suc not_numeral_le_zero)
    then show ?thesis using b(4) c1(1) by simp
  qed
  ultimately show ?thesis unfolding ret
    by (auto simp: Let_def capture_fpu_def split: option.splits)
qed

definition demo_handler :: sig_action where
  "demo_handler = \<lparr>sa_handler = 8192, sa_mask = 0, sa_flags = 0, sa_restorer = 12288\<rparr>"

definition demo_signals :: signal_state where
  "demo_signals = set_pending SigUsr1 (snd (sigaction SigUsr1 (Some demo_handler) signal_state_default))"

lemma demo_signals_reachable: "signal_reachable demo_signals"
  unfolding demo_signals_def
  by (intro signal_reachable.step [OF _ signal_step.pend]
      signal_reachable.step [OF signal_reachable.start signal_step.sigaction]) (rule surjective_pairing)

lemma demo_next_action:
  "\<exists>st'. next_action demo_signals = (HandlerAction SigUsr1 demo_handler, st')"
proof -
  have p: "is_pending demo_signals t \<longleftrightarrow> t = SigUsr1" for t
    unfolding demo_signals_def is_pending_set_pending
    by (auto simp: is_pending_def sigaction_def signal_state_default_def Let_def split: option.splits)
  have act: "action SigUsr1 demo_signals = demo_handler"
    unfolding demo_signals_def
    by (simp add: action_def sigaction_def signal_state_default_def Let_def demo_handler_def sa_contains_def
        SA_SIGINFO_def sig_index_def SIGNAL_COUNT_def)
  have d: "disposition SigUsr1 demo_signals = DispHandler demo_handler"
    unfolding disposition_def act by (simp add: demo_handler_def handler_is_ignore_def handler_is_default_def)
  have "\<not> is_blocked demo_signals t" "\<not> stopped demo_signals" for t
    by (auto simp: demo_signals_def is_blocked_def sigaction_def signal_state_default_def Let_def
        split: option.splits)
  then have "actionable demo_signals t \<longleftrightarrow> t = SigUsr1" for t
    using p d by (auto simp: actionable_def is_deliverable_def)
  then have "fst (next_action demo_signals) = HandlerAction SigUsr1 demo_handler"
    using next_action_spec [OF signal_reachable_inv [OF demo_signals_reachable] \<open>\<not> stopped demo_signals\<close>] d by auto
  then show ?thesis by (cases "next_action demo_signals") auto
qed

theorem handler_round_trip_witness:
  "\<exists>st1 c1 c3. deliver_pending demo_canonical (\<lambda>w. w) True demo_signals demo_cpu = Ok (HandlerEntered, st1, c1) \<and>
     sys_sigreturn demo_canonical (\<lambda>w. w) (\<lambda>_ _. True) 0 0 st1
       (c1\<lparr>iframe := (iframe c1)\<lparr>stack_pointer := stack_pointer (iframe c1) + 8\<rparr>\<rparr>) =
       Ok (st1\<lparr>blocked := blocked demo_signals\<rparr>, c3) \<and>
     regs c3 = regs demo_cpu \<and> fpu c3 = fpu demo_cpu"
proof -
  obtain st1 c1 where d: "deliver_pending demo_canonical (\<lambda>w. w) True demo_signals demo_cpu =
      Ok (HandlerEntered, st1, c1)"
    using demo_next_action enter_handler_ok [OF demo_machine] by (auto simp: deliver_pending_def)
  let ?c2 = "c1\<lparr>iframe := (iframe c1)\<lparr>stack_pointer := stack_pointer (iframe c1) + 8\<rparr>\<rparr>"
  have sp: "stack_pointer (iframe ?c2) = stack_pointer (iframe c1) + 8"
    and mem: "\<forall>x. unat (stack_pointer (iframe ?c2)) \<le> x \<and>
      x < unat (stack_pointer (iframe ?c2)) + SIGFRAME_SIZE \<longrightarrow> umem ?c2 x = umem c1 x" by simp_all
  obtain c3 where "sys_sigreturn demo_canonical (\<lambda>w. w) (\<lambda>_ _. True) 0 0 st1 ?c2 =
      Ok (st1\<lparr>blocked := blocked demo_signals\<rparr>, c3)" "regs c3 = regs demo_cpu"
    "\<not> task_switched demo_cpu \<longrightarrow> fpu c3 = fpu demo_cpu"
    using handler_round_trip [OF demo_machine demo_signals_reachable d sp mem TrueI, of 0 0 st1] by blast
  moreover have "\<not> task_switched demo_cpu" by (simp add: demo_cpu_def)
  ultimately show ?thesis using d by blast
qed

end
