(* ===== verification/Park.thy ===== *)
theory Park
  imports Muffin_Prelude "HOL-Library.Multiset"
begin

text \<open>
  The parking lot (\<open>kernel/park/src/lib.rs\<close>): slots with their atomic state, segments,
  reservations, park and unpark tickets, wakers and ticket cells.

  The operations are given twice. As functions they are what a call does when nothing interferes.
  As sequences of atomic actions on the slots (one per atomic instruction or cell access) they are
  steps of a system in which any number of threads interleave; the rights a thread holds (a
  reservation, a ticket, an operation between two of its actions) are tokens.

  Shown here: under every interleaving the tickets of a slot stay unique, no uninitialised cell is
  read, and every value given to \<open>park\<close> is handed back exactly once, either by the park that lost
  the race or by the unpark.
\<close>

section \<open>Slots and the operations on one slot\<close>

definition SEGMENT_SLOTS :: nat where
  "SEGMENT_SLOTS = 64"

datatype slot_state = Empty | Reserved | Occupied | Unparked

record 'v slot =
  state :: slot_state
  cell :: "'v option"

definition slot_new :: "'v slot" where
  "slot_new = \<lparr>state = Empty, cell = None\<rparr>"

text \<open>The atomic actions: a compare-and-exchange of the state, the write of the cell and the read
  that moves the value out of it (\<open>None\<close> is a read of an uninitialised cell).\<close>

definition compare_exchange :: "slot_state \<Rightarrow> slot_state \<Rightarrow> 'v slot \<Rightarrow> bool \<times> 'v slot" where
  "compare_exchange old new s =
     (if state s = old then (True, s\<lparr>state := new\<rparr>) else (False, s))"

definition cell_write :: "'v \<Rightarrow> 'v slot \<Rightarrow> 'v slot" where
  "cell_write v s = s\<lparr>cell := Some v\<rparr>"

definition cell_read :: "'v slot \<Rightarrow> ('v \<times> 'v slot) opt_outcome" where
  "cell_read s = (case cell s of Some v \<Rightarrow> Ok (v, s\<lparr>cell := None\<rparr>) | None \<Rightarrow> Panic)"

definition store_empty :: "'v slot \<Rightarrow> 'v slot" where
  "store_empty s = s\<lparr>state := Empty\<rparr>"

datatype 'v park_error = ErrUnparked (into_inner: 'v)

definition park :: "'v \<Rightarrow> 'v slot \<Rightarrow> (('v park_error, unit) outcome \<times> 'v slot) opt_outcome" where
  "park v s =
     (case compare_exchange Reserved Occupied (cell_write v s) of
        (True, s') \<Rightarrow> Ok (Ok (), s')
      | (False, s') \<Rightarrow>
          obind (cell_read s') (\<lambda>(w, s''). Ok (Err (ErrUnparked w), store_empty s'')))"

definition unpark :: "'v slot \<Rightarrow> ('v option \<times> 'v slot) opt_outcome" where
  "unpark s =
     (case compare_exchange Reserved Unparked s of
        (True, s') \<Rightarrow> Ok (None, s')
      | (False, s') \<Rightarrow> obind (cell_read s') (\<lambda>(w, s''). Ok (Some w, store_empty s'')))"

section \<open>The lot\<close>

text \<open>A lot is the chain of its segments; a slot is addressed by segment and index.\<close>

type_synonym 'v slots = "'v slot list"
type_synonym 'v lot = "'v slots list"

definition segment_new :: "'v slots" where
  "segment_new = replicate SEGMENT_SLOTS slot_new"

definition lot_new :: "'v lot" where
  "lot_new = [segment_new]"

fun claim :: "'v slots \<Rightarrow> (nat \<times> 'v slots) option" where
  "claim [] = None"
| "claim (s # ss) =
     (if state s \<noteq> Empty then map_option (\<lambda>(i, ss'). (Suc i, s # ss')) (claim ss)
      else case compare_exchange Empty Reserved s of
             (True, s') \<Rightarrow> Some (0, s' # ss)
           | (False, s') \<Rightarrow> map_option (\<lambda>(i, ss'). (Suc i, s' # ss')) (claim ss))"

text \<open>The end of the chain is where \<open>reserve\<close> appends a fresh segment.\<close>

fun reserve :: "'v lot \<Rightarrow> ((nat \<times> nat) \<times> 'v lot) option" where
  "reserve [] = map_option (\<lambda>(i, seg). ((0, i), [seg])) (claim segment_new)"
| "reserve (seg # segs) =
     (case claim seg of
        Some (i, seg') \<Rightarrow> Some ((0, i), seg' # segs)
      | None \<Rightarrow> map_option (\<lambda>((k, i), segs'). ((Suc k, i), seg # segs')) (reserve segs))"

fun try_reserve :: "'v lot \<Rightarrow> ((nat \<times> nat) \<times> 'v lot) option" where
  "try_reserve [] = None"
| "try_reserve (seg # segs) =
     (case claim seg of
        Some (i, seg') \<Rightarrow> Some ((0, i), seg' # segs)
      | None \<Rightarrow> map_option (\<lambda>((k, i), segs'). ((Suc k, i), seg # segs')) (try_reserve segs))"

definition slot_at :: "nat \<times> nat \<Rightarrow> 'v lot \<Rightarrow> 'v slot" where
  "slot_at a lot = lot ! fst a ! snd a"

definition release_reservation :: "nat \<times> nat \<Rightarrow> 'v lot \<Rightarrow> 'v lot" where
  "release_reservation a lot =
     lot[fst a := (lot ! fst a)[snd a := store_empty (slot_at a lot)]]"

text \<open>The values an exclusive owner of the lot drops with it.\<close>

definition drop_values :: "'v slots \<Rightarrow> 'v list" where
  "drop_values seg = List.map_filter (\<lambda>s. if state s = Occupied then cell s else None) seg"

definition lot_drop :: "'v lot \<Rightarrow> 'v list" where
  "lot_drop lot = concat (map drop_values lot)"

section \<open>Wakers and ticket cells\<close>

text \<open>All three are one pointer to a slot, \<open>None\<close> being null; \<open>'a\<close> is the address of a slot. A
  waker is shared by its clones.\<close>

definition pointer_swap_null :: "'a option \<Rightarrow> 'a option \<times> 'a option" where
  "pointer_swap_null p = (p, None)"

definition pointer_put :: "'a \<Rightarrow> 'a option \<Rightarrow> ('a, unit) outcome \<times> 'a option" where
  "pointer_put a p = (case p of None \<Rightarrow> (Ok (), Some a) | Some _ \<Rightarrow> (Err a, p))"

definition into_waker :: "'a \<Rightarrow> 'a option" where
  "into_waker a = Some a"

definition wake ::
  "('a \<Rightarrow> 'l \<Rightarrow> ('v option \<times> 'l) opt_outcome) \<Rightarrow> 'a option \<Rightarrow> 'l \<Rightarrow> ('v option \<times> 'a option \<times> 'l) opt_outcome"
  where
  "wake unpark_at w lot =
     (case pointer_swap_null w of
        (None, w') \<Rightarrow> Ok (None, w', lot)
      | (Some a, w') \<Rightarrow> obind (unpark_at a lot) (\<lambda>(r, lot'). Ok (r, w', lot')))"

definition cell_put :: "'a \<Rightarrow> 'a option \<Rightarrow> ('a, unit) outcome \<times> 'a option" where
  "cell_put ticket c = pointer_put ticket c"

definition cell_put_reservation :: "'a \<Rightarrow> 'a option \<Rightarrow> ('a, 'a) outcome \<times> 'a option" where
  "cell_put_reservation r c =
     (case pointer_put r c of (Ok _, c') \<Rightarrow> (Ok r, c') | (Err r', c') \<Rightarrow> (Err r', c') | (Panic, c') \<Rightarrow> (Panic, c'))"

definition cell_take :: "'a option \<Rightarrow> 'a option \<times> 'a option" where
  "cell_take c = pointer_swap_null c"

definition has_ticket :: "'a option \<Rightarrow> bool" where
  "has_ticket c \<longleftrightarrow> c \<noteq> None"

definition unpark_cell_put_reservation :: "'a \<Rightarrow> 'a option \<Rightarrow> ('a, 'a) outcome \<times> 'a option" where
  "unpark_cell_put_reservation r c =
     (case pointer_put r c of (Ok _, c') \<Rightarrow> (Ok r, c') | (Err r', c') \<Rightarrow> (Err r', c') | (Panic, c') \<Rightarrow> (Panic, c'))"

definition unpark_cell_take :: "'a option \<Rightarrow> 'a option \<times> 'a option" where
  "unpark_cell_take c = pointer_swap_null c"

section \<open>Interleavings\<close>

text \<open>
  The rights and the operations in flight: a reservation; an unused park ticket, a park that has
  written its value, one that has lost the exchange, one that has read its value back; an unused
  unpark ticket, one stored in waker \<open>w\<close>, an unpark that has lost the exchange, one that has read
  the value. The first number is the slot.
\<close>

datatype 'v token =
    Resv (slot_of: nat)
  | PTicket (slot_of: nat)
  | PWrote (slot_of: nat) 'v
  | PLost (slot_of: nat) 'v
  | PRead (slot_of: nat) 'v
  | UTicket (slot_of: nat)
  | InWaker (slot_of: nat) nat
  | ULost (slot_of: nat)
  | URead (slot_of: nat) 'v

text \<open>\<open>entered\<close> and \<open>returned\<close> are the values given to \<open>park\<close> and those handed back by failed parks
  and by unparks.\<close>

record 'v system =
  slots :: "'v slot list"
  tokens :: "'v token multiset"
  entered :: "'v multiset"
  returned :: "'v multiset"

definition set_slot :: "nat \<Rightarrow> 'v slot \<Rightarrow> 'v system \<Rightarrow> 'v system" where
  "set_slot i s sys = sys\<lparr>slots := (slots sys)[i := s]\<rparr>"

definition exchange_token :: "'v token \<Rightarrow> 'v token multiset \<Rightarrow> 'v system \<Rightarrow> 'v system" where
  "exchange_token t ts sys = sys\<lparr>tokens := tokens sys - {#t#} + ts\<rparr>"

inductive park_step :: "'v system \<Rightarrow> 'v system \<Rightarrow> bool" where
  append: "park_step sys (sys\<lparr>slots := slots sys @ segment_new\<rparr>)"
| claim: "i < length (slots sys) \<Longrightarrow> compare_exchange Empty Reserved (slots sys ! i) = (True, s') \<Longrightarrow>
    park_step sys ((set_slot i s' sys)\<lparr>tokens := add_mset (Resv i) (tokens sys)\<rparr>)"
| split: "Resv i \<in># tokens sys \<Longrightarrow>
    park_step sys (exchange_token (Resv i) {#PTicket i, UTicket i#} sys)"
| release: "Resv i \<in># tokens sys \<Longrightarrow>
    park_step sys (exchange_token (Resv i) {#} (set_slot i (store_empty (slots sys ! i)) sys))"
| park_write: "PTicket i \<in># tokens sys \<Longrightarrow>
    park_step sys ((exchange_token (PTicket i) {#PWrote i v#} (set_slot i (cell_write v (slots sys ! i)) sys))
      \<lparr>entered := add_mset v (entered sys)\<rparr>)"
| park_win: "PWrote i v \<in># tokens sys \<Longrightarrow>
    compare_exchange Reserved Occupied (slots sys ! i) = (True, s') \<Longrightarrow>
    park_step sys (exchange_token (PWrote i v) {#} (set_slot i s' sys))"
| park_lose: "PWrote i v \<in># tokens sys \<Longrightarrow>
    compare_exchange Reserved Occupied (slots sys ! i) = (False, s') \<Longrightarrow>
    park_step sys (exchange_token (PWrote i v) {#PLost i v#} (set_slot i s' sys))"
| park_read: "PLost i v \<in># tokens sys \<Longrightarrow> cell_read (slots sys ! i) = Ok (w, s') \<Longrightarrow>
    park_step sys (exchange_token (PLost i v) {#PRead i w#} (set_slot i s' sys))"
| park_store: "PRead i w \<in># tokens sys \<Longrightarrow>
    park_step sys ((exchange_token (PRead i w) {#} (set_slot i (store_empty (slots sys ! i)) sys))
      \<lparr>returned := add_mset w (returned sys)\<rparr>)"
| into_waker: "UTicket i \<in># tokens sys \<Longrightarrow>
    park_step sys (exchange_token (UTicket i) {#InWaker i w#} sys)"
| waker_fire: "InWaker i w \<in># tokens sys \<Longrightarrow>
    park_step sys (exchange_token (InWaker i w) {#UTicket i#} sys)"
| unpark_win: "UTicket i \<in># tokens sys \<Longrightarrow>
    compare_exchange Reserved Unparked (slots sys ! i) = (True, s') \<Longrightarrow>
    park_step sys (exchange_token (UTicket i) {#} (set_slot i s' sys))"
| unpark_lose: "UTicket i \<in># tokens sys \<Longrightarrow>
    compare_exchange Reserved Unparked (slots sys ! i) = (False, s') \<Longrightarrow>
    park_step sys (exchange_token (UTicket i) {#ULost i#} (set_slot i s' sys))"
| unpark_read: "ULost i \<in># tokens sys \<Longrightarrow> cell_read (slots sys ! i) = Ok (w, s') \<Longrightarrow>
    park_step sys (exchange_token (ULost i) {#URead i w#} (set_slot i s' sys))"
| unpark_store: "URead i w \<in># tokens sys \<Longrightarrow>
    park_step sys ((exchange_token (URead i w) {#} (set_slot i (store_empty (slots sys ! i)) sys))
      \<lparr>returned := add_mset w (returned sys)\<rparr>)"

definition system_start :: "'v system" where
  "system_start = \<lparr>slots = segment_new, tokens = {#}, entered = {#}, returned = {#}\<rparr>"

inductive park_reachable :: "'v system \<Rightarrow> bool" where
  start: "park_reachable system_start"
| step: "park_reachable sys \<Longrightarrow> park_step sys sys' \<Longrightarrow> park_reachable sys'"

section \<open>The invariant\<close>

definition tokens_at :: "nat \<Rightarrow> 'v system \<Rightarrow> 'v token multiset" where
  "tokens_at i sys = filter_mset (\<lambda>t. slot_of t = i) (tokens sys)"

definition unused_unpark :: "nat \<Rightarrow> 'v token \<Rightarrow> bool" where
  "unused_unpark i t \<longleftrightarrow> t = UTicket i \<or> (\<exists>w. t = InWaker i w)"

definition slot_inv :: "nat \<Rightarrow> 'v slot \<Rightarrow> 'v token multiset \<Rightarrow> bool" where
  "slot_inv i s T \<longleftrightarrow> (case state s of
     Empty \<Rightarrow> T = {#}
   | Reserved \<Rightarrow> T = {#Resv i#} \<or>
       (\<exists>u. unused_unpark i u \<and>
         (T = {#PTicket i, u#} \<or> (\<exists>v. cell s = Some v \<and> T = {#PWrote i v, u#})))
   | Occupied \<Rightarrow>
       (\<exists>v u. cell s = Some v \<and> (unused_unpark i u \<or> u = ULost i) \<and> T = {#u#}) \<or>
       (\<exists>v. cell s = None \<and> T = {#URead i v#})
   | Unparked \<Rightarrow> T = {#PTicket i#} \<or>
       (\<exists>v. cell s = Some v \<and> (T = {#PWrote i v#} \<or> T = {#PLost i v#})) \<or>
       (\<exists>v. T = {#PRead i v#}))"

definition system_inv :: "'v system \<Rightarrow> bool" where
  "system_inv sys \<longleftrightarrow> (\<forall>t \<in># tokens sys. slot_of t < length (slots sys)) \<and>
     (\<forall>i < length (slots sys). slot_inv i (slots sys ! i) (tokens_at i sys))"

fun token_value :: "'v token \<Rightarrow> 'v multiset" where
  "token_value (PWrote i v) = {#v#}"
| "token_value (PLost i v) = {#v#}"
| "token_value (PRead i v) = {#v#}"
| "token_value (URead i v) = {#v#}"
| "token_value t = {#}"

definition parked_value :: "'v slot \<Rightarrow> 'v multiset" where
  "parked_value s = (if state s = Occupied then (case cell s of Some v \<Rightarrow> {#v#} | None \<Rightarrow> {#}) else {#})"

definition held :: "'v system \<Rightarrow> 'v multiset" where
  "held sys = (\<Sum>s \<leftarrow> slots sys. parked_value s) + (\<Sum>t \<in># tokens sys. token_value t)"

definition conserved :: "'v system \<Rightarrow> bool" where
  "conserved sys \<longleftrightarrow> entered sys = returned sys + held sys"

lemma sum_list_update_swap:
  fixes f :: "'a \<Rightarrow> 'b::comm_monoid_add"
  assumes "i < length xs"
  shows "(\<Sum>x \<leftarrow> xs[i := y]. f x) + f (xs ! i) = (\<Sum>x \<leftarrow> xs. f x) + f y"
  using assms
proof (induction xs arbitrary: i)
  case (Cons x xs)
  show ?case
  proof (cases i)
    case 0
    then show ?thesis by (simp add: ac_simps)
  next
    case (Suc j)
    then have "(\<Sum>x \<leftarrow> xs[j := y]. f x) + f (xs ! j) = (\<Sum>x \<leftarrow> xs. f x) + f y" using Cons by simp
    then show ?thesis using Suc by (simp add: add.assoc)
  qed
qed simp

text \<open>Every step but a claim and an append works on one slot \<open>i\<close> and exchanges one token there.\<close>

lemma step_at_slot:
  assumes inv: "system_inv sys" and con: "conserved sys" and t: "t \<in># tokens sys" "slot_of t = i"
    and ts: "\<forall>u \<in># ts. slot_of u = i"
    and loc: "slot_inv i s' (tokens_at i sys - {#t#} + ts)"
    and val: "parked_value s' + (\<Sum>u \<in># ts. token_value u) + R =
      parked_value (slots sys ! i) + token_value t + E"
    and sys': "sys' = \<lparr>slots = (slots sys)[i := s'], tokens = tokens sys - {#t#} + ts,
      entered = entered sys + E, returned = returned sys + R\<rparr>"
  shows "system_inv sys' \<and> conserved sys'"
proof -
  have i: "i < length (slots sys)" using inv t by (auto simp: system_inv_def)
  have ts_i: "filter_mset (\<lambda>t. slot_of t = j) ts = (if j = i then ts else {#})" for j
    using ts by (auto simp: multiset_eq_iff count_filter_mset not_in_iff)
  have at_i: "tokens_at i sys' = tokens_at i sys - {#t#} + ts"
    using t(2) by (simp add: sys' tokens_at_def ts_i)
  have at_j: "tokens_at j sys' = tokens_at j sys" if "j \<noteq> i" for j
    using that t(2) by (simp add: sys' tokens_at_def ts_i)
  have "system_inv sys'"
    unfolding system_inv_def
  proof (intro conjI ballI allI impI)
    fix u assume "u \<in># tokens sys'"
    then have "u \<in># tokens sys \<or> u \<in># ts" by (auto simp: sys' dest: in_diffD)
    then show "slot_of u < length (slots sys')" using inv ts i by (auto simp: system_inv_def sys')
  next
    fix j assume "j < length (slots sys')"
    then show "slot_inv j (slots sys' ! j) (tokens_at j sys')"
      using inv loc i at_i at_j by (cases "j = i") (auto simp: system_inv_def sys')
  qed
  moreover have "conserved sys'"
  proof -
    let ?S = "\<Sum>s \<leftarrow> slots sys. parked_value s" and ?S' = "\<Sum>s \<leftarrow> slots sys'. parked_value s"
    let ?T = "\<Sum>t \<in># tokens sys. token_value t"
    have s: "?S' + parked_value (slots sys ! i) = ?S + parked_value s'"
      using sum_list_update_swap [OF i, of parked_value s'] by (simp add: sys')
    obtain T where T: "tokens sys = add_mset t T" using t(1) by (metis insert_DiffM)
    have c: "entered sys = returned sys + (?S + ?T)" using con by (simp add: conserved_def held_def)
    have "count (entered sys + E) x = count (returned sys + R + (?S' + (\<Sum>u \<in># T + ts. token_value u))) x" for x
      using arg_cong [OF c, of "\<lambda>m. count m x"] arg_cong [OF s, of "\<lambda>m. count m x"]
        arg_cong [OF val, of "\<lambda>m. count m x"] by (simp add: T)
    then show ?thesis by (simp add: conserved_def held_def sys' T multiset_eq_iff)
  qed
  ultimately show ?thesis by blast
qed


lemma token_slot_inv:
  assumes "system_inv sys" and "t \<in># tokens sys" and "slot_of t = i"
  shows "slot_inv i (slots sys ! i) (tokens_at i sys)" "t \<in># tokens_at i sys" "i < length (slots sys)"
  using assms by (auto simp: system_inv_def tokens_at_def)

lemmas slot_cases = slot_inv_def unused_unpark_def parked_value_def compare_exchange_def cell_write_def
  cell_read_def store_empty_def

lemma step_inv:
  assumes "park_step sys sys'" and inv: "system_inv sys" and con: "conserved sys"
  shows "system_inv sys' \<and> conserved sys'"
  using assms(1)
proof (cases rule: park_step.cases)
  case append
  have new: "slot_inv j slot_new {#}" "parked_value slot_new = {#}" for j
    by (simp_all add: slot_cases slot_new_def)
  have none: "tokens_at j sys = {#}" if "length (slots sys) \<le> j" for j
    using inv that by (auto simp: system_inv_def tokens_at_def filter_mset_eq_mempty_iff)
  have "sum_list (replicate n {#}) = {#}" for n by (induction n) auto
  then have "(\<Sum>s \<leftarrow> segment_new. parked_value s) = {#}"
    by (simp add: segment_new_def new)
  moreover have "slot_inv j (slots sys' ! j) (tokens_at j sys')" if "j < length (slots sys')" for j
  proof (cases "j < length (slots sys)")
    case True
    then show ?thesis using inv append by (simp add: system_inv_def tokens_at_def nth_append)
  next
    case False
    then have "tokens_at j sys' = {#}" using none [of j] append by (simp add: tokens_at_def)
    then show ?thesis using False that append new(1) by (simp add: nth_append segment_new_def)
  qed
  ultimately show ?thesis using inv con append
    by (auto simp: system_inv_def conserved_def held_def)
next
  case (claim i s')
  then have e: "state (slots sys ! i) = Empty" "s' = (slots sys ! i)\<lparr>state := Reserved\<rparr>"
    by (auto simp: compare_exchange_def split: if_splits)
  then have at: "tokens_at i sys = {#}" using inv claim(2) by (auto simp: system_inv_def slot_inv_def)
  have "(\<Sum>s \<leftarrow> (slots sys)[i := s']. parked_value s) = (\<Sum>s \<leftarrow> slots sys. parked_value s)"
    using sum_list_update_swap [OF claim(2), of parked_value s'] e by (simp add: parked_value_def)
  moreover have "slot_inv j (slots sys' ! j) (tokens_at j sys')" if "j < length (slots sys')" for j
    using that inv claim e at by (cases "j = i") (auto simp: system_inv_def tokens_at_def set_slot_def slot_inv_def)
  ultimately show ?thesis using inv con claim
    by (auto simp: system_inv_def conserved_def held_def set_slot_def)
next
  case (split i)
  show ?thesis
    by (rule step_at_slot [OF inv con split(2), where i = i and s' = "slots sys ! i" and ts = "{#PTicket i, UTicket i#}" and E = "{#}" and R = "{#}"])
      (use token_slot_inv [OF inv split(2) token.sel(1)] split in
        \<open>auto simp: slot_cases exchange_token_def set_slot_def
          split: slot_state.splits if_splits option.splits\<close>)
next
  case (release i)
  show ?thesis
    by (rule step_at_slot [OF inv con release(2), where i = i and s' = "store_empty (slots sys ! i)" and ts = "{#}" and E = "{#}" and R = "{#}"])
      (use token_slot_inv [OF inv release(2) token.sel(1)] release in
        \<open>auto simp: slot_cases exchange_token_def set_slot_def
          split: slot_state.splits if_splits option.splits\<close>)
next
  case (park_write i v)
  show ?thesis
    by (rule step_at_slot [OF inv con park_write(2), where i = i and s' = "cell_write v (slots sys ! i)" and ts = "{#PWrote i v#}" and E = "{#v#}" and R = "{#}"])
      (use token_slot_inv [OF inv park_write(2) token.sel(2)] park_write in
        \<open>auto simp: slot_cases exchange_token_def set_slot_def
          split: slot_state.splits if_splits option.splits\<close>)
next
  case (park_win i v s')
  show ?thesis
    by (rule step_at_slot [OF inv con park_win(2), where i = i and s' = "s'" and ts = "{#}" and E = "{#}" and R = "{#}"])
      (use token_slot_inv [OF inv park_win(2) token.sel(3)] park_win in
        \<open>auto simp: slot_cases exchange_token_def set_slot_def
          split: slot_state.splits if_splits option.splits\<close>)
next
  case (park_lose i v s')
  show ?thesis
    by (rule step_at_slot [OF inv con park_lose(2), where i = i and s' = "s'" and ts = "{#PLost i v#}" and E = "{#}" and R = "{#}"])
      (use token_slot_inv [OF inv park_lose(2) token.sel(3)] park_lose in
        \<open>auto simp: slot_cases exchange_token_def set_slot_def
          split: slot_state.splits if_splits option.splits\<close>)
next
  case (park_read i v w s')
  show ?thesis
    by (rule step_at_slot [OF inv con park_read(2), where i = i and s' = "s'" and ts = "{#PRead i w#}" and E = "{#}" and R = "{#}"])
      (use token_slot_inv [OF inv park_read(2) token.sel(4)] park_read in
        \<open>auto simp: slot_cases exchange_token_def set_slot_def
          split: slot_state.splits if_splits option.splits\<close>)
next
  case (park_store i w)
  show ?thesis
    by (rule step_at_slot [OF inv con park_store(2), where i = i and s' = "store_empty (slots sys ! i)" and ts = "{#}" and E = "{#}" and R = "{#w#}"])
      (use token_slot_inv [OF inv park_store(2) token.sel(5)] park_store in
        \<open>auto simp: slot_cases exchange_token_def set_slot_def
          split: slot_state.splits if_splits option.splits\<close>)
next
  case (into_waker i w)
  show ?thesis
    by (rule step_at_slot [OF inv con into_waker(2), where i = i and s' = "slots sys ! i" and ts = "{#InWaker i w#}" and E = "{#}" and R = "{#}"])
      (use token_slot_inv [OF inv into_waker(2) token.sel(6)] into_waker in
        \<open>auto simp: slot_cases exchange_token_def set_slot_def
          split: slot_state.splits if_splits option.splits\<close>)
next
  case (waker_fire i w)
  show ?thesis
    by (rule step_at_slot [OF inv con waker_fire(2), where i = i and s' = "slots sys ! i" and ts = "{#UTicket i#}" and E = "{#}" and R = "{#}"])
      (use token_slot_inv [OF inv waker_fire(2) token.sel(7)] waker_fire in
        \<open>auto simp: slot_cases exchange_token_def set_slot_def
          split: slot_state.splits if_splits option.splits\<close>)
next
  case (unpark_win i s')
  show ?thesis
    by (rule step_at_slot [OF inv con unpark_win(2), where i = i and s' = "s'" and ts = "{#}" and E = "{#}" and R = "{#}"])
      (use token_slot_inv [OF inv unpark_win(2) token.sel(6)] unpark_win in
        \<open>auto simp: slot_cases exchange_token_def set_slot_def
          split: slot_state.splits if_splits option.splits\<close>)
next
  case (unpark_lose i s')
  show ?thesis
    by (rule step_at_slot [OF inv con unpark_lose(2), where i = i and s' = "s'" and ts = "{#ULost i#}" and E = "{#}" and R = "{#}"])
      (use token_slot_inv [OF inv unpark_lose(2) token.sel(6)] unpark_lose in
        \<open>auto simp: slot_cases exchange_token_def set_slot_def
          split: slot_state.splits if_splits option.splits\<close>)
next
  case (unpark_read i w s')
  show ?thesis
    by (rule step_at_slot [OF inv con unpark_read(2), where i = i and s' = "s'" and ts = "{#URead i w#}" and E = "{#}" and R = "{#}"])
      (use token_slot_inv [OF inv unpark_read(2) token.sel(8)] unpark_read in
        \<open>auto simp: slot_cases exchange_token_def set_slot_def
          split: slot_state.splits if_splits option.splits\<close>)
next
  case (unpark_store i w)
  show ?thesis
    by (rule step_at_slot [OF inv con unpark_store(2), where i = i and s' = "store_empty (slots sys ! i)" and ts = "{#}" and E = "{#}" and R = "{#w#}"])
      (use token_slot_inv [OF inv unpark_store(2) token.sel(9)] unpark_store in
        \<open>auto simp: slot_cases exchange_token_def set_slot_def
          split: slot_state.splits if_splits option.splits\<close>)
qed

lemma reachable_inv: "park_reachable sys \<Longrightarrow> system_inv sys \<and> conserved sys"
proof (induction rule: park_reachable.induct)
  case start
  have "sum_list (replicate n {#}) = {#}" for n by (induction n) auto
  then show ?case
    by (auto simp: system_start_def system_inv_def conserved_def held_def tokens_at_def segment_new_def
        slot_inv_def slot_new_def parked_value_def)
next
  case (step sys sys')
  then show ?case using step_inv by blast
qed


section \<open>Reserving\<close>

lemma claim_None: "claim seg = None \<longleftrightarrow> (\<forall>s \<in> set seg. state s \<noteq> Empty)"
  by (induction seg) (auto simp: compare_exchange_def)

lemma claim_Some:
  "claim seg = Some (i, seg') \<longleftrightarrow> i < length seg \<and> state (seg ! i) = Empty \<and>
     (\<forall>j < i. state (seg ! j) \<noteq> Empty) \<and> seg' = seg[i := (seg ! i)\<lparr>state := Reserved\<rparr>]"
proof (induction seg arbitrary: i seg')
  case (Cons s seg)
  show ?case
  proof (cases i)
    case 0
    then show ?thesis by (auto simp: compare_exchange_def)
  next
    case (Suc j)
    have "claim (s # seg) = Some (Suc j, seg') \<longleftrightarrow>
        state s \<noteq> Empty \<and> (\<exists>t. seg' = s # t \<and> claim seg = Some (j, t))"
      by (auto simp: compare_exchange_def)
    then show ?thesis by (auto simp: Suc Cons All_less_Suc2)
  qed
qed simp

lemma try_reserve_None: "try_reserve lot = None \<longleftrightarrow> filter (\<lambda>s. state s = Empty) (concat lot) = []"
proof (induction lot)
  case (Cons seg lot)
  then show ?case using claim_None [of seg] by (cases "claim seg") (auto simp: filter_empty_conv)
qed simp

lemma try_reserve_Some:
  "try_reserve lot = Some ((k, i), lot') \<Longrightarrow>
     k < length lot \<and> i < length (lot ! k) \<and> state (lot ! k ! i) = Empty \<and>
     lot' = lot[k := (lot ! k)[i := (lot ! k ! i)\<lparr>state := Reserved\<rparr>]]"
proof (induction lot arbitrary: k lot')
  case (Cons seg lot)
  show ?case
  proof (cases "claim seg")
    case None
    then obtain k' l where "k = Suc k'" "lot' = seg # l" "try_reserve lot = Some ((k', i), l)"
      using Cons.prems by auto
    then show ?thesis using Cons.IH by auto
  next
    case (Some r)
    obtain a seg' where c: "claim seg = Some (a, seg')" using Some by (cases r) auto
    then have "k = 0" "i = a" "lot' = seg' # lot" using Cons.prems by auto
    then show ?thesis using claim_Some [of seg a seg'] c by auto
  qed
qed simp

lemma claim_fresh: "claim segment_new = Some (0, segment_new[0 := slot_new\<lparr>state := Reserved\<rparr>])"
  by (simp add: claim_Some segment_new_def SEGMENT_SLOTS_def slot_new_def)

lemma fresh_segment: "segment_new \<noteq> []" "segment_new ! 0 = slot_new" "state slot_new = Empty"
  by (simp_all add: segment_new_def SEGMENT_SLOTS_def slot_new_def)

lemma reserve_eq:
  "reserve lot = (case try_reserve lot of
     Some r \<Rightarrow> Some r
   | None \<Rightarrow> Some ((length lot, 0), lot @ [segment_new[0 := slot_new\<lparr>state := Reserved\<rparr>]]))"
  by (induction lot) (auto simp: claim_fresh split: option.splits)

section \<open>Properties\<close>

text \<open>C14: However the operations of any number of threads interleave: while a reservation exists
  it is the only right to its slot, a slot has at most one park side and one unpark side, and both
  racing paths that read a cell find the value the park wrote.\<close>

theorem parking_rights_exclusive:
  assumes "park_reachable sys"
  shows "(Resv i \<in># tokens sys \<longrightarrow> tokens_at i sys = {#Resv i#}) \<and>
    size (filter_mset (\<lambda>t. case t of PTicket _ \<Rightarrow> True | PWrote _ _ \<Rightarrow> True | PLost _ _ \<Rightarrow> True
      | PRead _ _ \<Rightarrow> True | _ \<Rightarrow> False) (tokens_at i sys)) \<le> 1 \<and>
    size (filter_mset (\<lambda>t. case t of UTicket _ \<Rightarrow> True | InWaker _ _ \<Rightarrow> True | ULost _ \<Rightarrow> True
      | URead _ _ \<Rightarrow> True | _ \<Rightarrow> False) (tokens_at i sys)) \<le> 1 \<and>
    (PLost i v \<in># tokens sys \<longrightarrow> state (slots sys ! i) = Unparked \<and> cell (slots sys ! i) = Some v) \<and>
    (ULost i \<in># tokens sys \<longrightarrow> state (slots sys ! i) = Occupied \<and> cell (slots sys ! i) \<noteq> None)"
proof -
  have inv: "system_inv sys" using reachable_inv [OF assms] by blast
  have none: "tokens_at i sys = {#}" if "\<not> i < length (slots sys)"
    using inv that by (auto simp: system_inv_def tokens_at_def filter_mset_eq_mempty_iff)
  have mem: "t \<in># tokens sys \<and> slot_of t = i \<longleftrightarrow> t \<in># tokens_at i sys" for t
    by (auto simp: tokens_at_def)
  have "slot_inv i (slots sys ! i) (tokens_at i sys)" if "i < length (slots sys)"
    using inv that by (simp add: system_inv_def)
  then show ?thesis
    using none mem [of "Resv i"] mem [of "PLost i v"] mem [of "ULost i"]
    by (cases "i < length (slots sys)")
      (auto simp: slot_inv_def unused_unpark_def split: slot_state.splits)
qed

definition demo_system :: "nat system" where
  "demo_system = (set_slot 0 (slot_new\<lparr>state := Reserved\<rparr>) system_start)\<lparr>tokens := {#Resv 0#}\<rparr>"

lemma demo_system_reachable: "park_reachable demo_system"
proof -
  have "park_step system_start
      ((set_slot 0 (slot_new\<lparr>state := Reserved\<rparr>) system_start)\<lparr>tokens := add_mset (Resv 0) (tokens system_start)\<rparr>)"
    by (rule park_step.claim)
      (simp_all add: system_start_def segment_new_def SEGMENT_SLOTS_def compare_exchange_def slot_new_def)
  then show ?thesis
    using park_reachable.step [OF park_reachable.start] by (simp add: demo_system_def system_start_def set_slot_def)
qed

theorem parking_rights_exclusive_witness: "tokens_at 0 demo_system = {#Resv 0#}"
  using parking_rights_exclusive [OF demo_system_reachable, of 0] by (simp add: demo_system_def)

text \<open>C15: However the operations interleave, every value given to \<open>park\<close> is handed back at most
  once, by the park that came too late or by the unpark, and until then it is held by its slot or
  by an operation in flight; so with no operation in flight and no slot occupied exactly the values
  that were parked have come back.\<close>

theorem parked_values_conserved:
  assumes "park_reachable sys"
  shows "entered sys = returned sys + held sys \<and>
    (tokens sys = {#} \<longrightarrow> returned sys = entered sys)"
proof -
  have inv: "system_inv sys" and con: "entered sys = returned sys + held sys"
    using reachable_inv [OF assms] by (auto simp: conserved_def)
  have "held sys = {#}" if "tokens sys = {#}"
  proof -
    have "parked_value s = {#}" if "s \<in> set (slots sys)" for s
      using inv that \<open>tokens sys = {#}\<close>
      by (auto simp: system_inv_def tokens_at_def slot_inv_def parked_value_def in_set_conv_nth
          split: slot_state.splits)
    moreover have "(\<Sum>s \<leftarrow> xs. parked_value s) = {#}" if "\<forall>s \<in> set xs. parked_value s = {#}" for xs :: "'a slot list"
      using that by (induction xs) auto
    ultimately show ?thesis using that by (simp add: held_def)
  qed
  then show ?thesis using con by auto
qed

text \<open>A value that is parked in the first slot and handed back by an unpark that comes later.\<close>

definition first_slot :: "slot_state \<Rightarrow> nat option \<Rightarrow> nat token multiset \<Rightarrow> nat multiset \<Rightarrow> nat multiset \<Rightarrow> nat system" where
  "first_slot st c T e r = \<lparr>slots = \<lparr>state = st, cell = c\<rparr> # tl segment_new, tokens = T, entered = e, returned = r\<rparr>"

lemma first_slot_steps:
  "demo_system = first_slot Reserved None {#Resv 0#} {#} {#}"
  "park_step (first_slot Reserved None {#Resv 0#} {#} {#}) (first_slot Reserved None {#PTicket 0, UTicket 0#} {#} {#})"
  "park_step (first_slot Reserved None {#PTicket 0, UTicket 0#} {#} {#})
     (first_slot Reserved (Some 7) {#PWrote 0 7, UTicket 0#} {#7#} {#})"
  "park_step (first_slot Reserved (Some 7) {#PWrote 0 7, UTicket 0#} {#7#} {#})
     (first_slot Occupied (Some 7) {#UTicket 0#} {#7#} {#})"
  "park_step (first_slot Occupied (Some 7) {#UTicket 0#} {#7#} {#}) (first_slot Occupied (Some 7) {#ULost 0#} {#7#} {#})"
  "park_step (first_slot Occupied (Some 7) {#ULost 0#} {#7#} {#}) (first_slot Occupied None {#URead 0 7#} {#7#} {#})"
  "park_step (first_slot Occupied None {#URead 0 7#} {#7#} {#}) (first_slot Empty None {#} {#7#} {#7#})"
proof -
  note defs = first_slot_def set_slot_def exchange_token_def cell_write_def cell_read_def store_empty_def
    compare_exchange_def
  show "demo_system = first_slot Reserved None {#Resv 0#} {#} {#}"
    by (simp add: demo_system_def system_start_def segment_new_def SEGMENT_SLOTS_def slot_new_def defs numeral_eq_Suc)
  show "park_step (first_slot Reserved None {#Resv 0#} {#} {#}) (first_slot Reserved None {#PTicket 0, UTicket 0#} {#} {#})"
    using park_step.split [of 0 "first_slot Reserved None {#Resv 0#} {#} {#}"] by (simp add: defs)
  show "park_step (first_slot Reserved None {#PTicket 0, UTicket 0#} {#} {#})
     (first_slot Reserved (Some 7) {#PWrote 0 7, UTicket 0#} {#7#} {#})"
    using park_step.park_write [of 0 "first_slot Reserved None {#PTicket 0, UTicket 0#} {#} {#}" 7] by (simp add: defs)
  show "park_step (first_slot Reserved (Some 7) {#PWrote 0 7, UTicket 0#} {#7#} {#})
     (first_slot Occupied (Some 7) {#UTicket 0#} {#7#} {#})"
    using park_step.park_win [of 0 7 "first_slot Reserved (Some 7) {#PWrote 0 7, UTicket 0#} {#7#} {#}"] by (simp add: defs)
  show "park_step (first_slot Occupied (Some 7) {#UTicket 0#} {#7#} {#}) (first_slot Occupied (Some 7) {#ULost 0#} {#7#} {#})"
    using park_step.unpark_lose [of 0 "first_slot Occupied (Some 7) {#UTicket 0#} {#7#} {#}"] by (simp add: defs)
  show "park_step (first_slot Occupied (Some 7) {#ULost 0#} {#7#} {#}) (first_slot Occupied None {#URead 0 7#} {#7#} {#})"
    using park_step.unpark_read [of 0 "first_slot Occupied (Some 7) {#ULost 0#} {#7#} {#}" 7] by (simp add: defs)
  show "park_step (first_slot Occupied None {#URead 0 7#} {#7#} {#}) (first_slot Empty None {#} {#7#} {#7#})"
    using park_step.unpark_store [of 0 7 "first_slot Occupied None {#URead 0 7#} {#7#} {#}"] by (simp add: defs)
qed

theorem parked_values_conserved_witness:
  "held (first_slot Occupied (Some 7) {#UTicket 0#} {#7#} {#}) = {#7#} \<and>
   returned (first_slot Empty None {#} {#7#} {#7#}) = entered (first_slot Empty None {#} {#7#} {#7#})"
proof -
  have parked: "park_reachable (first_slot Occupied (Some 7) {#UTicket 0#} {#7#} {#})"
    using demo_system_reachable first_slot_steps(1-4) park_reachable.step by metis
  then have "park_reachable (first_slot Empty None {#} {#7#} {#7#})"
    using first_slot_steps(5-7) park_reachable.step by metis
  from parked_values_conserved [OF parked] parked_values_conserved [OF this]
  show ?thesis by (simp add: first_slot_def)
qed

text \<open>C16: On a reserved slot the two sides get consistent answers in either order: park first
  succeeds and the unpark gets the value; unpark first gets nothing and the park hands its value
  back. Both ways the slot ends up free for reuse. A waker fires at most once.\<close>

theorem park_unpark_race:
  assumes "state s = Reserved"
  shows "(\<exists>s1 s2. park v s = Ok (Ok (), s1) \<and> unpark s1 = Ok (Some v, s2) \<and> state s2 = Empty) \<and>
    (\<exists>s1 s2. unpark s = Ok (None, s1) \<and> park v s1 = Ok (Err (ErrUnparked v), s2) \<and> state s2 = Empty) \<and>
    (wake f w lot = Ok (r, w', lot') \<longrightarrow> wake f w' lot' = Ok (None, None, lot'))"
  using assms
  by (auto simp: park_def unpark_def compare_exchange_def cell_write_def cell_read_def store_empty_def
      wake_def pointer_swap_null_def outcome_simps split: option.splits)

theorem park_unpark_race_witness:
  "\<exists>s1 s2. unpark \<lparr>state = Reserved, cell = None\<rparr> = Ok (None, s1) \<and>
     park (7 :: nat) s1 = Ok (Err (ErrUnparked 7), s2) \<and> state s2 = Empty"
proof -
  have "state \<lparr>state = Reserved, cell = None\<rparr> = Reserved" by simp
  from park_unpark_race [OF this, of "7 :: nat", THEN conjunct2, THEN conjunct1] show ?thesis .
qed

text \<open>C17: \<open>reserve\<close> always claims a slot: an empty one of the existing segments if there is any,
  the first of an appended segment otherwise; \<open>try_reserve\<close> fails exactly when no slot is empty.
  No other slot changes.\<close>

theorem reserve_claims_empty:
  "(try_reserve lot = None \<longleftrightarrow> filter (\<lambda>s. state s = Empty) (concat lot) = []) \<and>
   (case reserve lot of
      None \<Rightarrow> False
    | Some ((k, i), lot') \<Rightarrow>
        let base = (if try_reserve lot = None then lot @ [segment_new] else lot) in
        k < length base \<and> i < length (base ! k) \<and> state (base ! k ! i) = Empty \<and>
        lot' = base[k := (base ! k)[i := (base ! k ! i)\<lparr>state := Reserved\<rparr>]])"
proof (cases "try_reserve lot")
  case None
  then show ?thesis using try_reserve_None [of lot] by (simp add: reserve_eq Let_def fresh_segment)
next
  case (Some r)
  obtain k i lot' where r: "r = ((k, i), lot')" by (metis prod.collapse)
  then show ?thesis using Some try_reserve_None [of lot] try_reserve_Some [of lot k i lot']
    by (simp add: reserve_eq Let_def)
qed

end
