(* ===== verification/Vfs_Path.thy ===== *)
theory Vfs_Path
  imports Muffin_Prelude
begin

text \<open>
  Paths (\<open>kernel/vfs/src/path\<close>): \<open>Path\<close>, \<open>OwnedPath\<close> and their absolute variants are strings;
  their parents, their file names and the pushing of components. A string is the list of its
  Unicode scalar values; the code computes with byte offsets, which count the bytes of the UTF-8
  encoding, and a slice that cuts a character panics.
\<close>

section \<open>Strings\<close>

type_synonym rstr = "nat list"

definition utf8_len :: "nat \<Rightarrow> nat" where
  "utf8_len c = (if c < 0x80 then 1 else if c < 0x800 then 2 else if c < 0x10000 then 3 else 4)"

definition byte_len :: "rstr \<Rightarrow> nat" where
  "byte_len s = sum_list (map utf8_len s)"

text \<open>\<open>&s[..k]\<close> and \<open>&s[k..]\<close> for a byte offset \<open>k\<close>.\<close>

fun slice_to :: "nat \<Rightarrow> rstr \<Rightarrow> ('e, rstr) outcome" where
  "slice_to 0 s = Ok []"
| "slice_to (Suc k) [] = Panic"
| "slice_to (Suc k) (c # s) = (if utf8_len c \<le> Suc k
     then obind (slice_to (Suc k - utf8_len c) s) (\<lambda>r. Ok (c # r)) else Panic)"

fun slice_from :: "nat \<Rightarrow> rstr \<Rightarrow> ('e, rstr) outcome" where
  "slice_from 0 s = Ok s"
| "slice_from (Suc k) [] = Panic"
| "slice_from (Suc k) (c # s) = (if utf8_len c \<le> Suc k then slice_from (Suc k - utf8_len c) s else Panic)"

definition slice_str :: "nat \<Rightarrow> nat \<Rightarrow> rstr \<Rightarrow> ('e, rstr) outcome" where
  "slice_str a b s = (if a \<le> b then obind (slice_to b s) (slice_from a) else Panic)"

text \<open>\<open>str::rfind\<close>, also of a closure: the byte offset of the last character that satisfies \<open>P\<close>.\<close>

primrec rfind :: "(nat \<Rightarrow> bool) \<Rightarrow> rstr \<Rightarrow> nat option" where
  "rfind P [] = None"
| "rfind P (c # s) = (case rfind P s of
     Some k \<Rightarrow> Some (utf8_len c + k)
   | None \<Rightarrow> if P c then Some 0 else None)"

text \<open>\<open>core::str::from_utf8\<close>: one to four bytes per character, no overlong forms, no surrogates, nothing
  above \<open>10FFFF\<close>.\<close>

definition cont :: "u8 \<Rightarrow> bool" where
  "cont b \<longleftrightarrow> 0x80 \<le> b \<and> b < 0xC0"

definition low6 :: "u8 \<Rightarrow> nat" where
  "low6 b = unat b mod 64"

fun from_utf8 :: "bytes \<Rightarrow> rstr option" where
  "from_utf8 [] = Some []"
| "from_utf8 (a # r) =
    (if a < 0x80 then map_option (Cons (unat a)) (from_utf8 r)
     else case r of
       [] \<Rightarrow> None
     | b # r2 \<Rightarrow>
         if \<not> cont b then None
         else if 0xC2 \<le> a \<and> a < 0xE0
         then map_option (Cons (unat a mod 32 * 64 + low6 b)) (from_utf8 r2)
         else (case r2 of
           [] \<Rightarrow> None
         | c # r3 \<Rightarrow>
             if \<not> cont c then None
             else if 0xE0 \<le> a \<and> a < 0xF0
             then if (a = 0xE0 \<longrightarrow> 0xA0 \<le> b) \<and> (a = 0xED \<longrightarrow> b < 0xA0)
               then map_option (Cons (unat a mod 16 * 4096 + low6 b * 64 + low6 c)) (from_utf8 r3) else None
             else (case r3 of
               [] \<Rightarrow> None
             | d # r4 \<Rightarrow>
                 if cont d \<and> 0xF0 \<le> a \<and> a < 0xF5 \<and> (a = 0xF0 \<longrightarrow> 0x90 \<le> b) \<and> (a = 0xF4 \<longrightarrow> b < 0x90)
                 then map_option (Cons (unat a mod 8 * 262144 + low6 b * 4096 + low6 c * 64 + low6 d)) (from_utf8 r4)
                 else None)))"

section \<open>Path\<close>

definition FILEPATH_SEPARATOR :: nat where
  "FILEPATH_SEPARATOR = 47"

definition ROOT :: rstr where
  "ROOT = [FILEPATH_SEPARATOR]"

definition is_absolute :: "rstr \<Rightarrow> bool" where
  "is_absolute s \<longleftrightarrow> s \<noteq> [] \<and> hd s = FILEPATH_SEPARATOR"

definition is_relative :: "rstr \<Rightarrow> bool" where
  "is_relative s \<longleftrightarrow> \<not> is_absolute s"

definition parent :: "rstr \<Rightarrow> rstr opt_outcome" where
  "parent s = (if s = [] then Err ()
    else case rfind (\<lambda>c. c \<noteq> FILEPATH_SEPARATOR) s of
      None \<Rightarrow> Err ()
    | Some last_non_sep_pos \<Rightarrow>
        obind (slice_to (last_non_sep_pos + 1) s) (\<lambda>upto.
        case rfind (\<lambda>c. c = FILEPATH_SEPARATOR) upto of
          Some sep \<Rightarrow>
            obind (slice_to sep s) (\<lambda>before.
            case rfind (\<lambda>c. c \<noteq> FILEPATH_SEPARATOR) before of
              Some pos \<Rightarrow> slice_to (pos + 1) s
            | None \<Rightarrow> Err ())
        | None \<Rightarrow> if s = [46] \<or> s = [46, 46] then Ok s else Err ()))"

section \<open>File names\<close>

text \<open>\<open>CharIndices\<close>: the byte offset of the next character and the characters left between the two
  ends.\<close>

record char_indices =
  ci_offset :: nat
  ci_rest :: rstr

primrec ci_find :: "(nat \<Rightarrow> bool) \<Rightarrow> nat \<Rightarrow> rstr \<Rightarrow> nat option \<times> char_indices" where
  "ci_find P k [] = (None, \<lparr>ci_offset = k, ci_rest = []\<rparr>)"
| "ci_find P k (c # s) = (if P c then (Some k, \<lparr>ci_offset = k + utf8_len c, ci_rest = s\<rparr>)
     else ci_find P (k + utf8_len c) s)"

definition ci_find_next :: "(nat \<Rightarrow> bool) \<Rightarrow> char_indices \<Rightarrow> nat option \<times> char_indices" where
  "ci_find_next P c = ci_find P (ci_offset c) (ci_rest c)"

definition ci_rfind :: "(nat \<Rightarrow> bool) \<Rightarrow> char_indices \<Rightarrow> nat option \<times> char_indices" where
  "ci_rfind P c =
    (let kept = dropWhile (\<lambda>x. \<not> P x) (rev (ci_rest c)) in
     case kept of
       [] \<Rightarrow> (None, c\<lparr>ci_rest := []\<rparr>)
     | x # xs \<Rightarrow> (Some (ci_offset c + byte_len (rev xs)), c\<lparr>ci_rest := rev xs\<rparr>))"

record filenames =
  fn_inner :: rstr
  fn_chars :: char_indices
  index_front :: nat
  index_back :: nat

definition filenames_new :: "rstr \<Rightarrow> filenames" where
  "filenames_new p = \<lparr>fn_inner = p, fn_chars = \<lparr>ci_offset = 0, ci_rest = p\<rparr>,
    index_front = 0, index_back = byte_len p\<rparr>"

text \<open>An exhausted iterator answers \<open>Err ()\<close>, which is \<open>None\<close>.\<close>

definition filenames_next :: "filenames \<Rightarrow> (unit, rstr, filenames) run" where
  "filenames_next f =
    (if fn_inner f = [] \<or> index_back f \<le> index_front f then (Err (), f)
     else case ci_find_next (\<lambda>c. c \<noteq> FILEPATH_SEPARATOR) (fn_chars f) of
       (None, cs) \<Rightarrow> (Err (), f\<lparr>fn_chars := cs\<rparr>)
     | (Some _, cs) \<Rightarrow>
         let front = ci_offset cs - 1 in
         (case ci_find_next (\<lambda>c. c = FILEPATH_SEPARATOR) cs of (next_pos, cs) \<Rightarrow>
          let f = f\<lparr>fn_chars := cs, index_front := front\<rparr> in
          if next_pos \<noteq> None \<or> front < index_back f then
            lift_pure (slice_str front (ci_offset cs - (if next_pos = None then 0 else 1)) (fn_inner f)) f (\<lambda>name.
            (Ok name, f\<lparr>index_front := ci_offset cs\<rparr>))
          else (Err (), f)))"

definition filenames_next_back :: "filenames \<Rightarrow> (unit, rstr, filenames) run" where
  "filenames_next_back f =
    (if fn_inner f = [] then (Err (), f)
     else case ci_rfind (\<lambda>c. c \<noteq> FILEPATH_SEPARATOR) (fn_chars f) of (r, cs) \<Rightarrow>
       let back = (case r of None \<Rightarrow> 0 | Some k \<Rightarrow> k + 1) in
       (case ci_rfind (\<lambda>c. c = FILEPATH_SEPARATOR) cs of (r, cs) \<Rightarrow>
        let prev_pos = (case r of None \<Rightarrow> index_front f | Some k \<Rightarrow> k + 1);
            f = f\<lparr>fn_chars := cs, index_back := back\<rparr> in
        if index_front f < back then
          lift_pure (slice_str prev_pos back (fn_inner f)) f (\<lambda>name. (Ok name, f\<lparr>index_back := prev_pos\<rparr>))
        else (Err (), f)))"

definition file_name :: "rstr \<Rightarrow> rstr opt_outcome" where
  "file_name p = fst (filenames_next_back (filenames_new p))"

text \<open>A loop over the names, \<open>for name in path.filenames()\<close>.\<close>

lemma ci_find_rest: "length (ci_rest (snd (ci_find P k s))) \<le> length s"
  "fst (ci_find P k s) \<noteq> None \<Longrightarrow> length (ci_rest (snd (ci_find P k s))) < length s"
proof -
  show le: "length (ci_rest (snd (ci_find P k s))) \<le> length s" for k s
    by (induction s arbitrary: k) (auto intro: le_SucI)
  show "fst (ci_find P k s) \<noteq> None \<Longrightarrow> length (ci_rest (snd (ci_find P k s))) < length s"
    by (induction s arbitrary: k) (auto intro: less_SucI)
qed

lemma filenames_next_rest:
  assumes "filenames_next f = (Ok name, f')"
  shows "length (ci_rest (fn_chars f')) < length (ci_rest (fn_chars f))"
proof -
  obtain r cs where 1: "ci_find_next (\<lambda>c. c \<noteq> FILEPATH_SEPARATOR) (fn_chars f) = (r, cs)" by fastforce
  obtain r2 cs2 where 2: "ci_find_next (\<lambda>c. c = FILEPATH_SEPARATOR) cs = (r2, cs2)" by fastforce
  have "r \<noteq> None" "fn_chars f' = cs2"
    using assms 1 2 by (auto simp: filenames_next_def Let_def outcome_simps split: if_splits option.splits)
  then show ?thesis
    using ci_find_rest(2) [of "\<lambda>c. c \<noteq> FILEPATH_SEPARATOR" "ci_offset (fn_chars f)" "ci_rest (fn_chars f)"]
      ci_find_rest(1) [of "\<lambda>c. c = FILEPATH_SEPARATOR" "ci_offset cs" "ci_rest cs"] 1 2
    by (simp add: ci_find_next_def)
qed

function filenames_collect :: "filenames \<Rightarrow> rstr list opt_outcome" where
  "filenames_collect f = (case filenames_next f of
     (Ok name, f') \<Rightarrow> obind (filenames_collect f') (\<lambda>names. Ok (name # names))
   | (Err _, f') \<Rightarrow> Ok []
   | (Panic, f') \<Rightarrow> Panic)"
  by auto

termination
  by (relation "measure (\<lambda>f. length (ci_rest (fn_chars f)))") (auto dest: filenames_next_rest [OF sym])

section \<open>Owned paths\<close>

definition append_str :: "rstr \<Rightarrow> rstr \<Rightarrow> rstr" where
  "append_str s other = s @ other"

definition ends_with_sep :: "rstr \<Rightarrow> bool" where
  "ends_with_sep s \<longleftrightarrow> s \<noteq> [] \<and> last s = FILEPATH_SEPARATOR"

definition push_path :: "rstr \<Rightarrow> rstr \<Rightarrow> rstr" where
  "push_path s other =
    (if \<not> ends_with_sep s then s @ [FILEPATH_SEPARATOR]
     else if other = [] then s @ [FILEPATH_SEPARATOR]
     else s) @ other"

datatype path_not_absolute_error = PathNotAbsoluteError

definition absolute_path_try_new :: "rstr \<Rightarrow> (path_not_absolute_error, rstr) outcome" where
  "absolute_path_try_new p = (if is_absolute p then Ok p else Err PathNotAbsoluteError)"

definition absolute_owned_path_try_from :: "rstr \<Rightarrow> (path_not_absolute_error, rstr) outcome" where
  "absolute_owned_path_try_from p = (if is_absolute p then Ok p else Err PathNotAbsoluteError)"

definition absolute_owned_path_new :: rstr where
  "absolute_owned_path_new = [FILEPATH_SEPARATOR]"

definition make_absolute :: "rstr \<Rightarrow> rstr" where
  "make_absolute s = (case absolute_path_try_new s of
     Ok p \<Rightarrow> p
   | _ \<Rightarrow> if s = [] then absolute_owned_path_new else push_path absolute_owned_path_new s)"

declare filenames_collect.simps [simp del]

section \<open>Paths of single-byte characters\<close>

definition ascii :: "rstr \<Rightarrow> bool" where
  "ascii s \<longleftrightarrow> (\<forall>c \<in> set s. c < 0x80)"

lemma ascii_simps [simp]:
  "ascii []" "ascii (c # s) \<longleftrightarrow> c < 0x80 \<and> ascii s" "ascii (s @ t) \<longleftrightarrow> ascii s \<and> ascii t"
  "ascii s \<Longrightarrow> ascii (take k s)" "ascii s \<Longrightarrow> ascii (drop k s)"
  by (auto simp: ascii_def dest: in_set_takeD in_set_dropD)

lemma ascii_len: "c < 0x80 \<Longrightarrow> utf8_len c = 1" "ascii s \<Longrightarrow> byte_len s = length s"
proof -
  show 1: "c < 0x80 \<Longrightarrow> utf8_len c = 1" for c by (simp add: utf8_len_def)
  show "ascii s \<Longrightarrow> byte_len s = length s" by (induction s) (simp_all add: byte_len_def 1)
qed

lemma ascii_slice_to: "ascii s \<Longrightarrow> slice_to k s = (if k \<le> length s then Ok (take k s) else Panic)"
  by (induction k s rule: slice_to.induct) (auto simp: ascii_len)

lemma ascii_slice_from: "ascii s \<Longrightarrow> slice_from k s = (if k \<le> length s then Ok (drop k s) else Panic)"
  by (induction k s rule: slice_from.induct) (auto simp: ascii_len)

lemma ascii_slice_str:
  "ascii s \<Longrightarrow> a \<le> b \<Longrightarrow> b \<le> length s \<Longrightarrow> slice_str a b s = Ok (slice a b s)"
  by (simp add: slice_str_def ascii_slice_to ascii_slice_from slice_def drop_take)

text \<open>The last position with a property.\<close>

lemma ascii_rfind_Some:
  "ascii s \<Longrightarrow> rfind P s = Some k \<Longrightarrow> \<exists>x c y. s = x @ c # y \<and> length x = k \<and> P c \<and> list_all (\<lambda>c. \<not> P c) y"
proof (induction s arbitrary: k)
  case (Cons c s)
  show ?case
  proof (cases "rfind P s")
    case None
    then have "list_all (\<lambda>c. \<not> P c) s" by (induction s) (auto split: option.splits if_splits)
    then show ?thesis using Cons.prems None by (auto split: if_splits intro!: exI [of _ "[]"])
  next
    case (Some j)
    then obtain x d y where "s = x @ d # y" "length x = j" "P d" "list_all (\<lambda>c. \<not> P c) y"
      using Cons by auto
    moreover have "k = Suc j" using Cons.prems Some by (simp add: ascii_len)
    ultimately show ?thesis by (intro exI [of _ "c # x"]) auto
  qed
qed simp

lemma rfind_None: "rfind P s = None \<longleftrightarrow> list_all (\<lambda>c. \<not> P c) s"
  by (induction s) (auto split: option.splits)

lemma ascii_rfind:
  "ascii (x @ c # y) \<Longrightarrow> P c \<Longrightarrow> list_all (\<lambda>c. \<not> P c) y \<Longrightarrow> rfind P (x @ c # y) = Some (length x)"
proof (induction x)
  case Nil
  then have "rfind P y = None" by (simp add: rfind_None)
  then show ?case using Nil by simp
next
  case (Cons d x)
  then show ?case by (simp add: ascii_len)
qed

lemma ascii_ci_find:
  "ascii s \<Longrightarrow> list_all (\<lambda>c. \<not> P c) s \<Longrightarrow> ci_find P k s = (None, \<lparr>ci_offset = k + length s, ci_rest = []\<rparr>)"
  "ascii (s @ c # t) \<Longrightarrow> list_all (\<lambda>c. \<not> P c) s \<Longrightarrow> P c \<Longrightarrow>
    ci_find P k (s @ c # t) = (Some (k + length s), \<lparr>ci_offset = Suc (k + length s), ci_rest = t\<rparr>)"
  by (induction s arbitrary: k) (simp_all add: ascii_len)

section \<open>Components\<close>

text \<open>The nonempty parts between separators.\<close>

primrec split_sep :: "rstr \<Rightarrow> rstr list" where
  "split_sep [] = [[]]"
| "split_sep (c # s) = (if c = FILEPATH_SEPARATOR then [] # split_sep s
     else (c # hd (split_sep s)) # tl (split_sep s))"

definition components :: "rstr \<Rightarrow> rstr list" where
  "components s = filter (\<lambda>x. x \<noteq> []) (split_sep s)"

abbreviation no_sep :: "rstr \<Rightarrow> bool" where
  "no_sep \<equiv> list_all (\<lambda>c. c \<noteq> FILEPATH_SEPARATOR)"

abbreviation all_sep :: "rstr \<Rightarrow> bool" where
  "all_sep \<equiv> list_all (\<lambda>c. c = FILEPATH_SEPARATOR)"

lemma split_sep_not_Nil [simp]: "split_sep s \<noteq> []"
  by (induction s) auto

lemma split_sep_append_sep: "split_sep (s @ FILEPATH_SEPARATOR # t) = split_sep s @ split_sep t"
  by (induction s) auto

lemma components_simps:
  "components [] = []"
  "components (FILEPATH_SEPARATOR # s) = components s"
  "components (s @ FILEPATH_SEPARATOR # t) = components s @ components t"
  by (simp_all add: components_def split_sep_append_sep)

lemma components_no_sep: "no_sep x \<Longrightarrow> x \<noteq> [] \<Longrightarrow> components x = [x]"
proof -
  have "no_sep x \<Longrightarrow> split_sep x = [x]" by (induction x) auto
  then show "no_sep x \<Longrightarrow> x \<noteq> [] \<Longrightarrow> components x = [x]" by (simp add: components_def)
qed

lemma components_all_sep: "all_sep x \<Longrightarrow> components (x @ s) = components s"
  by (induction x) (simp_all add: components_simps)

text \<open>The first name of a string, and what follows it.\<close>

lemma first_name_cases:
  obtains (none) "all_sep s"
  | (final) x c y where "s = x @ c # y" "all_sep x" "c \<noteq> FILEPATH_SEPARATOR" "no_sep y"
  | (more) x c y z where "s = x @ c # y @ FILEPATH_SEPARATOR # z" "all_sep x" "c \<noteq> FILEPATH_SEPARATOR" "no_sep y"
proof (cases "all_sep s")
  case False
  define x where "x = takeWhile (\<lambda>c. c = FILEPATH_SEPARATOR) s"
  define r where "r = dropWhile (\<lambda>c. c = FILEPATH_SEPARATOR) s"
  have "r \<noteq> []" using False by (auto simp: r_def list_all_iff)
  then obtain c t where r: "r = c # t" by (cases r) auto
  have c: "c \<noteq> FILEPATH_SEPARATOR"
    using hd_dropWhile [of "\<lambda>c. c = FILEPATH_SEPARATOR" s] \<open>r \<noteq> []\<close> r by (simp add: r_def)
  have x: "all_sep x" by (auto simp: x_def list_all_iff dest: set_takeWhileD)
  have "s = x @ r" by (simp add: x_def r_def)
  then have s: "s = x @ c # t" using r by simp
  show thesis
  proof (cases "no_sep t")
    case True
    then show thesis using final s x c by blast
  next
    case False
    then obtain y z where "t = y @ FILEPATH_SEPARATOR # z" "no_sep y"
      using split_list_first [of FILEPATH_SEPARATOR t] by (auto simp: list_all_iff)
    then show thesis using more s x c by blast
  qed
qed (rule none)

lemma collect_from:
  assumes "ascii p" and "k \<le> length p"
    and "f = \<lparr>fn_inner = p, fn_chars = \<lparr>ci_offset = k, ci_rest = drop k p\<rparr>, index_front = k, index_back = length p\<rparr>"
  shows "filenames_collect f = Ok (components (drop k p))"
  using assms(2,3)
proof (induction "length p - k" arbitrary: k f rule: less_induct)
  case less
  have asc: "ascii (drop k p)" using assms(1) by simp
  show ?case
  proof (cases "k = length p")
    case True
    then show ?thesis using less.prems(2) by (subst filenames_collect.simps) (simp add: filenames_next_def components_simps)
  next
    case False
    then have k: "k < length p" "p \<noteq> []" using less.prems(1) by auto
    show ?thesis
    proof (cases rule: first_name_cases [of "drop k p"])
      case none
      then have "ci_find (\<lambda>c. c \<noteq> FILEPATH_SEPARATOR) k (drop k p) = (None, \<lparr>ci_offset = length p, ci_rest = []\<rparr>)"
        using ascii_ci_find(1) [OF asc, of "\<lambda>c. c \<noteq> FILEPATH_SEPARATOR" k] less.prems(1) by simp
      then show ?thesis using less.prems(2) k none components_all_sep [of "drop k p" "[]"]
        by (subst filenames_collect.simps) (simp add: filenames_next_def ci_find_next_def components_simps)
    next
      case (final x c y)
      have len: "length p = k + length x + Suc (length y)"
        using arg_cong [OF final(1), of length] k by simp
      have name: "slice (k + length x) (length p) p = c # y"
        using arg_cong [OF final(1), of "drop (length x)"] len by (simp add: slice_def add.commute)
      have "ci_find (\<lambda>c. c \<noteq> FILEPATH_SEPARATOR) k (drop k p) =
          (Some (k + length x), \<lparr>ci_offset = Suc (k + length x), ci_rest = y\<rparr>)"
        using ascii_ci_find(2) [of x c y "\<lambda>c. c \<noteq> FILEPATH_SEPARATOR" k] asc final by simp
      moreover have "ci_find (\<lambda>c. c = FILEPATH_SEPARATOR) (Suc (k + length x)) y =
          (None, \<lparr>ci_offset = length p, ci_rest = []\<rparr>)"
        using ascii_ci_find(1) [of y "\<lambda>c. c = FILEPATH_SEPARATOR"] asc final len by simp
      ultimately have "filenames_next f = (Ok (c # y), f\<lparr>fn_chars := \<lparr>ci_offset = length p, ci_rest = []\<rparr>,
          index_front := length p\<rparr>)"
        using less.prems(2) k len name ascii_slice_str [OF assms(1), of "k + length x" "length p"]
        by (simp add: filenames_next_def ci_find_next_def Let_def outcome_simps)
      moreover have "filenames_collect (f\<lparr>fn_chars := \<lparr>ci_offset = length p, ci_rest = []\<rparr>, index_front := length p\<rparr>) = Ok []"
        using less.prems(2) by (subst filenames_collect.simps) (simp add: filenames_next_def)
      ultimately show ?thesis
        using final components_no_sep [of "c # y"] components_all_sep [of x "c # y"]
        by (subst filenames_collect.simps) simp
    next
      case (more x c y z)
      define j where "j = k + length x + Suc (length y)"
      have len: "length p = Suc j + length z"
        using arg_cong [OF more(1), of length] k by (simp add: j_def)
      have z: "drop (Suc j) p = z"
        using arg_cong [OF more(1), of "drop (length x + Suc (Suc (length y)))"] by (simp add: j_def ac_simps)
      have name: "slice (k + length x) j p = c # y"
        using arg_cong [OF more(1), of "\<lambda>s. take (Suc (length y)) (drop (length x) s)"] len
        by (simp add: slice_def add.commute j_def take_drop)
      have "ci_find (\<lambda>c. c \<noteq> FILEPATH_SEPARATOR) k (drop k p) =
          (Some (k + length x), \<lparr>ci_offset = Suc (k + length x), ci_rest = y @ FILEPATH_SEPARATOR # z\<rparr>)"
        using ascii_ci_find(2) [of x c "y @ FILEPATH_SEPARATOR # z" "\<lambda>c. c \<noteq> FILEPATH_SEPARATOR" k] asc more by simp
      moreover have "ci_find (\<lambda>c. c = FILEPATH_SEPARATOR) (Suc (k + length x)) (y @ FILEPATH_SEPARATOR # z) =
          (Some j, \<lparr>ci_offset = Suc j, ci_rest = z\<rparr>)"
        using ascii_ci_find(2) [of y FILEPATH_SEPARATOR z "\<lambda>c. c = FILEPATH_SEPARATOR"] asc more(1,4) by (simp add: j_def)
      ultimately have "filenames_next f = (Ok (c # y), f\<lparr>fn_chars := \<lparr>ci_offset = Suc j, ci_rest = z\<rparr>, index_front := Suc j\<rparr>)"
        using less.prems(2) k len name ascii_slice_str [OF assms(1), of "k + length x" j]
        by (simp add: filenames_next_def ci_find_next_def Let_def outcome_simps j_def)
      moreover have "filenames_collect (f\<lparr>fn_chars := \<lparr>ci_offset = Suc j, ci_rest = z\<rparr>, index_front := Suc j\<rparr>) =
          Ok (components (drop (Suc j) p))"
        using less.prems(2) len z by (intro less.hyps) (simp_all add: j_def)
      ultimately show ?thesis
        using more components_no_sep [of "c # y"] components_all_sep [of x "c # y @ FILEPATH_SEPARATOR # z"]
          components_simps(3) [of "c # y" z] z
        by (subst filenames_collect.simps) simp
    qed
  qed
qed

text \<open>The last name of a string, and what precedes it.\<close>

lemma last_char_cases:
  obtains (none) "all_sep s"
  | (some) u c v where "s = u @ c # v" "c \<noteq> FILEPATH_SEPARATOR" "all_sep v"
proof (cases "all_sep s")
  case False
  then have "\<exists>c\<in>set s. c \<noteq> FILEPATH_SEPARATOR" by (auto simp: list_all_iff)
  then show thesis
    using split_list_last_prop [of s "\<lambda>c. c \<noteq> FILEPATH_SEPARATOR"] some by (auto simp: list_all_iff)
qed (rule none)

lemma last_sep_cases:
  obtains (none) "no_sep s" | (some) a w where "s = a @ FILEPATH_SEPARATOR # w" "no_sep w"
proof (cases "no_sep s")
  case False
  then have "FILEPATH_SEPARATOR \<in> set s" by (auto simp: list_all_iff)
  then show thesis using split_list_last [of FILEPATH_SEPARATOR s] some by (auto simp: list_all_iff)
qed (rule none)

lemma components_sep_right: "all_sep v \<Longrightarrow> components (s @ v) = components s"
proof (induction v arbitrary: s)
  case (Cons c v)
  then show ?case using components_simps(3) [of s v] components_all_sep [of v "[]"] by (simp add: components_simps)
qed simp

lemma components_single:
  assumes "no_sep w" "c \<noteq> FILEPATH_SEPARATOR" "all_sep v"
  shows "components (w @ c # v) = [w @ [c]]"
  using components_sep_right [of v "w @ [c]"] components_no_sep [of "w @ [c]"] assms by simp

text \<open>\<open>parent\<close> cuts the last name and the separators before it.\<close>

definition dot_path :: "rstr \<Rightarrow> bool" where
  "dot_path p \<longleftrightarrow> p = [46] \<or> p = [46, 46]"

lemma parent_cases [consumes 1]:
  assumes "ascii p"
  obtains (dot) "dot_path p" "parent p = Ok p" "length (components p) = 1"
  | (top) "\<not> dot_path p" "parent p = Err ()" "length (components p) \<le> 1"
  | (up) q r x where "parent p = Ok q" "p = q @ FILEPATH_SEPARATOR # r" "q \<noteq> []"
      "last q \<noteq> FILEPATH_SEPARATOR" "components r = [x]"
proof (cases rule: last_char_cases [of p])
  case none
  moreover have "\<not> dot_path p" using none by (auto simp: dot_path_def FILEPATH_SEPARATOR_def)
  moreover have "rfind (\<lambda>c. c \<noteq> FILEPATH_SEPARATOR) p = None" using none by (simp add: rfind_None)
  then have "parent p = Err ()" by (simp add: parent_def)
  ultimately show thesis using top components_all_sep [of p "[]"] by (simp add: components_simps)
next
  case (some u c v)
  have ne: "p \<noteq> []" using some by simp
  have first: "rfind (\<lambda>c. c \<noteq> FILEPATH_SEPARATOR) p = Some (length u)" "slice_to (Suc (length u)) p = (Ok (u @ [c]) :: rstr opt_outcome)"
    using ascii_rfind [of u c v "\<lambda>c. c \<noteq> FILEPATH_SEPARATOR"] assms some by (simp_all add: ascii_slice_to)
  show thesis
  proof (cases rule: last_sep_cases [of u])
    case none
    then have "rfind (\<lambda>c. c = FILEPATH_SEPARATOR) (u @ [c]) = None" using some by (simp add: rfind_None)
    then have "parent p = (if dot_path p then Ok p else Err ())"
      using first ne by (simp add: parent_def dot_path_def del: slice_to.simps cong del: if_weak_cong)
    moreover have "length (components p) = 1" using none some components_single [of u c v] by simp
    ultimately show thesis using dot top by (cases "dot_path p") auto
  next
    case outer: (some a w)
    have second: "rfind (\<lambda>c. c = FILEPATH_SEPARATOR) (u @ [c]) = Some (length a)" "slice_to (length a) p = (Ok a :: rstr opt_outcome)"
      using ascii_rfind [of a FILEPATH_SEPARATOR "w @ [c]" "\<lambda>c. c = FILEPATH_SEPARATOR"] assms some outer
      by (simp_all add: ascii_slice_to)
    show thesis
    proof (cases rule: last_char_cases [of a])
      case none
      then have "components p = [w @ [c]]"
        using components_all_sep [of "a @ [FILEPATH_SEPARATOR]"] components_single [of w c v] some outer by simp
      moreover have "\<not> dot_path p" using some outer none by (cases a) (auto simp: dot_path_def FILEPATH_SEPARATOR_def Cons_eq_append_conv append_eq_Cons_conv)
      moreover have "rfind (\<lambda>c. c \<noteq> FILEPATH_SEPARATOR) a = None" using none by (simp add: rfind_None)
      then have "parent p = Err ()" using first second ne by (simp add: parent_def)
      ultimately show thesis using top by simp
    next
      case inner: (some b d e)
      have "rfind (\<lambda>c. c \<noteq> FILEPATH_SEPARATOR) a = Some (length b)" "slice_to (Suc (length b)) p = (Ok (b @ [d]) :: rstr opt_outcome)"
        using ascii_rfind [of b d e "\<lambda>c. c \<noteq> FILEPATH_SEPARATOR"] assms some outer inner by (simp_all add: ascii_slice_to)
      then have "parent p = Ok (b @ [d])" using first second ne by (simp add: parent_def)
      moreover obtain r where "p = (b @ [d]) @ FILEPATH_SEPARATOR # r" "components r = [w @ [c]]"
      proof (cases e)
        case Nil
        then show ?thesis using that [of "w @ c # v"] components_single [of w c v] some outer inner by simp
      next
        case (Cons x e')
        then show ?thesis
          using that [of "e' @ FILEPATH_SEPARATOR # w @ c # v"] components_single [of w c v]
            components_all_sep [of "e' @ [FILEPATH_SEPARATOR]" "w @ c # v"] some outer inner by simp
      qed
      ultimately show thesis using up [of "b @ [d]"] inner by simp
    qed
  qed
qed

text \<open>\<open>file_name\<close> is the last name.\<close>

lemma ci_rfind_simps:
  "list_all (\<lambda>c. \<not> P c) s \<Longrightarrow> ci_rfind P \<lparr>ci_offset = k, ci_rest = s\<rparr> = (None, \<lparr>ci_offset = k, ci_rest = []\<rparr>)"
  "list_all (\<lambda>c. \<not> P c) t \<Longrightarrow> P c \<Longrightarrow> ascii s \<Longrightarrow>
    ci_rfind P \<lparr>ci_offset = k, ci_rest = s @ c # t\<rparr> = (Some (k + length s), \<lparr>ci_offset = k, ci_rest = s\<rparr>)"
proof -
  have drop: "list_all (\<lambda>c. \<not> P c) t \<Longrightarrow> dropWhile (\<lambda>x. \<not> P x) (rev t @ r) = dropWhile (\<lambda>x. \<not> P x) r" for t r
    by (rule dropWhile_append2) (simp add: list_all_iff)
  show "list_all (\<lambda>c. \<not> P c) s \<Longrightarrow> ci_rfind P \<lparr>ci_offset = k, ci_rest = s\<rparr> = (None, \<lparr>ci_offset = k, ci_rest = []\<rparr>)"
    by (simp add: ci_rfind_def drop [of s "[]", simplified append_Nil2 dropWhile.simps])
  show "list_all (\<lambda>c. \<not> P c) t \<Longrightarrow> P c \<Longrightarrow> ascii s \<Longrightarrow>
      ci_rfind P \<lparr>ci_offset = k, ci_rest = s @ c # t\<rparr> = (Some (k + length s), \<lparr>ci_offset = k, ci_rest = s\<rparr>)"
    by (simp add: ci_rfind_def drop ascii_len)
qed

lemma file_name_last:
  assumes "ascii p"
  shows "file_name p = (if components p = [] then Err () else Ok (last (components p)))"
proof (cases rule: last_char_cases [of p])
  case none
  then show ?thesis
    using components_all_sep [of p "[]"]
    by (simp add: file_name_def filenames_next_back_def filenames_new_def ci_rfind_simps components_simps)
next
  case (some u c v)
  have asc: "ascii u" using assms some by simp
  note first = ci_rfind_simps(2) [of "\<lambda>c. c \<noteq> FILEPATH_SEPARATOR" v c u 0, simplified, OF some(3,2) asc]
  show ?thesis
  proof (cases rule: last_sep_cases [of u])
    case none
    have "slice_str 0 (Suc (length u)) p = (Ok (u @ [c]) :: rstr opt_outcome)"
      using ascii_slice_str [OF assms, of 0 "Suc (length u)"] some by (simp add: slice_def)
    then show ?thesis
      using none some first components_single [of u c v] ci_rfind_simps(1) [of "\<lambda>c. c = FILEPATH_SEPARATOR" u 0]
      by (simp add: file_name_def filenames_next_back_def filenames_new_def Let_def outcome_simps)
  next
    case outer: (some a w)
    have "slice_str (Suc (length a)) (Suc (length u)) p = (Ok (w @ [c]) :: rstr opt_outcome)"
      using ascii_slice_str [OF assms, of "Suc (length a)" "Suc (length u)"] some outer by (simp add: slice_def)
    moreover have "components p = components a @ [w @ [c]]"
      using components_simps(3) [of a "w @ c # v"] components_single [of w c v] some outer by simp
    ultimately show ?thesis
      using some outer first asc ci_rfind_simps(2) [of "\<lambda>c. c = FILEPATH_SEPARATOR" w FILEPATH_SEPARATOR a 0]
      by (simp add: file_name_def filenames_next_back_def filenames_new_def Let_def outcome_simps)
  qed
qed

lemma push_components: "components (push_path a b) = components a @ components b"
proof (cases "ends_with_sep a")
  case True
  then obtain a' where a: "a = a' @ [FILEPATH_SEPARATOR]"
    by (metis append_butlast_last_id ends_with_sep_def)
  then show ?thesis
    using True components_simps(3) [of a' b] components_simps(3) [of a' "[]"] components_sep_right [of "[FILEPATH_SEPARATOR]" a]
    by (auto simp: push_path_def components_simps)
qed (simp add: push_path_def components_simps)

text \<open>C29: On paths of single-byte characters, iterating over the file names gives the nonempty parts
  between separators, the file name is the last of them and the parent drops it, without a panic.
  Pushing a path appends its names, and making a path absolute keeps the names. Beyond single-byte
  characters there can be a panic: on the path of a separator and the two-byte character 233, both
  the parent and the first step of the iteration panic.
\<close>

theorem path_names:
  assumes "ascii p"
  shows "filenames_collect (filenames_new p) = Ok (components p) \<and>
    file_name p = (if components p = [] then Err () else Ok (last (components p))) \<and>
    (case parent p of
       Ok q \<Rightarrow> dot_path p \<and> q = p \<or> (\<exists>r. p = q @ FILEPATH_SEPARATOR # r) \<and> q \<noteq> [] \<and> components q = butlast (components p)
     | Err _ \<Rightarrow> length (components p) \<le> 1
     | Panic \<Rightarrow> False) \<and>
    components (push_path a b) = components a @ components b \<and>
    is_absolute (make_absolute a) \<and> components (make_absolute a) = components a \<and>
    parent [47, 233] = Panic \<and> fst (filenames_next (filenames_new [47, 233])) = Panic"
proof (intro conjI)
  show "filenames_collect (filenames_new p) = Ok (components p)"
    using collect_from [OF assms, of 0] assms by (simp add: filenames_new_def ascii_len)
  show "case parent p of
       Ok q \<Rightarrow> dot_path p \<and> q = p \<or> (\<exists>r. p = q @ FILEPATH_SEPARATOR # r) \<and> q \<noteq> [] \<and> components q = butlast (components p)
     | Err _ \<Rightarrow> length (components p) \<le> 1
     | Panic \<Rightarrow> False"
    using assms by (cases rule: parent_cases) (auto simp: components_simps)
  show "is_absolute (make_absolute a)" "components (make_absolute a) = components a"
    using components_simps(2) [of a] components_simps(2) [of "[]"]
    by (auto simp: make_absolute_def absolute_path_try_new_def absolute_owned_path_new_def push_path_def
        ends_with_sep_def is_absolute_def components_simps)
  show "parent [47, 233] = Panic" "fst (filenames_next (filenames_new [47, 233])) = Panic"
    by (simp_all add: parent_def filenames_next_def filenames_new_def FILEPATH_SEPARATOR_def utf8_len_def
        ci_find_next_def byte_len_def slice_str_def Let_def outcome_simps numeral_2_eq_2 split: if_splits)
qed (fact file_name_last [OF assms] push_components)+

theorem path_names_witness:
  "filenames_collect (filenames_new [47, 97, 47, 98]) = Ok [[97], [98]] \<and> parent [47, 97, 47, 98] = Ok [47, 97]"
  using path_names [of "[47, 97, 47, 98]" "[]" "[]"]
  by (simp add: components_def FILEPATH_SEPARATOR_def parent_def utf8_len_def numeral_2_eq_2 numeral_3_eq_3)

text \<open>A loop over the names whose body may leave early with an error.\<close>

function for_names :: "(rstr \<Rightarrow> 's \<Rightarrow> ('e, 's) outcome) \<Rightarrow> filenames \<Rightarrow> 's \<Rightarrow> ('e, 's) outcome" where
  "for_names body f s = (case filenames_next f of
     (Ok name, f') \<Rightarrow> obind (body name s) (\<lambda>s'. for_names body f' s')
   | (Err _, f') \<Rightarrow> Ok s
   | (Panic, f') \<Rightarrow> Panic)"
  by auto

termination
  by (relation "measure (\<lambda>(body, f, s). length (ci_rest (fn_chars f)))") (auto dest: filenames_next_rest [OF sym])

declare for_names.simps [simp del]

primrec for_list :: "(rstr \<Rightarrow> 's \<Rightarrow> ('e, 's) outcome) \<Rightarrow> rstr list \<Rightarrow> 's \<Rightarrow> ('e, 's) outcome" where
  "for_list body [] s = Ok s"
| "for_list body (name # names) s = obind (body name s) (for_list body names)"

lemma for_names_collect:
  "filenames_collect f = Ok names \<Longrightarrow> for_names body f s = for_list body names s"
proof (induction f arbitrary: names s rule: filenames_collect.induct)
  case (1 f)
  obtain r f' where next_f: "filenames_next f = (r, f')" by fastforce
  show ?case
  proof (cases r)
    case (Ok name)
    then obtain rest where rest: "filenames_collect f' = Ok rest" "names = name # rest"
      using "1.prems" next_f by (subst (asm) filenames_collect.simps) (auto simp: outcome_simps)
    have "for_names body f' = for_list body rest"
      using "1.IH" next_f Ok rest(1) by (intro ext) simp
    then show ?thesis using next_f Ok rest(2) by (subst for_names.simps) simp
  next
    case (Err e)
    then show ?thesis
      using "1.prems" next_f by (subst (asm) filenames_collect.simps, subst for_names.simps) simp
  next
    case Panic
    then show ?thesis using "1.prems" next_f by (subst (asm) filenames_collect.simps) simp
  qed
qed

lemma for_names_components:
  assumes "ascii p"
  shows "for_names body (filenames_new p) s = for_list body (components p) s"
  using for_names_collect [of "filenames_new p" "components p"] collect_from [OF assms, of 0] assms
  by (simp add: filenames_new_def ascii_len)

text \<open>The same for a body that may not return.\<close>

function for_names_opt :: "(rstr \<Rightarrow> 's \<Rightarrow> ('e, 's) outcome option) \<Rightarrow> filenames \<Rightarrow> 's \<Rightarrow> ('e, 's) outcome option" where
  "for_names_opt body f s = (case filenames_next f of
     (Ok name, f') \<Rightarrow>
       (case body name s of
          Some (Ok s') \<Rightarrow> for_names_opt body f' s'
        | r \<Rightarrow> r)
   | (Err _, f') \<Rightarrow> Some (Ok s)
   | (Panic, f') \<Rightarrow> Some Panic)"
  by auto

termination
  by (relation "measure (\<lambda>(body, f, s). length (ci_rest (fn_chars f)))") (auto dest: filenames_next_rest [OF sym])

declare for_names_opt.simps [simp del]

primrec for_list_opt :: "(rstr \<Rightarrow> 's \<Rightarrow> ('e, 's) outcome option) \<Rightarrow> rstr list \<Rightarrow> 's \<Rightarrow> ('e, 's) outcome option" where
  "for_list_opt body [] s = Some (Ok s)"
| "for_list_opt body (name # names) s =
    (case body name s of Some (Ok s') \<Rightarrow> for_list_opt body names s' | r \<Rightarrow> r)"

lemma for_names_opt_collect:
  "filenames_collect f = Ok names \<Longrightarrow> for_names_opt body f s = for_list_opt body names s"
proof (induction f arbitrary: names s rule: filenames_collect.induct)
  case (1 f)
  obtain r f' where next_f: "filenames_next f = (r, f')" by fastforce
  show ?case
  proof (cases r)
    case (Ok name)
    then obtain rest where rest: "filenames_collect f' = Ok rest" "names = name # rest"
      using "1.prems" next_f by (subst (asm) filenames_collect.simps) (auto simp: outcome_simps)
    have "for_names_opt body f' = for_list_opt body rest"
      using "1.IH" next_f Ok rest(1) by (intro ext) simp
    then show ?thesis
      using next_f Ok rest(2) by (subst for_names_opt.simps) (simp split: option.split outcome.split)
  next
    case (Err e)
    then show ?thesis
      using "1.prems" next_f by (subst (asm) filenames_collect.simps, subst for_names_opt.simps) simp
  next
    case Panic
    then show ?thesis using "1.prems" next_f by (subst (asm) filenames_collect.simps) simp
  qed
qed

lemma for_names_opt_components:
  assumes "ascii p"
  shows "for_names_opt body (filenames_new p) s = for_list_opt body (components p) s"
  using for_names_opt_collect [of "filenames_new p" "components p"] collect_from [OF assms, of 0] assms
  by (simp add: filenames_new_def ascii_len)

text \<open>A slice from the start of a string begins like the string.\<close>

lemma slice_to_hd: "slice_to k s = Ok r \<Longrightarrow> 0 < k \<Longrightarrow> s \<noteq> [] \<and> r \<noteq> [] \<and> hd r = hd s"
  by (cases "(k, s)" rule: slice_to.cases) (auto simp: outcome_simps split: if_splits)

lemma parent_absolute:
  assumes "is_absolute p" and "parent p = Ok q"
  shows "is_absolute q"
proof -
  have "q = p \<or> (\<exists>k. slice_to (Suc k) p = (Ok q :: rstr opt_outcome))"
    using assms(2) by (auto simp: parent_def outcome_simps split: if_splits option.splits)
  then show ?thesis using assms(1) slice_to_hd [of _ p q] by (auto simp: is_absolute_def)
qed

text \<open>C30: The operations of the path module that give an \<open>AbsolutePath\<close> or \<open>AbsoluteOwnedPath\<close> give an absolute
  path: the checked constructors accept exactly the absolute strings and keep them, the new owned path, the
  root and the result of \<open>make_absolute\<close> are absolute, and pushing, appending and taking the parent lead
  from an absolute path to absolute ones. This is about these operations only: \<open>Vfs::open\<close>, outside the
  module, makes an \<open>AbsolutePath\<close> of whatever is left behind a mount point, which can be empty.\<close>

theorem absolute_path_type:
  "(absolute_path_try_new s = Ok p \<longleftrightarrow> p = s \<and> is_absolute s) \<and>
   (absolute_owned_path_try_from s = Ok p \<longleftrightarrow> p = s \<and> is_absolute s) \<and>
   is_absolute absolute_owned_path_new \<and> is_absolute ROOT \<and> is_absolute (make_absolute s) \<and>
   (is_absolute p \<longrightarrow> is_absolute (push_path p s) \<and> is_absolute (append_str p s) \<and>
      (\<forall>q. parent p = Ok q \<longrightarrow> is_absolute q))"
proof (intro conjI impI allI)
  show "is_absolute q" if "is_absolute p" "parent p = Ok q" for q
    using that by (rule parent_absolute)
qed (auto simp: absolute_path_try_new_def absolute_owned_path_try_from_def absolute_owned_path_new_def ROOT_def
      make_absolute_def push_path_def append_str_def is_absolute_def ends_with_sep_def)

theorem absolute_path_type_witness:
  "is_absolute [47, 97] \<and> is_absolute (push_path [47, 97] [98])"
  using absolute_path_type [of "[98]" "[47, 97]"] by (simp add: is_absolute_def FILEPATH_SEPARATOR_def)

end
