(* ===== verification/Vfs.thy ===== *)
theory Vfs
  imports Vfs_Path Abi
begin

text \<open>
  The virtual file system (\<open>kernel/vfs/src/vfs\<close>, \<open>kernel/vfs/src/fs.rs\<close>): the mount table, the
  search for the mount of a path, opening, and the nodes of open files. The \<open>FileSystem\<close> trait is
  the record \<open>file_system\<close> of its methods. A mounted file system is an \<open>Arc\<close> that only the mount
  table holds, nodes hold a \<open>Weak\<close>: the world keeps the live file systems in a heap, and an
  \<open>upgrade\<close> is a lookup there. Addresses are never reused, because a \<open>Weak\<close> keeps its allocation.
\<close>

section \<open>Errors, handles and the \<open>FileSystem\<close> trait\<close>

datatype mount_error = AlreadyMounted
datatype unmount_error = NotMounted
datatype open_error = NotFound
datatype close_error = NotOpen
datatype fs_error = FileSystemNotOpen | InvalidHandle
datatype read_error = ReadFsError fs_error | EndOfFile | ReadFailed | NotReadable
datatype write_error = WriteFsError fs_error | WriteFailed | NotWritable
datatype stat_error = StatFsError fs_error
datatype ioctl_error = IoctlFsError fs_error | IoctlNotSupported | InvalidArgument
datatype mmap_error = MmapFsError fs_error | MmapNotSupported
datatype fsync_error = FsyncFsError fs_error | FsyncFailed

datatype fs_handle = FsHandle u64

record vfs_stat =
  stat_size :: nat

record mmap_region =
  region_ptr :: nat
  region_length :: nat

text \<open>A buffer passed as \<open>&mut [u8]\<close> is an argument and comes back beside the result. \<open>open\<close> may walk a
  corrupt directory forever, which is \<open>None\<close>.\<close>

record 'f file_system =
  fs_open :: "'f \<Rightarrow> rstr \<Rightarrow> (open_error, fs_handle, 'f) run option"
  fs_close :: "'f \<Rightarrow> fs_handle \<Rightarrow> (close_error, unit, 'f) run"
  fs_read :: "'f \<Rightarrow> fs_handle \<Rightarrow> bytes \<Rightarrow> nat \<Rightarrow> (read_error, nat, bytes \<times> 'f) run"
  fs_write :: "'f \<Rightarrow> fs_handle \<Rightarrow> bytes \<Rightarrow> nat \<Rightarrow> (write_error, nat, 'f) run"
  fs_stat :: "'f \<Rightarrow> fs_handle \<Rightarrow> vfs_stat \<Rightarrow> (stat_error, unit, vfs_stat \<times> 'f) run"
  fs_mmap :: "'f \<Rightarrow> fs_handle \<Rightarrow> (mmap_error, mmap_region, 'f) run"
  fs_ioctl :: "'f \<Rightarrow> fs_handle \<Rightarrow> ioctl_request \<Rightarrow> bytes \<Rightarrow> (ioctl_error, nat, bytes \<times> 'f) run"
  fs_fsync :: "'f \<Rightarrow> fs_handle \<Rightarrow> (fsync_error, unit, 'f) run"

text \<open>The provided methods of the trait.\<close>

definition default_mmap :: "'f \<Rightarrow> fs_handle \<Rightarrow> (mmap_error, mmap_region, 'f) run" where
  "default_mmap f h = (Err MmapNotSupported, f)"

definition default_ioctl :: "'f \<Rightarrow> fs_handle \<Rightarrow> ioctl_request \<Rightarrow> bytes \<Rightarrow> (ioctl_error, nat, bytes \<times> 'f) run" where
  "default_ioctl f h request arg = (Err IoctlNotSupported, arg, f)"

section \<open>The mount table\<close>

record 'f vfs =
  file_systems :: "rstr \<Rightarrow> nat option"
  fs_heap :: "nat \<Rightarrow> 'f option"
  next_arc :: nat

definition vfs_new :: "'f vfs" where
  "vfs_new = \<lparr>file_systems = Map.empty, fs_heap = Map.empty, next_arc = 0\<rparr>"

definition mount :: "rstr \<Rightarrow> 'f \<Rightarrow> 'f vfs \<Rightarrow> (mount_error, unit, 'f vfs) run" where
  "mount mount_point f v =
    (if file_systems v mount_point \<noteq> None then (Err AlreadyMounted, v)
     else (Ok (), v\<lparr>file_systems := (file_systems v)(mount_point \<mapsto> next_arc v),
                    fs_heap := (fs_heap v)(next_arc v \<mapsto> f), next_arc := Suc (next_arc v)\<rparr>))"

definition unmount :: "rstr \<Rightarrow> 'f vfs \<Rightarrow> (unmount_error, unit, 'f vfs) run" where
  "unmount mount_point v =
    (case file_systems v mount_point of
       None \<Rightarrow> (Err NotMounted, v)
     | Some a \<Rightarrow> (Ok (), v\<lparr>file_systems := (file_systems v)(mount_point := None),
                           fs_heap := (fs_heap v)(a := None)\<rparr>))"

text \<open>The \<open>while let\<close> of \<open>find_mount\<close>; \<open>None\<close> is a loop that does not end.\<close>

partial_function (option) find_mount_loop ::
  "(rstr \<Rightarrow> nat option) \<Rightarrow> rstr \<Rightarrow> (rstr \<times> nat) opt_outcome option" where
  "find_mount_loop fss current =
    (case parent current of
       Ok p \<Rightarrow> (case fss p of Some a \<Rightarrow> Some (Ok (p, a)) | None \<Rightarrow> find_mount_loop fss p)
     | Err _ \<Rightarrow> Some (case fss ROOT of Some a \<Rightarrow> Ok (ROOT, a) | None \<Rightarrow> Err ())
     | Panic \<Rightarrow> Some Panic)"

definition find_mount :: "(rstr \<Rightarrow> nat option) \<Rightarrow> rstr \<Rightarrow> (rstr \<times> nat) opt_outcome option" where
  "find_mount fss path = (case fss path of Some a \<Rightarrow> Some (Ok (path, a)) | None \<Rightarrow> find_mount_loop fss path)"

definition strip_prefix :: "rstr \<Rightarrow> rstr \<Rightarrow> rstr option" where
  "strip_prefix s prefix = (if take (length prefix) s = prefix then Some (drop (length prefix) s) else None)"

section \<open>Nodes\<close>

record vfs_node =
  node_path :: rstr
  node_handle :: fs_handle
  node_fs :: nat

text \<open>A call of a method on the file system behind a \<open>Weak\<close>.\<close>

definition with_upgraded :: "nat \<Rightarrow> 'r \<Rightarrow> ('f \<Rightarrow> 'r \<times> 'f) \<Rightarrow> 'f vfs \<Rightarrow> 'r \<times> 'f vfs" where
  "with_upgraded a not_open call v =
    (case fs_heap v a of
       None \<Rightarrow> (not_open, v)
     | Some f \<Rightarrow> (case call f of (r, f') \<Rightarrow> (r, v\<lparr>fs_heap := (fs_heap v)(a \<mapsto> f')\<rparr>)))"

text \<open>\<open>find_mount\<close> clones the \<open>Arc\<close> of the table, so the file system is alive.\<close>

definition vfs_open :: "'f file_system \<Rightarrow> rstr \<Rightarrow> 'f vfs \<Rightarrow> (open_error, vfs_node, 'f vfs) run option" where
  "vfs_open ops path v =
    (case find_mount (file_systems v) path of
       None \<Rightarrow> None
     | Some Panic \<Rightarrow> Some (Panic, v)
     | Some (Err _) \<Rightarrow> Some (Err NotFound, v)
     | Some (Ok (mount_path, a)) \<Rightarrow>
         (case (if mount_path = ROOT then Some path else strip_prefix path mount_path) of
            None \<Rightarrow> Some (Panic, v)
          | Some relative_path \<Rightarrow>
              map_option (\<lambda>(r, f). (obind r (\<lambda>h. Ok \<lparr>node_path = path, node_handle = h, node_fs = a\<rparr>),
                                  v\<lparr>fs_heap := (fs_heap v)(a \<mapsto> f)\<rparr>))
                (fs_open ops (the (fs_heap v a)) relative_path)))"

text \<open>A result with a buffer, in the form \<open>with_upgraded\<close> wants it.\<close>

definition with_buffer :: "('e, 'a, 'b \<times> 'f) run \<Rightarrow> (('e, 'a) outcome \<times> 'b) \<times> 'f" where
  "with_buffer m = (case m of (r, b, f) \<Rightarrow> ((r, b), f))"

definition node_read ::
  "'f file_system \<Rightarrow> vfs_node \<Rightarrow> bytes \<Rightarrow> nat \<Rightarrow> 'f vfs \<Rightarrow> ((read_error, nat) outcome \<times> bytes) \<times> 'f vfs" where
  "node_read ops n buf offset =
    with_upgraded (node_fs n) (Err (ReadFsError FileSystemNotOpen), buf)
      (\<lambda>f. with_buffer (fs_read ops f (node_handle n) buf offset))"

definition node_write :: "'f file_system \<Rightarrow> vfs_node \<Rightarrow> bytes \<Rightarrow> nat \<Rightarrow> 'f vfs \<Rightarrow> (write_error, nat, 'f vfs) run" where
  "node_write ops n buf offset =
    with_upgraded (node_fs n) (Err (WriteFsError FileSystemNotOpen)) (\<lambda>f. fs_write ops f (node_handle n) buf offset)"

definition node_stat ::
  "'f file_system \<Rightarrow> vfs_node \<Rightarrow> vfs_stat \<Rightarrow> 'f vfs \<Rightarrow> ((stat_error, unit) outcome \<times> vfs_stat) \<times> 'f vfs" where
  "node_stat ops n st =
    with_upgraded (node_fs n) (Err (StatFsError FileSystemNotOpen), st)
      (\<lambda>f. with_buffer (fs_stat ops f (node_handle n) st))"

definition node_mmap :: "'f file_system \<Rightarrow> vfs_node \<Rightarrow> 'f vfs \<Rightarrow> (mmap_error, mmap_region, 'f vfs) run" where
  "node_mmap ops n =
    with_upgraded (node_fs n) (Err (MmapFsError FileSystemNotOpen)) (\<lambda>f. fs_mmap ops f (node_handle n))"

definition node_ioctl ::
  "'f file_system \<Rightarrow> vfs_node \<Rightarrow> ioctl_request \<Rightarrow> bytes \<Rightarrow> 'f vfs \<Rightarrow> ((ioctl_error, nat) outcome \<times> bytes) \<times> 'f vfs" where
  "node_ioctl ops n request arg =
    with_upgraded (node_fs n) (Err (IoctlFsError FileSystemNotOpen), arg)
      (\<lambda>f. with_buffer (fs_ioctl ops f (node_handle n) request arg))"

definition node_fsync :: "'f file_system \<Rightarrow> vfs_node \<Rightarrow> 'f vfs \<Rightarrow> (fsync_error, unit, 'f vfs) run" where
  "node_fsync ops n =
    with_upgraded (node_fs n) (Err (FsyncFsError FileSystemNotOpen)) (\<lambda>f. fs_fsync ops f (node_handle n))"

text \<open>The last reference to a node goes away: its handle is closed, the result of the close ignored.
  A panic in \<open>close\<close> is the outcome \<open>Panic\<close>.\<close>

definition node_drop :: "'f file_system \<Rightarrow> vfs_node \<Rightarrow> 'f vfs \<Rightarrow> (unit, unit, 'f vfs) run" where
  "node_drop ops n =
    with_upgraded (node_fs n) (Ok ())
      (\<lambda>f. case fs_close ops f (node_handle n) of (r, f') \<Rightarrow> (if r = Panic then Panic else Ok (), f'))"

section \<open>Finding the mount of a path\<close>

lemma components_Nil: "components s = [] \<longleftrightarrow> all_sep s"
proof (cases rule: last_char_cases [of s])
  case none
  then show ?thesis using components_all_sep [of s "[]"] by (simp add: components_simps)
next
  case (some u c v)
  then have "\<not> all_sep s" by simp
  moreover have "components s \<noteq> []"
  proof (cases rule: last_sep_cases [of u])
    case none
    then show ?thesis using some components_single [of u c v] by simp
  next
    case (some a w)
    then show ?thesis
      using \<open>s = u @ c # v\<close> components_simps(3) [of a "w @ c # v"] components_single [of w c v] \<open>c \<noteq> _\<close> \<open>all_sep v\<close>
      by simp
  qed
  ultimately show ?thesis by simp
qed

lemma components_last: "s \<noteq> [] \<Longrightarrow> last s \<noteq> FILEPATH_SEPARATOR \<Longrightarrow> components s \<noteq> []"
  using last_in_set [of s] by (auto simp: components_Nil list_all_iff)

text \<open>The directories above a path, as they are spelled in it.\<close>

definition ancestor :: "rstr \<Rightarrow> rstr \<Rightarrow> bool" where
  "ancestor p q \<longleftrightarrow> q = p \<or>
    (\<exists>r. p = q @ FILEPATH_SEPARATOR # r \<and> q \<noteq> [] \<and> last q \<noteq> FILEPATH_SEPARATOR \<and> components r \<noteq> [])"

lemma ancestor_length: "ancestor p q \<Longrightarrow> length q \<le> length p"
  by (auto simp: ancestor_def)

lemma ancestor_top: "length (components p) \<le> 1 \<Longrightarrow> ancestor p q \<Longrightarrow> q = p"
  using components_last [of q] by (cases "components q") (auto simp: ancestor_def components_simps)

lemma ancestor_parent:
  assumes p: "p = q @ FILEPATH_SEPARATOR # r" "q \<noteq> []" "last q \<noteq> FILEPATH_SEPARATOR" "components r = [x]"
  shows "ancestor p q' \<longleftrightarrow> q' = p \<or> ancestor q q'"
proof
  assume "q' = p \<or> ancestor q q'"
  then show "ancestor p q'" using p by (auto simp: ancestor_def components_simps)
next
  assume "ancestor p q'"
  then show "q' = p \<or> ancestor q q'"
  proof (cases "q' = p")
    case False
    then obtain r' where r': "p = q' @ FILEPATH_SEPARATOR # r'" "q' \<noteq> []" "last q' \<noteq> FILEPATH_SEPARATOR" "components r' \<noteq> []"
      using \<open>ancestor p q'\<close> by (auto simp: ancestor_def)
    have "q' @ FILEPATH_SEPARATOR # r' = q @ FILEPATH_SEPARATOR # r" using p(1) r'(1) by simp
    then obtain us where "q' = q @ us \<and> us @ FILEPATH_SEPARATOR # r' = FILEPATH_SEPARATOR # r \<or>
        q' @ us = q \<and> FILEPATH_SEPARATOR # r' = us @ FILEPATH_SEPARATOR # r"
      unfolding append_eq_append_conv2 by blast
    then show ?thesis
    proof (elim disjE conjE)
      assume us: "q' = q @ us" "us @ FILEPATH_SEPARATOR # r' = FILEPATH_SEPARATOR # r"
      show ?thesis
      proof (cases us)
        case (Cons y s)
        then have "r = s @ FILEPATH_SEPARATOR # r'" "s \<noteq> [] \<Longrightarrow> last s \<noteq> FILEPATH_SEPARATOR" "s \<noteq> []"
          using us r'(3) by (auto split: if_splits)
        then show ?thesis
          using p(4) r'(4) components_last [of s] by (cases "components s") (auto simp: components_simps)
      qed (use us in \<open>simp add: ancestor_def\<close>)
    next
      assume us: "q' @ us = q" "FILEPATH_SEPARATOR # r' = us @ FILEPATH_SEPARATOR # r"
      show ?thesis
      proof (cases us)
        case (Cons y s)
        then have "q = q' @ FILEPATH_SEPARATOR # s" "s \<noteq> []" "last s \<noteq> FILEPATH_SEPARATOR"
          using us p(3) by (auto split: if_splits)
        then show ?thesis using components_last [of s] r'(2,3) by (auto simp: ancestor_def)
      qed (use us in \<open>simp add: ancestor_def\<close>)
    qed
  qed simp
qed

definition mounted_ancestor :: "(rstr \<Rightarrow> nat option) \<Rightarrow> rstr \<Rightarrow> rstr \<Rightarrow> bool" where
  "mounted_ancestor fss p q \<longleftrightarrow> ancestor p q \<and> fss q \<noteq> None"

definition longest_mount :: "(rstr \<Rightarrow> nat option) \<Rightarrow> rstr \<Rightarrow> (rstr \<times> nat) opt_outcome \<Rightarrow> bool" where
  "longest_mount fss p r \<longleftrightarrow>
    (case r of
       Ok (q, a) \<Rightarrow> fss q = Some a \<and>
         (if \<exists>q'. mounted_ancestor fss p q'
          then mounted_ancestor fss p q \<and> (\<forall>q'. mounted_ancestor fss p q' \<longrightarrow> length q' \<le> length q)
          else q = ROOT)
     | Err _ \<Rightarrow> fss ROOT = None \<and> (\<forall>q'. \<not> mounted_ancestor fss p q')
     | Panic \<Rightarrow> False)"

lemma find_mount_loop_longest:
  assumes "ascii p" and "is_absolute p" and "fss p = None"
  shows "\<exists>r. find_mount_loop fss p = Some r \<and> longest_mount fss p r"
  using assms
proof (induction "length p" arbitrary: p rule: less_induct)
  case less
  from less.prems(1) show ?case
  proof (cases rule: parent_cases)
    case dot
    then show ?thesis using less.prems(2) by (auto simp: dot_path_def is_absolute_def FILEPATH_SEPARATOR_def)
  next
    case top
    then have "mounted_ancestor fss p = (\<lambda>q'. False)"
      using ancestor_top [of p] less.prems(3) by (auto simp: mounted_ancestor_def fun_eq_iff)
    then show ?thesis
      using top by (subst find_mount_loop.simps) (simp add: longest_mount_def split: option.split)
  next
    case (up q r x)
    have anc: "mounted_ancestor fss p = mounted_ancestor fss q"
      using ancestor_parent [OF up(2-5)] less.prems(3) by (auto simp: mounted_ancestor_def fun_eq_iff)
    then have same: "longest_mount fss p = longest_mount fss q"
      by (intro ext) (simp only: longest_mount_def)
    show ?thesis
    proof (cases "fss q")
      case None
      have "ascii q" "is_absolute q" "length q < length p" using less.prems up(2,3) by (auto simp: is_absolute_def)
      then obtain res where "find_mount_loop fss q = Some res" "longest_mount fss q res"
        using less.hyps [of q] None by auto
      then show ?thesis using up(1) None same by (subst find_mount_loop.simps) simp
    next
      case (Some a)
      then have "mounted_ancestor fss q q" by (simp add: mounted_ancestor_def ancestor_def)
      then have "longest_mount fss q (Ok (q, a))"
        using Some ancestor_length [of q] by (auto simp: longest_mount_def mounted_ancestor_def)
      then show ?thesis using up(1) Some same by (subst find_mount_loop.simps) simp
    qed
  qed
qed

lemma find_mount_longest:
  assumes "ascii p" and "is_absolute p"
  shows "\<exists>r. find_mount fss p = Some r \<and> longest_mount fss p r"
proof (cases "fss p")
  case None
  then show ?thesis using find_mount_loop_longest [OF assms] by (simp add: find_mount_def)
next
  case (Some a)
  then have "mounted_ancestor fss p p" by (simp add: mounted_ancestor_def ancestor_def)
  then have "longest_mount fss p (Ok (p, a))"
    using Some ancestor_length [of p] by (auto simp: longest_mount_def mounted_ancestor_def)
  then show ?thesis using Some by (simp add: find_mount_def)
qed

lemma find_mount_loop_mounted:
  assumes "find_mount_loop fss p = Some r"
  shows "\<forall>q a. r = Ok (q, a) \<longrightarrow> fss q = Some a"
proof (rule find_mount_loop.raw_induct [OF _ assms], intro allI impI)
  fix loop fss current r q a
  assume IH: "\<And>fss p r. loop fss p = Some r \<Longrightarrow> \<forall>q a. r = Ok (q, a) \<longrightarrow> fss q = Some a"
    and body: "(case parent current of
       Ok p \<Rightarrow> (case fss p of Some a \<Rightarrow> Some (Ok (p, a)) | None \<Rightarrow> loop fss p)
     | Err _ \<Rightarrow> Some (case fss ROOT of Some a \<Rightarrow> Ok (ROOT, a) | None \<Rightarrow> Err ())
     | Panic \<Rightarrow> Some Panic) = Some r"
    and r: "r = Ok (q, a)"
  show "fss q = Some a"
  proof (cases "parent current")
    case (Ok p)
    then show ?thesis using body r IH [of fss p r] by (cases "fss p") auto
  qed (use body r in \<open>auto split: option.splits\<close>)
qed

lemma find_mount_mounted: "find_mount fss p = Some (Ok (q, a)) \<Longrightarrow> fss q = Some a"
  using find_mount_loop_mounted [of fss p] by (auto simp: find_mount_def split: option.splits)

section \<open>The well-formedness of the table\<close>

definition vfs_wf :: "'f vfs \<Rightarrow> bool" where
  "vfs_wf v \<longleftrightarrow>
    (\<forall>p a. file_systems v p = Some a \<longrightarrow> is_absolute p \<and> (\<exists>f. fs_heap v a = Some f)) \<and>
    (\<forall>p q a. file_systems v p = Some a \<longrightarrow> file_systems v q = Some a \<longrightarrow> q = p) \<and>
    (\<forall>a f. fs_heap v a = Some f \<longrightarrow> a < next_arc v \<and> (\<exists>p. file_systems v p = Some a))"

lemma vfs_wfI:
  assumes "\<And>p a. file_systems v p = Some a \<Longrightarrow> is_absolute p \<and> (\<exists>f. fs_heap v a = Some f)"
    and "\<And>p q a. file_systems v p = Some a \<Longrightarrow> file_systems v q = Some a \<Longrightarrow> q = p"
    and "\<And>a f. fs_heap v a = Some f \<Longrightarrow> a < next_arc v \<and> (\<exists>p. file_systems v p = Some a)"
  shows "vfs_wf v"
  unfolding vfs_wf_def by (intro conjI [OF _ conjI] allI impI; rule assms; assumption)

lemma vfs_wfD:
  assumes "vfs_wf v"
  shows "file_systems v p = Some a \<Longrightarrow> is_absolute p"
    and "file_systems v p = Some a \<Longrightarrow> \<exists>f. fs_heap v a = Some f"
    and "file_systems v p = Some a \<Longrightarrow> file_systems v q = Some a \<Longrightarrow> q = p"
    and "fs_heap v a = Some f \<Longrightarrow> a < next_arc v"
    and "fs_heap v a = Some f \<Longrightarrow> \<exists>p. file_systems v p = Some a"
proof -
  note wf = assms [unfolded vfs_wf_def]
  show "file_systems v p = Some a \<Longrightarrow> is_absolute p" "file_systems v p = Some a \<Longrightarrow> \<exists>f. fs_heap v a = Some f"
    using wf [THEN conjunct1, rule_format, of p a] by simp_all
  show "file_systems v p = Some a \<Longrightarrow> file_systems v q = Some a \<Longrightarrow> q = p"
    by (rule wf [THEN conjunct2, THEN conjunct1, rule_format])
  show "fs_heap v a = Some f \<Longrightarrow> a < next_arc v" "fs_heap v a = Some f \<Longrightarrow> \<exists>p. file_systems v p = Some a"
    using wf [THEN conjunct2, THEN conjunct2, rule_format, of a f] by simp_all
qed

lemma vfs_wf_arc: "vfs_wf v \<Longrightarrow> file_systems v p = Some a \<Longrightarrow> a < next_arc v"
  using vfs_wfD(2) [of v p a] vfs_wfD(4) [of v a] by auto

lemma vfs_wf_new: "vfs_wf vfs_new"
  by (simp add: vfs_wf_def vfs_new_def)

lemma vfs_wf_mount:
  assumes "vfs_wf v" and "is_absolute p"
  shows "vfs_wf (snd (mount p f v))"
proof (cases "file_systems v p")
  case None
  then have v': "snd (mount p f v) = v\<lparr>file_systems := (file_systems v)(p \<mapsto> next_arc v),
      fs_heap := (fs_heap v)(next_arc v \<mapsto> f), next_arc := Suc (next_arc v)\<rparr>"
    by (simp add: mount_def)
  show ?thesis
    unfolding v'
  proof (rule vfs_wfI, goal_cases)
    case (1 q a)
    then show ?case using assms(2) vfs_wfD(1,2) [OF assms(1), of q a] by (cases "q = p") auto
  next
    case (2 q r a)
    then show ?case
      using vfs_wf_arc [OF assms(1), of q a] vfs_wf_arc [OF assms(1), of r a] vfs_wfD(3) [OF assms(1), of q a r]
      by (cases "q = p"; cases "r = p") auto
  next
    case (3 a g)
    show ?case
    proof (cases "a = next_arc v")
      case False
      then have "fs_heap v a = Some g" using 3 by simp
      then obtain q where "file_systems v q = Some a" "a < next_arc v" using vfs_wfD(4,5) [OF assms(1), of a g] by auto
      moreover have "q \<noteq> p" using None calculation(1) by auto
      ultimately show ?thesis by (simp add: less_Suc_eq exI [of _ q])
    qed (simp add: exI [of _ p])
  qed
qed (use assms in \<open>simp add: mount_def\<close>)

lemma vfs_wf_unmount:
  assumes "vfs_wf v"
  shows "vfs_wf (snd (unmount p v))"
proof (cases "file_systems v p")
  case (Some b)
  then have v': "snd (unmount p v) = v\<lparr>file_systems := (file_systems v)(p := None), fs_heap := (fs_heap v)(b := None)\<rparr>"
    by (simp add: unmount_def)
  show ?thesis
    unfolding v'
  proof (rule vfs_wfI, goal_cases)
    case (1 q a)
    then have q: "q \<noteq> p" "file_systems v q = Some a" by (auto split: if_splits)
    then have "a \<noteq> b" using Some vfs_wfD(3) [OF assms, of q a p] by auto
    then show ?case using q vfs_wfD(1,2) [OF assms, of q a] by simp
  next
    case (2 q r a)
    then show ?case using vfs_wfD(3) [OF assms, of q a r] by (cases "q = p"; cases "r = p") auto
  next
    case (3 a g)
    then have a: "a \<noteq> b" "fs_heap v a = Some g" by (auto split: if_splits)
    then obtain q where "file_systems v q = Some a" "a < next_arc v" using vfs_wfD(4,5) [OF assms, of a g] by auto
    moreover have "q \<noteq> p" using Some a calculation(1) by auto
    ultimately show ?case by (simp add: exI [of _ q])
  qed
qed (use assms in \<open>simp add: unmount_def\<close>)

lemma vfs_wf_call: "vfs_wf v \<Longrightarrow> vfs_wf (snd (with_upgraded a e call v))"
  unfolding vfs_wf_def with_upgraded_def by (auto split: option.split prod.split if_splits)

text \<open>What is left of a path below its mount point.\<close>

definition below :: "rstr \<Rightarrow> rstr \<Rightarrow> rstr" where
  "below p q = (if q = ROOT then p else drop (length q) p)"

lemma below_mount:
  assumes "longest_mount fss p (Ok (q, a))" and "is_absolute p"
  shows "(q = ROOT \<or> strip_prefix p q = Some (below p q)) \<and> (is_absolute (below p q) \<or> q = p \<and> below p q = [])"
proof -
  have "q = ROOT \<or> ancestor p q"
    using assms(1) by (auto simp: longest_mount_def mounted_ancestor_def split: if_splits)
  then show ?thesis
    using assms(2) by (auto simp: ancestor_def below_def strip_prefix_def is_absolute_def)
qed

lemma vfs_open_eq:
  assumes "is_absolute p" and "find_mount (file_systems v) p = Some r" and "longest_mount (file_systems v) p r"
  shows "vfs_open ops p v = (case r of
      Ok (q, a) \<Rightarrow> map_option (\<lambda>(res, f). (obind res (\<lambda>h. Ok \<lparr>node_path = p, node_handle = h, node_fs = a\<rparr>),
                      v\<lparr>fs_heap := (fs_heap v)(a \<mapsto> f)\<rparr>)) (fs_open ops (the (fs_heap v a)) (below p q))
    | _ \<Rightarrow> Some (Err NotFound, v))"
proof (cases r)
  case (Ok qa)
  obtain q a where qa: "qa = (q, a)" by fastforce
  have "(if q = ROOT then Some p else strip_prefix p q) = Some (below p q)"
    using below_mount [of "file_systems v" p q a] assms Ok qa by (auto simp: below_def)
  then show ?thesis using assms(2) Ok qa by (simp add: vfs_open_def)
qed (use assms(2,3) in \<open>simp_all add: vfs_open_def longest_mount_def\<close>)

text \<open>C31: Opening an absolute path of single-byte characters returns whenever the open of the file system it asks
  does. It asks the live file system at the longest mounted directory above the path, the root one if
  there is no other, for the rest of the path, and answers not found if there is none. The rest is an
  absolute path, or empty when the path is the mount point itself.\<close>

theorem open_uses_longest_mount:
  assumes "vfs_wf v" and "ascii p" and "is_absolute p"
  shows "\<exists>r. longest_mount (file_systems v) p r \<and>
    (case r of
      Ok (q, a) \<Rightarrow> (\<exists>f. fs_heap v a = Some f \<and> (is_absolute (below p q) \<or> q = p \<and> below p q = []) \<and>
        vfs_open ops p v = map_option (\<lambda>(res, f'). (obind res (\<lambda>h. Ok \<lparr>node_path = p, node_handle = h, node_fs = a\<rparr>),
            v\<lparr>fs_heap := (fs_heap v)(a \<mapsto> f')\<rparr>)) (fs_open ops f (below p q)))
    | Err _ \<Rightarrow> vfs_open ops p v = Some (Err NotFound, v)
    | Panic \<Rightarrow> False)"
proof -
  obtain r where r: "find_mount (file_systems v) p = Some r" "longest_mount (file_systems v) p r"
    using find_mount_longest [OF assms(2,3)] by blast
  note eq = vfs_open_eq [OF assms(3) r, of ops]
  show ?thesis
  proof (intro exI [of _ r] conjI)
    show "case r of
      Ok (q, a) \<Rightarrow> (\<exists>f. fs_heap v a = Some f \<and> (is_absolute (below p q) \<or> q = p \<and> below p q = []) \<and>
        vfs_open ops p v = map_option (\<lambda>(res, f'). (obind res (\<lambda>h. Ok \<lparr>node_path = p, node_handle = h, node_fs = a\<rparr>),
            v\<lparr>fs_heap := (fs_heap v)(a \<mapsto> f')\<rparr>)) (fs_open ops f (below p q)))
    | Err _ \<Rightarrow> vfs_open ops p v = Some (Err NotFound, v)
    | Panic \<Rightarrow> False"
    proof (cases r)
      case (Ok qa)
      obtain q a where qa: "qa = (q, a)" by fastforce
      then have "file_systems v q = Some a" using r(2) Ok by (simp add: longest_mount_def)
      then obtain f where "fs_heap v a = Some f" using vfs_wfD(2) [OF assms(1), of q a] by auto
      then show ?thesis using eq Ok qa below_mount [of "file_systems v" p q a] r(2) assms(3) by simp
    qed (use eq r(2) in \<open>simp_all add: longest_mount_def\<close>)
  qed (rule r(2))
qed

text \<open>A file system with one file \<open>/a\<close> and a single handle.\<close>

definition single_file :: "unit file_system" where
  "single_file = \<lparr>fs_open = (\<lambda>f p. Some (if p = [47, 97] then Ok (FsHandle 0) else Err NotFound, f)),
     fs_close = (\<lambda>f h. (Ok (), f)), fs_read = (\<lambda>f h b k. (Err EndOfFile, b, f)),
     fs_write = (\<lambda>f h b k. (Ok (length b), f)), fs_stat = (\<lambda>f h st. (Ok (), st\<lparr>stat_size := 0\<rparr>, f)),
     fs_mmap = default_mmap, fs_ioctl = default_ioctl, fs_fsync = (\<lambda>f h. (Ok (), f))\<rparr>"

lemma longest_mount_single:
  assumes "longest_mount [p \<mapsto> 0] q r" and "ancestor q p"
  shows "r = Ok (p, 0)"
proof -
  have "\<exists>q'. mounted_ancestor [p \<mapsto> 0] q q'" using assms(2) by (auto simp: mounted_ancestor_def)
  then show ?thesis
    using assms(1) by (cases r) (auto simp: longest_mount_def mounted_ancestor_def split: if_splits)
qed

theorem open_uses_longest_mount_witness:
  "vfs_open single_file [47, 109, 47, 97] (snd (mount [47, 109] () vfs_new)) =
     Some (Ok \<lparr>node_path = [47, 109, 47, 97], node_handle = FsHandle 0, node_fs = 0\<rparr>, snd (mount [47, 109] () vfs_new))"
proof -
  define v where "v = snd (mount [47, 109] () vfs_new)"
  have v: "v = \<lparr>file_systems = [[47, 109] \<mapsto> 0], fs_heap = [0 \<mapsto> ()], next_arc = 1\<rparr>"
    by (simp add: v_def mount_def vfs_new_def)
  have "vfs_wf v" unfolding v_def by (rule vfs_wf_mount [OF vfs_wf_new]) (simp add: is_absolute_def FILEPATH_SEPARATOR_def)
  moreover have anc: "ancestor [47, 109, 47, 97] [47, 109]"
    by (simp add: ancestor_def FILEPATH_SEPARATOR_def components_def)
  moreover have "ascii [47, 109, 47, 97]" "is_absolute [47, 109, 47, 97]"
    by (simp_all add: is_absolute_def FILEPATH_SEPARATOR_def)
  ultimately obtain r where r: "longest_mount (file_systems v) [47, 109, 47, 97] r"
    "case r of
      Ok (q, a) \<Rightarrow> (\<exists>f. fs_heap v a = Some f \<and> (is_absolute (below [47, 109, 47, 97] q) \<or> q = [47, 109, 47, 97] \<and> below [47, 109, 47, 97] q = []) \<and>
        vfs_open single_file [47, 109, 47, 97] v = map_option (\<lambda>(res, f').
            (obind res (\<lambda>h. Ok \<lparr>node_path = [47, 109, 47, 97], node_handle = h, node_fs = a\<rparr>),
             v\<lparr>fs_heap := (fs_heap v)(a \<mapsto> f')\<rparr>)) (fs_open single_file f (below [47, 109, 47, 97] q)))
    | Err _ \<Rightarrow> vfs_open single_file [47, 109, 47, 97] v = Some (Err NotFound, v)
    | Panic \<Rightarrow> False"
    using open_uses_longest_mount [of v "[47, 109, 47, 97]" single_file] by blast
  then have "r = Ok ([47, 109], 0)"
    using longest_mount_single [of "[47, 109]" "[47, 109, 47, 97]" r] anc by (simp add: v)
  then show ?thesis
    using r(2) unfolding v_def [symmetric] by (simp add: below_def ROOT_def FILEPATH_SEPARATOR_def single_file_def v)
qed

section \<open>Handles of open nodes\<close>

lemma vfs_open_cases [consumes 1]:
  assumes "vfs_open ops p v = Some (r, v')"
  obtains (idle) "v' = v" "\<not> is_ok r"
  | (called) q a path ro f' where "find_mount (file_systems v) p = Some (Ok (q, a))"
      "fs_open ops (the (fs_heap v a)) path = Some (ro, f')" "v' = v\<lparr>fs_heap := (fs_heap v)(a \<mapsto> f')\<rparr>"
      "r = obind ro (\<lambda>h. Ok \<lparr>node_path = p, node_handle = h, node_fs = a\<rparr>)"
proof -
  obtain found where found: "find_mount (file_systems v) p = Some found"
    using assms by (auto simp: vfs_open_def split: option.splits)
  show thesis
  proof (cases found)
    case (Ok qa)
    obtain q a where qa: "qa = (q, a)" by fastforce
    show thesis
    proof (cases "if q = ROOT then Some p else strip_prefix p q")
      case None
      show thesis by (rule idle; use None assms found Ok qa in \<open>auto simp: vfs_open_def\<close>)
    next
      case (Some path)
      then show thesis using called [of q a path] assms found Ok qa by (auto simp: vfs_open_def)
    qed
  qed (rule idle; use assms found in \<open>auto simp: vfs_open_def\<close>)+
qed

text \<open>What a file system promises of its handles: a successful \<open>open\<close> gives a handle that was not open,
  as long as its counter is not \<open>exhausted\<close>, \<open>close\<close> closes exactly the handle it is given, and no
  other method opens or closes one.\<close>

locale handle_provider =
  fixes ops :: "'f file_system"
    and handles :: "'f \<Rightarrow> fs_handle set"
    and valid :: "'f \<Rightarrow> bool"
    and exhausted :: "'f \<Rightarrow> bool"
  assumes open_ok: "\<lbrakk>valid f; \<not> exhausted f; fs_open ops f p = Some (Ok h, f')\<rbrakk>
      \<Longrightarrow> h \<notin> handles f \<and> handles f' = insert h (handles f) \<and> valid f'"
    and open_fail: "\<lbrakk>valid f; \<not> exhausted f; fs_open ops f p = Some (ro, f'); \<not> is_ok ro\<rbrakk>
      \<Longrightarrow> handles f' = handles f \<and> valid f'"
    and close_ok: "fs_close ops f h = (r, f') \<Longrightarrow>
        r = (if h \<in> handles f then Ok () else Err NotOpen) \<and> handles f' = handles f - {h} \<and> (valid f \<longrightarrow> valid f')"
    and read_keeps: "fs_read ops f h b k = (rr, b', f') \<Longrightarrow> handles f' = handles f \<and> (valid f \<longrightarrow> valid f')"
    and write_keeps: "fs_write ops f h b k = (rw, f') \<Longrightarrow> handles f' = handles f \<and> (valid f \<longrightarrow> valid f')"
    and stat_keeps: "fs_stat ops f h st = (rs, st', f') \<Longrightarrow> handles f' = handles f \<and> (valid f \<longrightarrow> valid f')"
    and mmap_keeps: "fs_mmap ops f h = (rm, f') \<Longrightarrow> handles f' = handles f \<and> (valid f \<longrightarrow> valid f')"
    and ioctl_keeps: "fs_ioctl ops f h request b = (ri, b', f') \<Longrightarrow> handles f' = handles f \<and> (valid f \<longrightarrow> valid f')"
    and fsync_keeps: "fs_fsync ops f h = (rf, f') \<Longrightarrow> handles f' = handles f \<and> (valid f \<longrightarrow> valid f')"

text \<open>A history of the mount table and of the open nodes: any sequence of mounts of fresh file systems,
  unmounts, opens, operations on open nodes and drops.\<close>

inductive vfs_history :: "'f file_system \<Rightarrow> ('f \<Rightarrow> bool) \<Rightarrow> ('f \<Rightarrow> bool) \<Rightarrow> 'f vfs \<Rightarrow> vfs_node list \<Rightarrow> bool"
  for ops fresh exhausted where
  start: "vfs_history ops fresh exhausted vfs_new []"
| do_mount: "vfs_history ops fresh exhausted v ns \<Longrightarrow> is_absolute p \<Longrightarrow> fresh f \<Longrightarrow>
    vfs_history ops fresh exhausted (snd (mount p f v)) ns"
| do_unmount: "vfs_history ops fresh exhausted v ns \<Longrightarrow> vfs_history ops fresh exhausted (snd (unmount p v)) ns"
| do_open: "vfs_history ops fresh exhausted v ns \<Longrightarrow> (\<And>a f. fs_heap v a = Some f \<Longrightarrow> \<not> exhausted f) \<Longrightarrow>
    vfs_open ops p v = Some (r, v') \<Longrightarrow>
    vfs_history ops fresh exhausted v' (case r of Ok n \<Rightarrow> n # ns | _ \<Rightarrow> ns)"
| do_drop: "vfs_history ops fresh exhausted v (ns @ n # ms) \<Longrightarrow>
    vfs_history ops fresh exhausted (snd (node_drop ops n v)) (ns @ ms)"
| do_read: "vfs_history ops fresh exhausted v ns \<Longrightarrow> n \<in> set ns \<Longrightarrow>
    vfs_history ops fresh exhausted (snd (node_read ops n b k v)) ns"
| do_write: "vfs_history ops fresh exhausted v ns \<Longrightarrow> n \<in> set ns \<Longrightarrow>
    vfs_history ops fresh exhausted (snd (node_write ops n b k v)) ns"
| do_stat: "vfs_history ops fresh exhausted v ns \<Longrightarrow> n \<in> set ns \<Longrightarrow>
    vfs_history ops fresh exhausted (snd (node_stat ops n st v)) ns"
| do_mmap: "vfs_history ops fresh exhausted v ns \<Longrightarrow> n \<in> set ns \<Longrightarrow>
    vfs_history ops fresh exhausted (snd (node_mmap ops n v)) ns"
| do_ioctl: "vfs_history ops fresh exhausted v ns \<Longrightarrow> n \<in> set ns \<Longrightarrow>
    vfs_history ops fresh exhausted (snd (node_ioctl ops n request b v)) ns"
| do_fsync: "vfs_history ops fresh exhausted v ns \<Longrightarrow> n \<in> set ns \<Longrightarrow>
    vfs_history ops fresh exhausted (snd (node_fsync ops n v)) ns"

text \<open>The handles of the nodes of one file system.\<close>

definition handles_at :: "nat \<Rightarrow> vfs_node list \<Rightarrow> fs_handle list" where
  "handles_at a ns = map node_handle (filter (\<lambda>n. node_fs n = a) ns)"

lemma handles_at_simps [simp]:
  "handles_at a [] = []"
  "handles_at a (n # ns) = (if node_fs n = a then [node_handle n] else []) @ handles_at a ns"
  "handles_at a (ns @ ms) = handles_at a ns @ handles_at a ms"
  by (simp_all add: handles_at_def)

definition nodes_exact :: "('f \<Rightarrow> fs_handle set) \<Rightarrow> ('f \<Rightarrow> bool) \<Rightarrow> 'f vfs \<Rightarrow> vfs_node list \<Rightarrow> bool" where
  "nodes_exact handles valid v ns \<longleftrightarrow> vfs_wf v \<and> (\<forall>n \<in> set ns. node_fs n < next_arc v) \<and>
    (\<forall>a f. fs_heap v a = Some f \<longrightarrow> valid f \<and> handles f = set (handles_at a ns) \<and> distinct (handles_at a ns))"

lemma nodes_exactD:
  assumes "nodes_exact handles valid v ns"
  shows "vfs_wf v" and "n \<in> set ns \<Longrightarrow> node_fs n < next_arc v"
    and "fs_heap v a = Some f \<Longrightarrow> valid f \<and> handles f = set (handles_at a ns) \<and> distinct (handles_at a ns)"
  using assms by (simp_all add: nodes_exact_def)

context handle_provider
begin

abbreviation exact :: "'f vfs \<Rightarrow> vfs_node list \<Rightarrow> bool" where
  "exact \<equiv> nodes_exact handles valid"

text \<open>A call that keeps the handles.\<close>

lemma exact_call:
  assumes "exact v ns" and "\<And>f r f'. call f = (r, f') \<Longrightarrow> handles f' = handles f \<and> (valid f \<longrightarrow> valid f')"
  shows "exact (snd (with_upgraded a e call v)) ns"
proof (cases "fs_heap v a")
  case (Some f)
  obtain r f' where c: "call f = (r, f')" by fastforce
  then have v': "snd (with_upgraded a e call v) = v\<lparr>fs_heap := (fs_heap v)(a \<mapsto> f')\<rparr>"
    using Some by (simp add: with_upgraded_def)
  show ?thesis
    using assms(1) assms(2) [OF c] Some vfs_wf_call [of v a e call] v' unfolding nodes_exact_def
    by (simp split: if_splits)
qed (use assms in \<open>simp add: with_upgraded_def\<close>)

lemma exact_mount:
  assumes "exact v ns" and "is_absolute p" and "valid f" and "handles f = {}"
  shows "exact (snd (mount p f v)) ns"
proof (cases "file_systems v p")
  case None
  have "handles_at (next_arc v) ns = []"
    using nodes_exactD(2) [OF assms(1)] by (fastforce simp: handles_at_def filter_empty_conv)
  then show ?thesis
    using assms None vfs_wf_mount [of v p f] nodes_exactD(3) [OF assms(1)] unfolding nodes_exact_def
    by (auto simp: mount_def less_SucI)
qed (use assms in \<open>simp add: mount_def\<close>)

lemma exact_unmount: "exact v ns \<Longrightarrow> exact (snd (unmount p v)) ns"
  using vfs_wf_unmount [of v p] unfolding nodes_exact_def by (auto simp: unmount_def split: option.splits if_splits)

lemma exact_open:
  assumes "exact v ns" and "\<And>a f. fs_heap v a = Some f \<Longrightarrow> \<not> exhausted f" and "vfs_open ops p v = Some (r, v')"
  shows "exact v' (case r of Ok n \<Rightarrow> n # ns | _ \<Rightarrow> ns)"
  using assms(3)
proof (cases rule: vfs_open_cases)
  case idle
  then show ?thesis using assms(1) by (cases r) auto
next
  case (called q a path ro f')
  obtain f where f: "fs_heap v a = Some f"
    using vfs_wfD(2) [OF nodes_exactD(1) [OF assms(1)] find_mount_mounted [OF called(1)]] by auto
  then have o: "fs_open ops f path = Some (ro, f')" using called(2) by simp
  note v' = called(3,4)
  have wf: "vfs_wf v'"
    using vfs_wf_call [of v a "()" "\<lambda>_. ((), f')"] nodes_exactD(1) [OF assms(1)] f v' by (simp add: with_upgraded_def)
  have a: "a < next_arc v" using vfs_wfD(4) [OF nodes_exactD(1) [OF assms(1)] f] .
  note old = nodes_exactD(3) [OF assms(1)]
  show ?thesis
  proof (cases ro)
    case (Ok h)
    then show ?thesis
      using open_ok [of f path h f'] old [OF f] old assms(2) [OF f] o f v' wf a nodes_exactD(2) [OF assms(1)]
      by (auto simp: nodes_exact_def)
  qed (use open_fail [OF _ _ o] old [OF f] assms(2) [OF f] old v' wf nodes_exactD(2) [OF assms(1)] in \<open>auto simp: nodes_exact_def\<close>)
qed

lemma exact_drop:
  assumes "exact v (ns @ n # ms)"
  shows "exact (snd (node_drop ops n v)) (ns @ ms)"
proof (cases "fs_heap v (node_fs n)")
  case None
  have "valid f \<and> handles f = set (handles_at a (ns @ ms)) \<and> distinct (handles_at a (ns @ ms))"
    if "fs_heap v a = Some f" for a f
  proof -
    have "a \<noteq> node_fs n" using that None by auto
    then show ?thesis using nodes_exactD(3) [OF assms that] by simp
  qed
  then show ?thesis
    using None nodes_exactD(1,2) [OF assms] by (simp add: nodes_exact_def node_drop_def with_upgraded_def)
next
  case (Some f)
  obtain rc f' where c: "fs_close ops f (node_handle n) = (rc, f')" by fastforce
  have v': "snd (node_drop ops n v) = v\<lparr>fs_heap := (fs_heap v)(node_fs n \<mapsto> f')\<rparr>" (is "?v' = _")
    using Some c by (simp add: node_drop_def with_upgraded_def)
  have wf: "vfs_wf ?v'"
    using nodes_exactD(1) [OF assms] unfolding node_drop_def by (rule vfs_wf_call)
  have "valid g \<and> handles g = set (handles_at a (ns @ ms)) \<and> distinct (handles_at a (ns @ ms))"
    if "fs_heap ?v' a = Some g" for a g
  proof (cases "a = node_fs n")
    case True
    then show ?thesis using that close_ok [OF c] nodes_exactD(3) [OF assms Some] v' by auto
  next
    case False
    then have "fs_heap v a = Some g" using that v' by simp
    then show ?thesis using nodes_exactD(3) [OF assms, of a g] False by simp
  qed
  moreover have "node_fs m < next_arc ?v'" if "m \<in> set (ns @ ms)" for m
    using that nodes_exactD(2) [OF assms, of m] v' by auto
  ultimately show ?thesis using wf by (simp add: nodes_exact_def)
qed

lemma exact_history:
  assumes "vfs_history ops (\<lambda>f. valid f \<and> handles f = {}) exhausted v ns"
  shows "exact v ns"
  using assms
proof (induction rule: vfs_history.induct)
  case start
  then show ?case by (simp add: nodes_exact_def vfs_wf_new) (simp add: vfs_new_def)
next
  case (do_read v ns n b k)
  then show ?case unfolding node_read_def
    by (intro exact_call) (auto simp: with_buffer_def dest: read_keeps split: prod.splits)
next
  case (do_write v ns n b k)
  then show ?case unfolding node_write_def by (intro exact_call) (auto dest: write_keeps)
next
  case (do_stat v ns n st)
  then show ?case unfolding node_stat_def
    by (intro exact_call) (auto simp: with_buffer_def dest: stat_keeps split: prod.splits)
next
  case (do_mmap v ns n)
  then show ?case unfolding node_mmap_def by (intro exact_call) (auto dest: mmap_keeps)
next
  case (do_ioctl v ns n request b)
  then show ?case unfolding node_ioctl_def
    by (intro exact_call) (auto simp: with_buffer_def dest: ioctl_keeps split: prod.splits)
next
  case (do_fsync v ns n)
  then show ?case unfolding node_fsync_def by (intro exact_call) (auto dest: fsync_keeps)
qed (use exact_mount exact_unmount exact_open exact_drop in auto)

end

end
