(* ===== verification/Block_Device.thy ===== *)
theory Block_Device
  imports Muffin_Prelude
begin

text \<open>
  Block devices (\<open>kernel/device/src/block\<close>): the trait \<open>BlockDevice\<close> as a record of sector
  operations, its provided methods \<open>read_at\<close> and \<open>write_at\<close> that turn byte ranges into whole
  sectors, and the device in memory. The locale \<open>sector_device\<close> is the contract of the sector
  operations; from it follow that \<open>read_at\<close> returns a slice of the device's bytes and that
  \<open>write_at\<close> overwrites one. The device in memory satisfies the contract.
\<close>

section \<open>The trait and its provided methods\<close>

text \<open>
  A read takes the length of the buffer and yields the count the method returns with the bytes
  it left in the buffer; a write yields its outcome beside the device.
\<close>

record ('d, 'e) block_device =
  sector_size :: "'d \<Rightarrow> nat"
  sector_count :: "'d \<Rightarrow> nat"
  read_sector :: "'d \<Rightarrow> nat \<Rightarrow> nat \<Rightarrow> ('e, nat \<times> bytes) outcome"
  write_sector :: "'d \<Rightarrow> nat \<Rightarrow> bytes \<Rightarrow> ('e, nat, 'd) run"

primrec read_sectors :: "('d, 'e) block_device \<Rightarrow> 'd \<Rightarrow> nat \<Rightarrow> nat \<Rightarrow> ('e, bytes) outcome" where
  "read_sectors ops d i 0 = Ok []"
| "read_sectors ops d i (Suc k) =
    obind (read_sector ops d i (sector_size ops d)) (\<lambda>(_, sector).
    obind (read_sectors ops d (Suc i) k) (\<lambda>rest. Ok (sector @ rest)))"

definition read_at :: "('d, 'e) block_device \<Rightarrow> 'd \<Rightarrow> nat \<Rightarrow> nat \<Rightarrow> ('e, nat \<times> bytes) outcome" where
  "read_at ops d offset n = (
    if n = 0 then Ok (0, [])
    else let ss = sector_size ops d in
    if ss = 0 then Panic
    else if offset mod ss = 0 \<and> n = ss then read_sector ops d (offset div ss) n
    else let start_sector = offset div ss; relative_offset = offset mod ss in
    obind (unwrap (checked_add offset n)) (\<lambda>fin.
    let end_sector = (fin - 1) div ss; sectors = end_sector - start_sector + 1 in
    obind (unwrap (checked_mul sectors ss)) (\<lambda>_.
    obind (read_sectors ops d start_sector sectors) (\<lambda>data.
    obind (index_range relative_offset (relative_offset + n) data) (\<lambda>buf. Ok (n, buf))))))"

text \<open>Read a sector, replace a part of it, write it back.\<close>

definition patch_sector ::
  "('d, 'e) block_device \<Rightarrow> 'd \<Rightarrow> nat \<Rightarrow> nat \<Rightarrow> bytes \<Rightarrow> ('e, nat, 'd) run" where
  "patch_sector ops d i at part =
    lift_pure (read_sector ops d i (sector_size ops d)) d (\<lambda>(_, sector).
    lift_pure (copy_into at part sector) d (\<lambda>sector'. write_sector ops d i sector'))"

primrec write_chunks ::
  "('d, 'e) block_device \<Rightarrow> 'd \<Rightarrow> nat \<Rightarrow> bytes list \<Rightarrow> ('e, unit, 'd) run" where
  "write_chunks ops d i [] = (Ok (), d)"
| "write_chunks ops d i (c # cs) =
    sbind (write_sector ops d i c) (\<lambda>_ d'. write_chunks ops d' (Suc i) cs)"

definition write_at :: "('d, 'e) block_device \<Rightarrow> 'd \<Rightarrow> nat \<Rightarrow> bytes \<Rightarrow> ('e, nat, 'd) run" where
  "write_at ops d offset buf = (
    if buf = [] then (Ok 0, d)
    else let ss = sector_size ops d in
    if ss = 0 then (Panic, d)
    else if offset mod ss = 0 \<and> length buf = ss then write_sector ops d (offset div ss) buf
    else lift_pure (unwrap (checked_add offset (length buf))) d (\<lambda>fin.
    let start_sector = offset div ss; start_offset = offset mod ss;
        end_sector = (fin - 1) div ss; end_offset = fin - end_sector * ss in
    if start_sector = end_sector then
      sbind (patch_sector ops d start_sector start_offset buf) (\<lambda>_ d. (Ok (length buf), d))
    else let head_len = ss - start_offset; tail_start = length buf - end_offset in
      sbind (if start_offset = 0 then write_sector ops d start_sector (take ss buf)
             else patch_sector ops d start_sector start_offset (take head_len buf)) (\<lambda>_ d.
      sbind (write_chunks ops d (start_sector + 1)
               (chunks_exact ss (slice head_len tail_start buf))) (\<lambda>_ d.
      sbind (if end_offset = ss then write_sector ops d end_sector (drop tail_start buf)
             else patch_sector ops d end_sector 0 (drop tail_start buf)) (\<lambda>_ d.
      (Ok (length buf), d))))))"

section \<open>The contract of the sector operations\<close>

text \<open>
  \<open>contents d\<close> are the bytes of the device, a whole number of sectors. Inside the device a
  sector read returns its bytes and a sector write replaces exactly them.
\<close>

locale sector_device =
  fixes ops :: "('d, 'e) block_device"
    and valid :: "'d \<Rightarrow> bool"
    and contents :: "'d \<Rightarrow> bytes"
  assumes sector_size_pos: "valid d \<Longrightarrow> 0 < sector_size ops d"
    and fits_usize: "valid d \<Longrightarrow> length (contents d) < U64_LIMIT"
    and read_sector_law:
      "valid d \<Longrightarrow> Suc i * sector_size ops d \<le> length (contents d) \<Longrightarrow>
        read_sector ops d i (sector_size ops d) =
          Ok (sector_size ops d, slice (i * sector_size ops d) (Suc i * sector_size ops d) (contents d))"
    and write_sector_law:
      "valid d \<Longrightarrow> Suc i * sector_size ops d \<le> length (contents d) \<Longrightarrow>
        length buf = sector_size ops d \<Longrightarrow>
        \<exists>d'. write_sector ops d i buf = (Ok (length buf), d') \<and> valid d' \<and>
          sector_size ops d' = sector_size ops d \<and>
          contents d' = overwrite (i * sector_size ops d) buf (contents d)"
    and whole_sectors: "valid d \<Longrightarrow> sector_size ops d dvd length (contents d)"
begin

text \<open>What a write leaves behind.\<close>

definition wrote :: "'d \<Rightarrow> nat \<Rightarrow> bytes \<Rightarrow> 'd \<Rightarrow> bool" where
  "wrote d a buf d' \<longleftrightarrow> valid d' \<and> sector_size ops d' = sector_size ops d \<and>
    contents d' = overwrite a buf (contents d)"

lemma wrote_append:
  assumes "wrote d a xs d1" and "wrote d1 (a + length xs) ys d2"
    and "a + length xs + length ys \<le> length (contents d)"
  shows "wrote d a (xs @ ys) d2"
  using assms by (simp add: wrote_def overwrite_overwrite_append)

lemma wrote_length: "wrote d a buf d' \<Longrightarrow> a + length buf \<le> length (contents d) \<Longrightarrow>
  length (contents d') = length (contents d)"
  by (simp add: wrote_def)

lemma sector_inside:
  assumes "valid d" and "offset + n \<le> length (contents d)" and "0 < n"
  shows "Suc ((offset + n - 1) div sector_size ops d) * sector_size ops d \<le> length (contents d)"
proof -
  obtain k where k: "length (contents d) = sector_size ops d * k"
    using whole_sectors [OF assms(1)] by (auto elim: dvdE)
  have "(offset + n - 1) div sector_size ops d < k"
    using assms(2,3) k sector_size_pos [OF assms(1)]
    by (intro less_mult_imp_div_less) (simp add: mult.commute)
  then show ?thesis unfolding k by (metis Suc_leI mult.commute mult_le_mono1)
qed

lemma read_sectors_slice:
  assumes "valid d" and "(i + k) * sector_size ops d \<le> length (contents d)"
  shows "read_sectors ops d i k =
    Ok (slice (i * sector_size ops d) ((i + k) * sector_size ops d) (contents d))"
  using assms(2)
proof (induction k arbitrary: i)
  case 0
  then show ?case by (simp add: slice_def)
next
  case (Suc k)
  have "Suc i * sector_size ops d \<le> (i + Suc k) * sector_size ops d" by (intro mult_le_mono1) simp
  then have "read_sector ops d i (sector_size ops d) =
      Ok (sector_size ops d, slice (i * sector_size ops d) (Suc i * sector_size ops d) (contents d))"
    using Suc.prems by (intro read_sector_law assms(1)) linarith
  moreover have "read_sectors ops d (Suc i) k =
      Ok (slice (Suc i * sector_size ops d) ((i + Suc k) * sector_size ops d) (contents d))"
    using Suc.IH [of "Suc i"] Suc.prems by simp
  ultimately show ?case
    by (simp add: slice_append)
qed

lemma read_at_slice:
  assumes "valid d" and "offset + n \<le> length (contents d)"
  shows "read_at ops d offset n = Ok (n, slice offset (offset + n) (contents d))"
proof (cases "n = 0")
  case True
  then show ?thesis by (simp add: read_at_def slice_def)
next
  case False
  define ss where "ss = sector_size ops d"
  define a where "a = offset div ss"
  define b where "b = (offset + n - 1) div ss"
  have ss: "0 < ss" using sector_size_pos assms(1) by (simp add: ss_def)
  have off: "offset = a * ss + offset mod ss" by (simp add: a_def)
  have inside: "Suc b * ss \<le> length (contents d)"
    using sector_inside [OF assms] False by (simp add: b_def ss_def)
  have ab: "a \<le> b" unfolding a_def b_def using False by (intro div_le_mono) simp
  have endb: "offset + n \<le> Suc b * ss"
    using dividend_less_div_times [OF ss, of "offset + n - 1"] False by (simp add: b_def)
  show ?thesis
  proof (cases "offset mod ss = 0 \<and> n = ss")
    case True
    then have "Suc a * ss = offset + n" "a * ss = offset" using off by simp_all
    then show ?thesis using True assms read_sector_law [OF assms(1), of a] ss False
      by (simp add: read_at_def a_def add.commute [of ss] flip: ss_def)
  next
    case unaligned: False
    have sectors: "a + (b - a + 1) = Suc b" using ab by simp
    have "(b - a + 1) * ss \<le> Suc b * ss" by (intro mult_le_mono1) simp
    then have fits: "offset + n < U64_LIMIT" "(b - a + 1) * ss < U64_LIMIT"
      using inside assms(2) fits_usize [OF assms(1)] by linarith+
    have data: "read_sectors ops d a (b - a + 1) = Ok (slice (a * ss) (Suc b * ss) (contents d))"
      using read_sectors_slice [OF assms(1), of a "b - a + 1"] inside sectors by (simp flip: ss_def)
    have rel: "offset mod ss + n \<le> Suc b * ss - a * ss" using endb off by linarith
    have "slice (offset mod ss) (offset mod ss + n) (slice (a * ss) (Suc b * ss) (contents d))
        = slice offset (offset + n) (contents d)"
      using rel inside off by (simp add: slice_slice)
    then show ?thesis using False unaligned ss fits data rel inside
      by (cases "offset mod ss = 0")
        (simp_all add: read_at_def a_def b_def unwrap_def checked_add_def checked_mul_def
          index_range_def Let_def flip: ss_def)
  qed
qed

lemma write_sector_wrote:
  assumes "valid d" and "sector_size ops d = ss" and "Suc i * ss \<le> length (contents d)"
    and "length buf = ss"
  obtains d' where "write_sector ops d i buf = (Ok ss, d')" and "wrote d (i * ss) buf d'"
  using write_sector_law [OF assms(1), of i buf] assms by (auto simp: wrote_def)

lemma patch_sector_wrote:
  assumes "valid d" and "sector_size ops d = ss" and "Suc i * ss \<le> length (contents d)"
    and "at + length part \<le> ss"
  obtains d' where "patch_sector ops d i at part = (Ok ss, d')" and "wrote d (i * ss + at) part d'"
proof -
  let ?s = "slice (i * ss) (Suc i * ss) (contents d)"
  have len: "length ?s = ss" using assms(3) by simp
  then have "length (overwrite at part ?s) = ss" using assms(4) by simp
  then obtain d' where d': "write_sector ops d i (overwrite at part ?s) = (Ok ss, d')"
      "wrote d (i * ss) (overwrite at part ?s) d'"
    using write_sector_wrote [OF assms(1-3)] by blast
  have "overwrite (i * ss) (overwrite at part ?s) (contents d) = overwrite (i * ss + at) part (contents d)"
    using assms(3,4) by (intro overwrite_patch) simp_all
  then have "wrote d (i * ss + at) part d'" using d'(2) by (simp add: wrote_def)
  moreover have "patch_sector ops d i at part = (Ok ss, d')"
    using read_sector_law [OF assms(1), of i] assms len d'(1)
    by (simp add: patch_sector_def copy_into_def)
  ultimately show thesis using that by blast
qed

lemma write_chunks_wrote:
  assumes "valid d" and "sector_size ops d = ss" and "\<forall>c \<in> set cs. length c = ss"
    and "(i + length cs) * ss \<le> length (contents d)"
  shows "\<exists>d'. write_chunks ops d i cs = (Ok (), d') \<and> wrote d (i * ss) (concat cs) d'"
  using assms
proof (induction cs arbitrary: d i)
  case Nil
  then show ?case by (simp add: wrote_def)
next
  case (Cons c cs)
  have "Suc i * ss \<le> (i + length (c # cs)) * ss" by (intro mult_le_mono1) simp
  then have inside: "Suc i * ss \<le> length (contents d)" using Cons.prems(4) by linarith
  obtain d1 where d1: "write_sector ops d i c = (Ok ss, d1)" "wrote d (i * ss) c d1"
    using write_sector_wrote [OF Cons.prems(1,2) inside] Cons.prems(3) by auto
  have len: "length (contents d1) = length (contents d)"
    using wrote_length [OF d1(2)] Cons.prems(3) inside by simp
  obtain d2 where d2: "write_chunks ops d1 (Suc i) cs = (Ok (), d2)" "wrote d1 (Suc i * ss) (concat cs) d2"
    using Cons.IH [of d1 "Suc i"] d1(2) Cons.prems len by (auto simp: wrote_def)
  have cs: "length (concat cs) = length cs * ss"
    using Cons.prems(3) by (induction cs) (auto simp: length_concat)
  have c: "length c = ss" using Cons.prems(3) by simp
  have "wrote d (i * ss) (c @ concat cs) d2"
    using wrote_append [OF d1(2), of "concat cs" d2] d2(2) Cons.prems(4) c cs by (simp add: algebra_simps)
  then show ?case using d1(1) d2(1) by simp
qed

lemma write_at_spanning:
  assumes "valid d" and ss: "ss = sector_size ops d" and "0 < ss"
    and buf: "buf = h @ concat cs @ t" and cs: "\<forall>c \<in> set cs. length c = ss"
    and "offset = a * ss + s" and "s + length h = ss" and "length t \<le> ss"
    and inside: "Suc (Suc (a + length cs)) * ss \<le> length (contents d)"
  shows "\<exists>d'. sbind (if s = 0 then write_sector ops d a h else patch_sector ops d a s h) (\<lambda>_ d.
      sbind (write_chunks ops d (a + 1) cs) (\<lambda>_ d.
      sbind (if length t = ss then write_sector ops d (Suc (a + length cs)) t
             else patch_sector ops d (Suc (a + length cs)) 0 t) (\<lambda>_ d. (Ok n, d)))) = (Ok n, d') \<and>
    wrote d offset buf d'"
proof -
  have le: "Suc a * ss \<le> Suc (Suc (a + length cs)) * ss" by (intro mult_le_mono1) simp
  have "\<exists>d1 m. (if s = 0 then write_sector ops d a h else patch_sector ops d a s h) = (Ok m, d1) \<and>
      wrote d (a * ss + s) h d1"
  proof (cases "s = 0")
    case True
    show ?thesis using assms(7) inside le True
      by (auto intro: write_sector_wrote [OF assms(1) ss [symmetric], of a h])
  next
    case False
    show ?thesis using assms(7) inside le False
      by (auto intro: patch_sector_wrote [OF assms(1) ss [symmetric], of a s h])
  qed
  then obtain d1 m where d1: "(if s = 0 then write_sector ops d a h else patch_sector ops d a s h) = (Ok m, d1)"
    "wrote d offset h d1" using assms(6) by auto
  have len1: "length (contents d1) = length (contents d)" and v1: "valid d1" "sector_size ops d1 = ss"
    using wrote_length [OF d1(2)] d1(2) assms(6,7) inside le ss by (auto simp: wrote_def)
  obtain d2 where d2: "write_chunks ops d1 (Suc a) cs = (Ok (), d2)" "wrote d1 (Suc a * ss) (concat cs) d2"
    using write_chunks_wrote [where i = "Suc a", OF v1 cs] inside len1 by auto
  have ccs: "length (concat cs) = length cs * ss"
    using cs by (induction cs) auto
  have len2: "length (contents d2) = length (contents d)" and v2: "valid d2" "sector_size ops d2 = ss"
    using wrote_length [OF d2(2)] d2(2) inside len1 ccs v1(2) by (auto simp: wrote_def algebra_simps)
  have "\<exists>d3 m. (if length t = ss then write_sector ops d2 (Suc (a + length cs)) t
      else patch_sector ops d2 (Suc (a + length cs)) 0 t) = (Ok m, d3) \<and>
      wrote d2 (Suc (a + length cs) * ss) t d3"
  proof (cases "length t = ss")
    case True
    show ?thesis using inside len2 True
      by (auto intro: write_sector_wrote [OF v2, of "Suc (a + length cs)" t])
  next
    case False
    show ?thesis using assms(8) inside len2 False
      by (auto intro: patch_sector_wrote [OF v2, of "Suc (a + length cs)" 0 t])
  qed
  then obtain d3 m' where d3: "(if length t = ss then write_sector ops d2 (Suc (a + length cs)) t
      else patch_sector ops d2 (Suc (a + length cs)) 0 t) = (Ok m', d3)"
    "wrote d2 (Suc (a + length cs) * ss) t d3" by auto
  have h: "offset + length h = Suc a * ss" using assms(6,7) by simp
  then have hcs: "offset + length (h @ concat cs) = Suc (a + length cs) * ss"
    using ccs by (simp add: algebra_simps)
  have "wrote d offset (h @ concat cs) d2"
    by (rule wrote_append [OF d1(2)]) (use d2(2) h hcs inside in auto)
  then have "wrote d offset ((h @ concat cs) @ t) d3"
    by (rule wrote_append) (use d3(2) hcs inside assms(8) in auto)
  then show ?thesis using d1(1) d2(1) d3(1) by (simp add: buf)
qed


lemma write_at_cases:
  assumes "valid d" and "ss = sector_size ops d" and "buf \<noteq> []"
    and "offset + length buf \<le> length (contents d)"
    and "a = offset div ss" and "s = offset mod ss" and "b = (offset + length buf - Suc 0) div ss"
    and "ts = b * ss - offset"
  shows "write_at ops d offset buf = (
    if s = 0 \<and> length buf = ss then write_sector ops d a buf
    else if a = b then sbind (patch_sector ops d a s buf) (\<lambda>_ d. (Ok (length buf), d))
    else sbind (if s = 0 then write_sector ops d a (take (ss - s) buf)
             else patch_sector ops d a s (take (ss - s) buf)) (\<lambda>_ d.
      sbind (write_chunks ops d (a + 1) (chunks_exact ss (slice (ss - s) ts buf))) (\<lambda>_ d.
      sbind (if length (drop ts buf) = ss then write_sector ops d b (drop ts buf)
             else patch_sector ops d b 0 (drop ts buf)) (\<lambda>_ d. (Ok (length buf), d)))))"
proof -
  have ss: "0 < ss" using sector_size_pos assms(1,2) by simp
  have fits: "offset + length buf < U64_LIMIT"
    using assms(4) fits_usize [OF assms(1)] by simp
  have "b * ss \<le> offset + length buf - 1" by (simp add: assms(7))
  moreover have "offset \<le> b * ss" if "a \<noteq> b"
  proof -
    have "a < b" using that div_le_mono [of offset "offset + length buf - 1" ss] assms(3,5,7)
      by (cases buf) auto
    then have "Suc a * ss \<le> b * ss" by (intro mult_le_mono1) simp
    moreover have "offset < Suc a * ss" using dividend_less_div_times [OF ss, of offset] assms(5) by simp
    ultimately show ?thesis by simp
  qed
  ultimately have "length buf - (offset + length buf - b * ss) = ts"
    "offset + length buf - b * ss = length buf - ts" if "a \<noteq> b"
    using that assms(3,8) by (cases buf; simp; linarith)+
  then show ?thesis
    using assms(3) ss fits
    by (simp add: write_at_def Let_def unwrap_def checked_add_def cong del: if_weak_cong
        flip: assms(2) assms(5) assms(6) assms(7))
qed

lemma write_at_wrote:
  assumes "valid d" and "offset + length buf \<le> length (contents d)"
  shows "\<exists>d'. write_at ops d offset buf = (Ok (length buf), d') \<and> wrote d offset buf d'"
proof (cases "buf = []")
  case True
  then show ?thesis using assms by (simp add: write_at_def wrote_def)
next
  case False
  define ss where "ss = sector_size ops d"
  define a where "a = offset div ss"
  define s where "s = offset mod ss"
  define b where "b = (offset + length buf - Suc 0) div ss"
  define ts where "ts = b * ss - offset"
  note eq = write_at_cases [OF assms(1) ss_def False assms(2) a_def s_def b_def ts_def]
  have ss: "0 < ss" "sector_size ops d = ss" using sector_size_pos assms(1) by (simp_all add: ss_def)
  have off: "offset = a * ss + s" "s < ss" using ss(1) by (simp_all add: a_def s_def)
  have n: "0 < length buf" using False by simp
  have inside: "Suc b * ss \<le> length (contents d)"
    using sector_inside [OF assms n] by (simp add: b_def ss_def)
  have "b * ss \<le> offset + length buf - 1" "offset + length buf - 1 < ss + b * ss"
    using dividend_less_div_times [OF ss(1)] by (simp_all add: b_def)
  then have fin: "b * ss < offset + length buf" "offset + length buf \<le> Suc b * ss"
    using n unfolding mult_Suc by linarith+
  have ab: "a \<le> b" unfolding a_def b_def using n by (intro div_le_mono) linarith
  consider "s = 0" "length buf = ss" | "\<not> (s = 0 \<and> length buf = ss)" "a = b" |
    "\<not> (s = 0 \<and> length buf = ss)" "a < b"
    using ab by linarith
  then show ?thesis
  proof cases
    case 1
    then have "Suc a * ss \<le> length (contents d)" using assms(2) off by simp
    then obtain d' where "write_sector ops d a buf = (Ok ss, d')" "wrote d (a * ss) buf d'"
      using write_sector_wrote [OF assms(1) ss(2), of a buf] 1 by auto
    then show ?thesis unfolding eq using 1 off by simp
  next
    case 2
    then have "s + length buf \<le> ss" using fin off by simp
    then obtain d' where "patch_sector ops d a s buf = (Ok ss, d')" "wrote d (a * ss + s) buf d'"
      using patch_sector_wrote [OF assms(1) ss(2), of a s buf] inside 2 by auto
    then show ?thesis unfolding eq using 2 off by auto
  next
    case 3
    then obtain k where k: "b = Suc (a + k)" by (metis less_imp_Suc_add)
    define cs where "cs = chunks_exact ss (slice (ss - s) ts buf)"
    have ts: "ts = k * ss + (ss - s)" "ts \<le> length buf" "ss - s \<le> ts"
      using fin(1) off by (simp_all add: ts_def k algebra_simps)
    then have mid: "length (slice (ss - s) ts buf) = k * ss" by simp
    have cs: "concat cs = slice (ss - s) ts buf" "length cs = k" "\<forall>c \<in> set cs. length c = ss"
      using chunks_exact_concat [OF ss(1) mid] chunks_exact_lengths by (auto simp: cs_def)
    have buf: "buf = take (ss - s) buf @ concat cs @ drop ts buf"
      using slice_append [of 0 "ss - s" ts buf] ts by (simp add: cs(1) slice_def flip: append_assoc)
    have "length (drop ts buf) \<le> ss" "s + length (take (ss - s) buf) = ss"
      using fin off ts by (simp_all add: ts_def k)
    then show ?thesis
      unfolding eq if_not_P [OF 3(1)]
      using write_at_spanning [OF assms(1) ss_def ss(1) buf cs(3) off(1), of "length buf"] 3(2) inside k cs(2)
      by (simp flip: cs_def cong del: if_weak_cong)
  qed
qed


end

section \<open>The device in memory\<close>

record memory_block_device =
  mem_sector_size :: nat
  mem_data :: bytes

text \<open>\<open>try_new\<close> divides by the sector size.\<close>

definition mem_try_new :: "nat \<Rightarrow> bytes \<Rightarrow> memory_block_device opt_outcome" where
  "mem_try_new ss data = (if ss = 0 then Panic else if length data mod ss \<noteq> 0 then Err ()
    else Ok \<lparr>mem_sector_size = ss, mem_data = data\<rparr>)"

definition mem_range :: "memory_block_device \<Rightarrow> nat \<Rightarrow> nat \<Rightarrow> ('e, nat \<times> nat) outcome" where
  "mem_range d i n =
    assert_that (mem_sector_size d = n) (
    obind (unwrap (checked_mul i (mem_sector_size d))) (\<lambda>start_offset.
    obind (unwrap (checked_add start_offset (mem_sector_size d))) (\<lambda>end_offset.
    Ok (start_offset, end_offset))))"

definition mem_read_sector :: "memory_block_device \<Rightarrow> nat \<Rightarrow> nat \<Rightarrow> (unit, nat \<times> bytes) outcome" where
  "mem_read_sector d i n =
    obind (mem_range d i n) (\<lambda>(start_offset, end_offset).
    obind (index_range start_offset end_offset (mem_data d)) (\<lambda>buf. Ok (n, buf)))"

definition mem_write_sector :: "memory_block_device \<Rightarrow> nat \<Rightarrow> bytes \<Rightarrow> (unit, nat, memory_block_device) run" where
  "mem_write_sector d i buf =
    lift_pure (mem_range d i (length buf)) d (\<lambda>(start_offset, end_offset).
    lift_pure (copy_into start_offset buf (mem_data d)) d (\<lambda>data.
    (Ok (length buf), d\<lparr>mem_data := data\<rparr>)))"

definition mem_ops :: "(memory_block_device, unit) block_device" where
  "mem_ops = \<lparr>sector_size = mem_sector_size, sector_count = \<lambda>d. length (mem_data d),
    read_sector = mem_read_sector, write_sector = mem_write_sector\<rparr>"

text \<open>A device that \<open>try_new\<close> accepted, whose data is addressable.\<close>

definition mem_valid :: "memory_block_device \<Rightarrow> bool" where
  "mem_valid d \<longleftrightarrow> 0 < mem_sector_size d \<and> mem_sector_size d dvd length (mem_data d) \<and>
    length (mem_data d) < U64_LIMIT"

lemma mem_try_new_valid:
  "mem_try_new ss data = Ok d \<Longrightarrow> length data < U64_LIMIT \<Longrightarrow>
    mem_valid d \<and> mem_data d = data \<and> mem_sector_size d = ss"
  by (auto simp: mem_try_new_def mem_valid_def split: if_splits)

lemma mem_range_inside:
  "Suc i * mem_sector_size d \<le> length (mem_data d) \<Longrightarrow> length (mem_data d) < U64_LIMIT \<Longrightarrow>
    mem_range d i (mem_sector_size d) = Ok (i * mem_sector_size d, Suc i * mem_sector_size d)"
  by (simp add: mem_range_def assert_that_def unwrap_def checked_mul_def checked_add_def add.commute)

interpretation mem: sector_device mem_ops mem_valid mem_data
proof
  fix d i
  assume d: "mem_valid d" and i: "Suc i * sector_size mem_ops d \<le> length (mem_data d)"
  then show "read_sector mem_ops d i (sector_size mem_ops d) =
      Ok (sector_size mem_ops d, slice (i * sector_size mem_ops d) (Suc i * sector_size mem_ops d) (mem_data d))"
    by (simp add: mem_ops_def mem_valid_def mem_read_sector_def index_range_def mem_range_inside)
  fix buf :: bytes
  assume "length buf = sector_size mem_ops d"
  then show "\<exists>d'. write_sector mem_ops d i buf = (Ok (length buf), d') \<and> mem_valid d' \<and>
      sector_size mem_ops d' = sector_size mem_ops d \<and>
      mem_data d' = overwrite (i * sector_size mem_ops d) buf (mem_data d)"
    using d i
    by (simp add: mem_ops_def mem_valid_def mem_write_sector_def copy_into_def mem_range_inside add.commute)
qed (simp_all add: mem_ops_def mem_valid_def)

text \<open>Beyond its end the device in memory panics.\<close>

lemma mem_read_outside:
  "mem_sector_size d = ss \<Longrightarrow> length (mem_data d) < Suc i * ss \<Longrightarrow> mem_read_sector d i n = Panic"
  by (auto simp: mem_read_sector_def mem_range_def assert_that_def unwrap_def checked_mul_def
      checked_add_def index_range_def)

lemma mem_read_sectors_outside:
  assumes "mem_valid d" and "length (mem_data d) < (i + Suc k) * mem_sector_size d"
  shows "read_sectors mem_ops d i (Suc k) = Panic"
  using assms(2)
proof (induction k arbitrary: i)
  case 0
  then show ?case using mem_read_outside [of d "mem_sector_size d" i] by (simp add: mem_ops_def)
next
  case (Suc k)
  have "read_sectors mem_ops d (Suc i) (Suc k) = Panic" using Suc.IH [of "Suc i"] Suc.prems by simp
  moreover have "read_sector mem_ops d i n \<noteq> Err e" for n e
    by (auto simp: mem_ops_def mem_read_sector_def mem_range_def outcome_simps)
  ultimately show ?case
    by (cases "read_sector mem_ops d i (sector_size mem_ops d)") auto
qed

lemma mem_read_at_outside:
  assumes "mem_valid d" and "0 < n" and "length (mem_data d) < offset + n"
  shows "read_at mem_ops d offset n = Panic"
proof -
  define ss where "ss = mem_sector_size d"
  define a where "a = offset div ss"
  define b where "b = (offset + n - Suc 0) div ss"
  have ss: "0 < ss" "sector_size mem_ops d = ss" using assms(1) by (simp_all add: ss_def mem_valid_def mem_ops_def)
  have ab: "a \<le> b" unfolding a_def b_def using assms(2) by (intro div_le_mono) linarith
  have "offset + n - Suc 0 < ss + b * ss" using dividend_less_div_times [OF ss(1)] by (simp add: b_def)
  then have "length (mem_data d) < (a + Suc (b - a)) * ss" using assms ab by simp
  then have "read_sectors mem_ops d a (Suc (b - a)) = Panic"
    using mem_read_sectors_outside [OF assms(1)] by (simp add: ss_def)
  moreover have "read_sector mem_ops d a n = Panic" if "offset mod ss = 0" "n = ss"
  proof -
    have "offset = a * ss" using that(1) by (metis a_def add.right_neutral div_mult_mod_eq)
    then show ?thesis
      using mem_read_outside [of d ss a n] assms(3) that(2) by (simp add: ss_def mem_ops_def add.commute)
  qed
  ultimately show ?thesis using assms(2) ss(1)
    unfolding read_at_def Let_def ss(2) a_def [symmetric] unwrap_def checked_add_def checked_mul_def
    by (simp add: b_def [symmetric] del: read_sectors.simps)
qed

section \<open>Properties\<close>

lemma numeral_less_limit: "16 < U64_LIMIT"
  by (simp add: U64_LIMIT_def)

text \<open>C18: On every device that keeps the sector contract, a \<open>write_at\<close> inside the device replaces
  exactly the bytes of its range, whatever its alignment, and every later \<open>read_at\<close> inside the
  device returns the bytes of its range, the written ones included.\<close>

theorem write_at_then_read_at:
  assumes "sector_device ops valid contents" and "valid d"
    and "offset + length buf \<le> length (contents d)" and "a + n \<le> length (contents d)"
  shows "\<exists>d'. write_at ops d offset buf = (Ok (length buf), d') \<and>
    contents d' = overwrite offset buf (contents d) \<and>
    read_at ops d' a n = Ok (n, slice a (a + n) (overwrite offset buf (contents d)))"
proof -
  obtain d' where d': "write_at ops d offset buf = (Ok (length buf), d')"
      "sector_device.wrote ops valid contents d offset buf d'"
    using sector_device.write_at_wrote [OF assms(1-3)] by blast
  then have "valid d'" "contents d' = overwrite offset buf (contents d)"
    by (simp_all add: sector_device.wrote_def [OF assms(1)])
  then show ?thesis using d'(1) sector_device.read_at_slice [OF assms(1), of d' a n] assms(3,4) by simp
qed

theorem write_at_then_read_at_witness:
  "\<exists>d'. write_at mem_ops \<lparr>mem_sector_size = 4, mem_data = replicate 16 0\<rparr> 1 (replicate 8 7) = (Ok 8, d') \<and>
    mem_data d' = replicate 1 0 @ replicate 8 7 @ replicate 7 0 \<and>
    read_at mem_ops d' 0 3 = Ok (3, [0, 7, 7])"
  using write_at_then_read_at [OF mem.sector_device_axioms,
      of "\<lparr>mem_sector_size = 4, mem_data = replicate 16 0\<rparr>" 1 "replicate 8 7" 0 3]
  by (simp add: mem_valid_def numeral_less_limit overwrite_def slice_def numeral_2_eq_2)

text \<open>C19: A read of the device in memory returns the requested slice when it lies inside the
  device and panics when a nonempty range reaches past its end; an empty read always succeeds.\<close>

theorem mem_read_at_total:
  assumes "mem_try_new ss data = Ok d" and "length data < U64_LIMIT"
  shows "read_at mem_ops d offset n =
    (if n = 0 then Ok (0, [])
     else if offset + n \<le> length data then Ok (n, slice offset (offset + n) data)
     else Panic)"
proof -
  have d: "mem_valid d" "mem_data d = data" using mem_try_new_valid [OF assms] by simp_all
  show ?thesis
    using mem.read_at_slice [OF d(1), of offset n] mem_read_at_outside [OF d(1), of n offset] d(2)
    by (auto simp: read_at_def not_le)
qed

theorem mem_read_at_total_witness:
  "\<exists>d. mem_try_new 2 [1,1,2,2,3,3] = Ok d \<and> read_at mem_ops d 3 2 = Ok (2, [2,3]) \<and>
    read_at mem_ops d 5 2 = Panic"
  using mem_read_at_total [of 2 "[1,1,2,2,3,3]" _ 3 2] mem_read_at_total [of 2 "[1,1,2,2,3,3]" _ 5 2]
  by (simp add: mem_try_new_def U64_LIMIT_def slice_def)

end
