(* ===== verification/Devfs.thy ===== *)
theory Devfs
  imports Vfs Block_Device "HOL-Library.Sublist"
begin

text \<open>
  The device file system (\<open>kernel/devfs\<close>): the tree of registered files, resolution of paths in it,
  registration, and the table of open files; the device files null, zero, serial and block, and the
  framebuffer file of \<open>kernel/boot/src/driver/virtio/gpu.rs\<close>. The kernel creates one \<open>DevFs\<close>, so the
  static handle counter is a field of its record. \<open>ArcLockedDevFs\<close> forwards to it under a lock.
\<close>

section \<open>Device files\<close>

record 'x dev_file_ops =
  df_read :: "'x \<Rightarrow> bytes \<Rightarrow> nat \<Rightarrow> (read_error, nat, bytes \<times> 'x) run"
  df_write :: "'x \<Rightarrow> bytes \<Rightarrow> nat \<Rightarrow> (write_error, nat, 'x) run"
  df_stat :: "'x \<Rightarrow> vfs_stat \<Rightarrow> (stat_error, unit, vfs_stat \<times> 'x) run"
  df_mmap :: "'x \<Rightarrow> (mmap_error, mmap_region, 'x) run"
  df_fsync :: "'x \<Rightarrow> (fsync_error, unit, 'x) run"
  df_ioctl :: "'x \<Rightarrow> ioctl_request \<Rightarrow> bytes \<Rightarrow> (ioctl_error, nat, bytes \<times> 'x) run"

text \<open>The provided methods of the \<open>DevFile\<close> trait.\<close>

definition dev_default_mmap :: "'x \<Rightarrow> (mmap_error, mmap_region, 'x) run" where
  "dev_default_mmap x = (Err MmapNotSupported, x)"

definition dev_default_fsync :: "'x \<Rightarrow> (fsync_error, unit, 'x) run" where
  "dev_default_fsync x = (Ok (), x)"

definition dev_default_ioctl :: "'x \<Rightarrow> ioctl_request \<Rightarrow> bytes \<Rightarrow> (ioctl_error, nat, bytes \<times> 'x) run" where
  "dev_default_ioctl x request arg = (Err IoctlNotSupported, arg, x)"

text \<open>The device files of the crate; \<open>'o\<close> is the output of a serial file, \<open>'d\<close> a block device. The
  \<open>core::fmt::Write\<close> implementation of the output is the parameter \<open>write_str\<close>.\<close>

datatype ('o, 'd) dev_file = Null | Zero | Serial 'o | BlockDeviceFile 'd

primrec dev_read :: "('d, 'e) block_device \<Rightarrow> ('o, 'd) dev_file \<Rightarrow> bytes \<Rightarrow> nat
    \<Rightarrow> (read_error, nat, bytes \<times> ('o, 'd) dev_file) run" where
  "dev_read blk Null buf offset = (Err EndOfFile, buf, Null)"
| "dev_read blk Zero buf offset = (Ok (length buf), replicate (length buf) 0, Zero)"
| "dev_read blk (Serial out) buf offset = (Err EndOfFile, buf, Serial out)"
| "dev_read blk (BlockDeviceFile d) buf offset =
    (case map_err (\<lambda>_. ReadFailed) (read_at blk d offset (length buf)) of
       Ok (n, data) \<Rightarrow> (Ok n, data, BlockDeviceFile d)
     | Err e \<Rightarrow> (Err e, buf, BlockDeviceFile d)
     | Panic \<Rightarrow> (Panic, buf, BlockDeviceFile d))"

primrec dev_write :: "('o \<Rightarrow> rstr \<Rightarrow> (unit, unit, 'o) run) \<Rightarrow> ('d, 'e) block_device \<Rightarrow> ('o, 'd) dev_file \<Rightarrow> bytes \<Rightarrow> nat
    \<Rightarrow> (write_error, nat, ('o, 'd) dev_file) run" where
  "dev_write ws blk Null buf offset = (Ok (length buf), Null)"
| "dev_write ws blk Zero buf offset = (Ok (length buf), Zero)"
| "dev_write ws blk (Serial out) buf offset =
    (case from_utf8 buf of
       None \<Rightarrow> (Err WriteFailed, Serial out)
     | Some s \<Rightarrow> (case ws out s of (r, out') \<Rightarrow> (obind (map_err (\<lambda>_. WriteFailed) r) (\<lambda>_. Ok (length buf)), Serial out')))"
| "dev_write ws blk (BlockDeviceFile d) buf offset =
    (case write_at blk d offset buf of (r, d') \<Rightarrow> (map_err (\<lambda>_. WriteFailed) r, BlockDeviceFile d'))"

primrec dev_stat :: "('d, 'e) block_device \<Rightarrow> ('o, 'd) dev_file \<Rightarrow> vfs_stat
    \<Rightarrow> (stat_error, unit, vfs_stat \<times> ('o, 'd) dev_file) run" where
  "dev_stat blk Null st = (Ok (), st\<lparr>stat_size := 0\<rparr>, Null)"
| "dev_stat blk Zero st = (Ok (), st\<lparr>stat_size := 0\<rparr>, Zero)"
| "dev_stat blk (Serial out) st = (Ok (), st\<lparr>stat_size := 0\<rparr>, Serial out)"
| "dev_stat blk (BlockDeviceFile d) st =
    (case unwrap (checked_mul (sector_count blk d) (sector_size blk d)) of
       Ok n \<Rightarrow> (Ok (), \<lparr>stat_size = n\<rparr>, BlockDeviceFile d)
     | Err e \<Rightarrow> (Err e, st, BlockDeviceFile d)
     | Panic \<Rightarrow> (Panic, st, BlockDeviceFile d))"

definition dev_file_methods ::
  "('o \<Rightarrow> rstr \<Rightarrow> (unit, unit, 'o) run) \<Rightarrow> ('d, 'e) block_device \<Rightarrow> ('o, 'd) dev_file dev_file_ops" where
  "dev_file_methods ws blk = \<lparr>df_read = dev_read blk, df_write = dev_write ws blk, df_stat = dev_stat blk,
     df_mmap = dev_default_mmap, df_fsync = dev_default_fsync, df_ioctl = dev_default_ioctl\<rparr>"

section \<open>The framebuffer file\<close>

text \<open>The file behind \<open>/dev/fb0\<close>: it points to the framebuffer, whose \<open>fb_len\<close> visible bytes are the list
  \<open>fb_memory\<close>. Flushing the GPU is the parameter \<open>flush\<close>.\<close>

record 'g fb_dev_file =
  fb_gpu :: 'g
  fb_ptr :: nat
  fb_memory :: bytes
  fb_len :: nat
  dev_width :: u32
  dev_height :: u32

definition fb_read :: "'g fb_dev_file \<Rightarrow> bytes \<Rightarrow> nat \<Rightarrow> (read_error, nat, bytes \<times> 'g fb_dev_file) run" where
  "fb_read f buf offset =
    (if fb_len f \<le> offset then (Err EndOfFile, buf, f)
     else let n = min (length buf) (fb_len f - offset) in
     (case obind (index_range offset (offset + n) (fb_memory f)) (\<lambda>src. copy_into 0 src buf) :: bytes opt_outcome of
        Ok buf' \<Rightarrow> (Ok n, buf', f)
      | _ \<Rightarrow> (Panic, buf, f)))"

definition fb_write :: "'g fb_dev_file \<Rightarrow> bytes \<Rightarrow> nat \<Rightarrow> (write_error, nat, 'g fb_dev_file) run" where
  "fb_write f buf offset =
    (if fb_len f \<le> offset then (Err WriteFailed, f)
     else let n = min (length buf) (fb_len f - offset) in
     (case obind (index_range 0 n buf) (\<lambda>src. copy_into offset src (fb_memory f)) :: bytes opt_outcome of
        Ok mem \<Rightarrow> (Ok n, f\<lparr>fb_memory := mem\<rparr>)
      | _ \<Rightarrow> (Panic, f)))"

definition fb_stat :: "'g fb_dev_file \<Rightarrow> vfs_stat \<Rightarrow> (stat_error, unit, vfs_stat \<times> 'g fb_dev_file) run" where
  "fb_stat f st = (Ok (), st\<lparr>stat_size := fb_len f\<rparr>, f)"

definition fb_mmap :: "'g fb_dev_file \<Rightarrow> (mmap_error, mmap_region, 'g fb_dev_file) run" where
  "fb_mmap f = (Ok \<lparr>region_ptr = fb_ptr f, region_length = fb_len f\<rparr>, f)"

definition fb_fsync :: "('g \<Rightarrow> (unit, unit, 'g) run) \<Rightarrow> 'g fb_dev_file \<Rightarrow> (fsync_error, unit, 'g fb_dev_file) run" where
  "fb_fsync flush f = (case flush (fb_gpu f) of (r, g) \<Rightarrow> (map_err (\<lambda>_. FsyncFailed) r, f\<lparr>fb_gpu := g\<rparr>))"

text \<open>\<open>self.width * 4\<close> is a checked multiplication in \<open>u32\<close>.\<close>

definition fb_ioctl :: "'g fb_dev_file \<Rightarrow> ioctl_request \<Rightarrow> bytes \<Rightarrow> (ioctl_error, nat, bytes \<times> 'g fb_dev_file) run" where
  "fb_ioctl f request arg = (case request of
     FbGetScreenInfo \<Rightarrow>
       if length arg \<noteq> FB_SCREEN_INFO_SIZE then (Err InvalidArgument, arg, f)
       else if 2 ^ 32 \<le> unat (dev_width f) * 4 then (Panic, arg, f)
       else (Ok 0, fb_to_bytes \<lparr>fb_width = dev_width f, fb_height = dev_height f, fb_pitch = dev_width f * 4, fb_bpp = 32\<rparr>, f))"

section \<open>The tree\<close>

datatype resolve_error = ParentNotFound | ParentNotDirectory
datatype register_error = ResolveError resolve_error | AlreadyExists

text \<open>The opening function of a file node is the result it gives.\<close>

datatype 'x dev_node = DevNode (dev_name: rstr) (dev_kind: "'x dev_node_kind")
  and 'x dev_node_kind = DirectoryNode "'x dev_node list" | FileNode "(open_error, 'x) outcome"

definition lookup_child :: "'x dev_node list \<Rightarrow> rstr \<Rightarrow> 'x dev_node option" where
  "lookup_child children name = find (\<lambda>node. dev_name node = name) children"

record 'x dev_fs =
  dev_root :: "'x dev_node"
  open_files :: "fs_handle \<Rightarrow> 'x option"
  fs_counter :: u64

definition resolve_step :: "rstr \<Rightarrow> 'x dev_node \<Rightarrow> (resolve_error, 'x dev_node) outcome" where
  "resolve_step component node = (case dev_kind node of
     FileNode _ \<Rightarrow> Err ParentNotDirectory
   | DirectoryNode children \<Rightarrow> ok_or (lookup_child children component) ParentNotFound)"

definition resolve_node :: "'x dev_node \<Rightarrow> rstr \<Rightarrow> (resolve_error, 'x dev_node) outcome" where
  "resolve_node root path = for_names resolve_step (filenames_new path) root"

text \<open>A mutable reference to a node is the names that lead to it beside the node.\<close>

definition resolve_node_mut :: "'x dev_node \<Rightarrow> rstr \<Rightarrow> (resolve_error, rstr list \<times> 'x dev_node) outcome" where
  "resolve_node_mut root path =
    for_names (\<lambda>component (ref, node). obind (resolve_step component node) (\<lambda>child. Ok (ref @ [component], child)))
      (filenames_new path) ([], root)"

primrec update_first :: "('a \<Rightarrow> bool) \<Rightarrow> ('a \<Rightarrow> 'a) \<Rightarrow> 'a list \<Rightarrow> 'a list" where
  "update_first P f [] = []"
| "update_first P f (x # xs) = (if P x then f x # xs else x # update_first P f xs)"

primrec push_child :: "rstr list \<Rightarrow> 'x dev_node \<Rightarrow> 'x dev_node \<Rightarrow> 'x dev_node" where
  "push_child [] child node = (case dev_kind node of
     DirectoryNode children \<Rightarrow> DevNode (dev_name node) (DirectoryNode (children @ [child]))
   | FileNode _ \<Rightarrow> node)"
| "push_child (c # cs) child node = (case dev_kind node of
     DirectoryNode children \<Rightarrow>
       DevNode (dev_name node) (DirectoryNode (update_first (\<lambda>n. dev_name n = c) (push_child cs child) children))
   | FileNode _ \<Rightarrow> node)"

definition register_file :: "rstr \<Rightarrow> (open_error, 'x) outcome \<Rightarrow> 'x dev_fs \<Rightarrow> (register_error, 'x dev_fs) outcome" where
  "register_file path open_fn d =
    obind (case parent path of Ok p \<Rightarrow> Ok p | Err _ \<Rightarrow> Ok ROOT | Panic \<Rightarrow> Panic) (\<lambda>par.
    obind (map_err (\<lambda>_. ResolveError ParentNotFound) (file_name path)) (\<lambda>filename.
    obind (map_err ResolveError (resolve_node_mut (dev_root d) par)) (\<lambda>(ref, node).
    case dev_kind node of
      FileNode _ \<Rightarrow> Err (ResolveError ParentNotDirectory)
    | DirectoryNode children \<Rightarrow>
        if lookup_child children filename \<noteq> None then Err AlreadyExists
        else Ok (d\<lparr>dev_root := push_child ref (DevNode filename (FileNode open_fn)) (dev_root d)\<rparr>))))"

text \<open>\<open>DevFs::new\<close> registers \<open>/null\<close> and \<open>/zero\<close>.\<close>

definition dev_fs_empty :: "'x dev_fs" where
  "dev_fs_empty = \<lparr>dev_root = DevNode [47] (DirectoryNode []), open_files = Map.empty, fs_counter = 0\<rparr>"

definition dev_fs_new :: "('o, 'd) dev_file dev_fs opt_outcome" where
  "dev_fs_new =
    (case obind (register_file [47, 110, 117, 108, 108] (Ok Null) dev_fs_empty)
            (register_file [47, 122, 101, 114, 111] (Ok Zero)) of
       Ok d \<Rightarrow> Ok d | _ \<Rightarrow> Panic)"

section \<open>Open files\<close>

definition dev_open :: "'x dev_fs \<Rightarrow> rstr \<Rightarrow> (open_error, fs_handle, 'x dev_fs) run" where
  "dev_open d path =
    lift_pure (map_err (\<lambda>_. NotFound) (resolve_node (dev_root d) path)) d (\<lambda>node.
    case dev_kind node of
      DirectoryNode _ \<Rightarrow> (Panic, d)
    | FileNode open_fn \<Rightarrow>
        lift_pure open_fn d (\<lambda>x.
        let handle = FsHandle (fs_counter d) in
        (Ok handle, d\<lparr>fs_counter := fs_counter d + 1, open_files := (open_files d)(handle \<mapsto> x)\<rparr>)))"

definition dev_close :: "'x dev_fs \<Rightarrow> fs_handle \<Rightarrow> (close_error, unit, 'x dev_fs) run" where
  "dev_close d handle =
    (if open_files d handle = None then (Err NotOpen, d) else (Ok (), d\<lparr>open_files := (open_files d)(handle := None)\<rparr>))"

text \<open>A call on the file of a handle; the error is the one of \<open>resolve_handle\<close>.\<close>

definition with_handle :: "fs_handle \<Rightarrow> 'r \<Rightarrow> ('x \<Rightarrow> 'r \<times> 'x) \<Rightarrow> 'x dev_fs \<Rightarrow> 'r \<times> 'x dev_fs" where
  "with_handle h invalid call d = (case open_files d h of
     None \<Rightarrow> (invalid, d)
   | Some x \<Rightarrow> (case call x of (r, x') \<Rightarrow> (r, d\<lparr>open_files := (open_files d)(h \<mapsto> x')\<rparr>)))"

definition without_buffer :: "(('e, 'a) outcome \<times> 'b) \<times> 'f \<Rightarrow> ('e, 'a, 'b \<times> 'f) run" where
  "without_buffer m = (case m of ((r, b), f) \<Rightarrow> (r, b, f))"

definition dev_fs_methods :: "'x dev_file_ops \<Rightarrow> 'x dev_fs file_system" where
  "dev_fs_methods ops = \<lparr>
     fs_open = (\<lambda>d path. Some (dev_open d path)),
     fs_close = dev_close,
     fs_read = (\<lambda>d h buf offset. without_buffer (with_handle h (Err (ReadFsError InvalidHandle), buf)
       (\<lambda>x. with_buffer (df_read ops x buf offset)) d)),
     fs_write = (\<lambda>d h buf offset. with_handle h (Err (WriteFsError InvalidHandle)) (\<lambda>x. df_write ops x buf offset) d),
     fs_stat = (\<lambda>d h st. without_buffer (with_handle h (Err (StatFsError InvalidHandle), st)
       (\<lambda>x. with_buffer (df_stat ops x st)) d)),
     fs_mmap = (\<lambda>d h. with_handle h (Err (MmapFsError InvalidHandle)) (df_mmap ops) d),
     fs_ioctl = (\<lambda>d h request arg. without_buffer (with_handle h (Err (IoctlFsError InvalidHandle), arg)
       (\<lambda>x. with_buffer (df_ioctl ops x request arg)) d)),
     fs_fsync = (\<lambda>d h. with_handle h (Err (FsyncFsError InvalidHandle)) (df_fsync ops) d)\<rparr>"

section \<open>Handles\<close>

definition dev_handles :: "'x dev_fs \<Rightarrow> fs_handle set" where
  "dev_handles d = {h. open_files d h \<noteq> None}"

definition dev_valid :: "'x dev_fs \<Rightarrow> bool" where
  "dev_valid d \<longleftrightarrow> (\<forall>k. open_files d (FsHandle k) \<noteq> None \<longrightarrow> k < fs_counter d)"

definition dev_exhausted :: "'x dev_fs \<Rightarrow> bool" where
  "dev_exhausted d \<longleftrightarrow> fs_counter d = - 1"

lemma dev_open_ok:
  assumes "dev_valid d" "\<not> dev_exhausted d" "dev_open d p = (Ok h, d')"
  shows "h \<notin> dev_handles d \<and> dev_handles d' = insert h (dev_handles d) \<and> dev_valid d'"
proof -
  obtain x where h: "h = FsHandle (fs_counter d)"
      "d' = d\<lparr>fs_counter := fs_counter d + 1, open_files := (open_files d)(h \<mapsto> x)\<rparr>"
    using assms(3) by (auto simp: dev_open_def lift_pure_def Let_def split: outcome.splits dev_node_kind.splits)
  have "fs_counter d < fs_counter d + 1"
    using assms(2) unatSuc [of "fs_counter d"]
    by (simp add: dev_exhausted_def word_less_nat_alt add.commute eq_neg_iff_add_eq_0)
  then show ?thesis
    using assms(1) h by (auto simp: dev_handles_def dev_valid_def dest: order.strict_trans)
qed

lemma dev_open_fail: "dev_open d p = (r, d') \<Longrightarrow> \<not> is_ok r \<Longrightarrow> d' = d"
  by (auto simp: dev_open_def lift_pure_def Let_def split: outcome.splits dev_node_kind.splits)

lemma with_handle_keeps:
  "with_handle h e call d = (r, d') \<Longrightarrow> dev_handles d' = dev_handles d \<and> (dev_valid d \<longrightarrow> dev_valid d')"
  by (auto simp: with_handle_def dev_handles_def dev_valid_def split: option.splits prod.splits if_splits)

lemma without_buffer_iff: "without_buffer m = (r, b, f) \<longleftrightarrow> m = ((r, b), f)"
  by (auto simp: without_buffer_def split: prod.splits)

interpretation dev: handle_provider "dev_fs_methods ops" dev_handles dev_valid dev_exhausted
  for ops :: "'x dev_file_ops"
proof
  show "h \<notin> dev_handles f \<and> dev_handles f' = insert h (dev_handles f) \<and> dev_valid f'"
    if "dev_valid f" "\<not> dev_exhausted f" "fs_open (dev_fs_methods ops) f p = Some (Ok h, f')" for f p h f'
    using dev_open_ok that by (simp add: dev_fs_methods_def)
  show "dev_handles f' = dev_handles f \<and> dev_valid f'"
    if "dev_valid f" "\<not> dev_exhausted f" "fs_open (dev_fs_methods ops) f p = Some (ro, f')" "\<not> is_ok ro" for f p ro f'
    using dev_open_fail [of f p ro f'] that by (simp add: dev_fs_methods_def)
  show "rc = (if h \<in> dev_handles f then Ok () else Err NotOpen) \<and> dev_handles f' = dev_handles f - {h} \<and>
      (dev_valid f \<longrightarrow> dev_valid f')"
    if "fs_close (dev_fs_methods ops) f h = (rc, f')" for f h rc f'
    using that by (auto simp: dev_fs_methods_def dev_close_def dev_handles_def dev_valid_def split: if_splits)
qed (auto simp: dev_fs_methods_def without_buffer_iff dest: with_handle_keeps)

section \<open>Registration\<close>

lemma resolve_components:
  "ascii p \<Longrightarrow> resolve_node root p = for_list resolve_step (components p) root"
  by (simp add: resolve_node_def for_names_components)

lemma resolve_mut_list:
  "for_list (\<lambda>component (ref, node). obind (resolve_step component node) (\<lambda>child. Ok (ref @ [component], child)))
     names (ref, node) = obind (for_list resolve_step names node) (\<lambda>node. Ok (ref @ names, node))"
proof (induction names arbitrary: ref node)
  case (Cons c names)
  then show ?case by (cases "resolve_step c node") simp_all
qed simp

lemma resolve_mut_components:
  "ascii p \<Longrightarrow> resolve_node_mut root p =
    obind (for_list resolve_step (components p) root) (\<lambda>node. Ok (components p, node))"
  by (simp add: resolve_node_mut_def for_names_components resolve_mut_list)

lemma lookup_update_first:
  assumes "\<And>n. dev_name (f n) = dev_name n"
  shows "lookup_child (update_first (\<lambda>n. dev_name n = c) f children) q =
    (if q = c then map_option f (lookup_child children c) else lookup_child children q)"
  using assms by (induction children) (auto simp: lookup_child_def)

lemma push_child_name [simp]: "dev_name (push_child cs child node) = dev_name node"
  by (cases cs) (auto split: dev_node_kind.split)

lemma lookup_append: "lookup_child (xs @ ys) q = (case lookup_child xs q of Some n \<Rightarrow> Some n | None \<Rightarrow> lookup_child ys q)"
  by (induction xs) (auto simp: lookup_child_def)

text \<open>A lookup after a child was pushed to the node at \<open>cs\<close>.\<close>

lemma lookup_pushed:
  assumes "for_list resolve_step cs node = Ok dir" "dev_kind dir = DirectoryNode children"
    and "lookup_child children (dev_name child) = None"
  shows "for_list resolve_step (cs @ [dev_name child]) (push_child cs child node) = Ok child"
    and "prefix qs cs \<Longrightarrow> \<exists>n ch. for_list resolve_step qs (push_child cs child node) = Ok (DevNode n (DirectoryNode ch))"
    and "\<not> prefix qs cs \<Longrightarrow> \<not> prefix (cs @ [dev_name child]) qs \<Longrightarrow>
      for_list resolve_step qs (push_child cs child node) = for_list resolve_step qs node"
proof -
  have "for_list resolve_step (cs @ [dev_name child]) (push_child cs child node) = Ok child \<and>
    (prefix qs cs \<longrightarrow> (\<exists>n ch. for_list resolve_step qs (push_child cs child node) = Ok (DevNode n (DirectoryNode ch)))) \<and>
    (\<not> prefix qs cs \<longrightarrow> \<not> prefix (cs @ [dev_name child]) qs \<longrightarrow>
      for_list resolve_step qs (push_child cs child node) = for_list resolve_step qs node)"
    using assms(1)
  proof (induction cs arbitrary: node qs)
    case Nil
    then show ?case
      using assms(2,3)
      by (cases qs) (auto simp: resolve_step_def lookup_append lookup_child_def [of "[child]"] ok_or_def split: option.split)
  next
    case (Cons c cs)
    from Cons.prems obtain n1 where "resolve_step c node = Ok n1" "for_list resolve_step cs n1 = Ok dir"
      by (auto simp: outcome_simps)
    moreover from this(1) obtain ch where "dev_kind node = DirectoryNode ch" "lookup_child ch c = Some n1"
      by (auto simp: resolve_step_def outcome_simps split: dev_node_kind.splits)
    ultimately have n1: "dev_kind node = DirectoryNode ch" "lookup_child ch c = Some n1"
        "for_list resolve_step cs n1 = Ok dir" by simp_all
    have step: "resolve_step q (push_child (c # cs) child node) =
        (if q = c then Ok (push_child cs child n1) else resolve_step q node)" for q
      using n1 by (simp add: resolve_step_def lookup_update_first ok_or_def)
    show ?case
    proof (cases qs)
      case Nil
      then show ?thesis using n1 step Cons.IH [OF n1(3), of "[]"] by simp
    next
      case (Cons q t)
      then show ?thesis using n1 step Cons.IH [OF n1(3), of t] by (auto simp: resolve_step_def ok_or_def)
    qed
  qed
  then show "for_list resolve_step (cs @ [dev_name child]) (push_child cs child node) = Ok child"
    "prefix qs cs \<Longrightarrow> \<exists>n ch. for_list resolve_step qs (push_child cs child node) = Ok (DevNode n (DirectoryNode ch))"
    "\<not> prefix qs cs \<Longrightarrow> \<not> prefix (cs @ [dev_name child]) qs \<Longrightarrow>
      for_list resolve_step qs (push_child cs child node) = for_list resolve_step qs node"
    by blast+
qed

text \<open>What a registration has done.\<close>

lemma register_parent:
  assumes "ascii p" and "is_absolute p"
  obtains par where "(case parent p of Ok q \<Rightarrow> Ok q | Err _ \<Rightarrow> Ok ROOT | Panic \<Rightarrow> Panic) = (Ok par :: (register_error, rstr) outcome)"
    "ascii par" "components par = butlast (components p)"
  using assms(1)
proof (cases rule: parent_cases)
  case dot
  then show ?thesis using assms(2) by (auto simp: dot_path_def is_absolute_def FILEPATH_SEPARATOR_def)
next
  case top
  then show ?thesis
    using that [of ROOT] by (cases "components p") (auto simp: ROOT_def components_simps FILEPATH_SEPARATOR_def components_def)
next
  case (up q r x)
  then show ?thesis using that [of q] assms(1) by (simp add: components_simps)
qed

lemma register_file_eq:
  assumes "ascii p" and "is_absolute p" and "components p \<noteq> []"
  shows "register_file p fn d =
      obind (map_err ResolveError (for_list resolve_step (butlast (components p)) (dev_root d))) (\<lambda>dir.
      case dev_kind dir of
        FileNode _ \<Rightarrow> Err (ResolveError ParentNotDirectory)
      | DirectoryNode children \<Rightarrow>
          if lookup_child children (last (components p)) \<noteq> None then Err AlreadyExists
          else Ok (d\<lparr>dev_root := push_child (butlast (components p)) (DevNode (last (components p)) (FileNode fn)) (dev_root d)\<rparr>))"
  by (rule register_parent [OF assms(1,2)], cases "for_list resolve_step (butlast (components p)) (dev_root d)")
    (simp_all add: register_file_def file_name_last [OF assms(1)] resolve_mut_components assms(3))

lemma register_file_effect:
  assumes "ascii p" and "is_absolute p" and "register_file p fn d = Ok d'"
  obtains dir children where "for_list resolve_step (butlast (components p)) (dev_root d) = Ok dir"
    "dev_kind dir = DirectoryNode children" "lookup_child children (last (components p)) = None"
    "components p \<noteq> []"
    "d' = d\<lparr>dev_root := push_child (butlast (components p)) (DevNode (last (components p)) (FileNode fn)) (dev_root d)\<rparr>"
proof -
  have ne: "components p \<noteq> []"
    by (rule register_parent [OF assms(1,2)], use assms(3) in \<open>auto simp: register_file_def file_name_last [OF assms(1)]\<close>)
  note reg = register_file_eq [OF assms(1,2) ne, of fn d]
  then obtain dir where dir: "for_list resolve_step (butlast (components p)) (dev_root d) = Ok dir"
    using assms(3) by (cases "for_list resolve_step (butlast (components p)) (dev_root d)") auto
  then show thesis
    using reg assms(3) ne that by (cases "dev_kind dir") (auto split: if_splits)
qed

lemma for_list_append: "for_list body (xs @ ys) s = obind (for_list body xs s) (for_list body ys)"
proof (induction xs arbitrary: s)
  case (Cons x xs)
  then show ?case by (cases "body x s") simp_all
qed simp

text \<open>C32: After a file has been registered at an absolute path, its path resolves to it and opening it gives a
  handle of what its opening function yields; the directories above it stay directories, paths below
  it are refused, all other paths resolve as before, and registering the path again is refused.\<close>

theorem registered_file_resolves:
  assumes "ascii p" and "is_absolute p" and "register_file p fn d = Ok d'" and "ascii q"
  shows "(if components q = components p then
            resolve_node (dev_root d') q = Ok (DevNode (last (components p)) (FileNode fn)) \<and>
            (\<forall>x. fn = Ok x \<longrightarrow> (\<exists>d2. dev_open d' q = (Ok (FsHandle (fs_counter d')), d2) \<and>
                open_files d2 (FsHandle (fs_counter d')) = Some x))
          else if prefix (components p) (components q) then
            resolve_node (dev_root d') q = Err ParentNotDirectory
          else if prefix (components q) (components p) then
            \<exists>n children. resolve_node (dev_root d') q = Ok (DevNode n (DirectoryNode children))
          else resolve_node (dev_root d') q = resolve_node (dev_root d) q) \<and>
        register_file p fn2 d' = Err AlreadyExists"
proof -
  define cs name child where "cs = butlast (components p)" and "name = last (components p)"
    and "child = DevNode name (FileNode fn)"
  obtain dir children where dir: "for_list resolve_step cs (dev_root d) = Ok dir"
      "dev_kind dir = DirectoryNode children" "lookup_child children (dev_name child) = None" "components p \<noteq> []"
      "d' = d\<lparr>dev_root := push_child cs child (dev_root d)\<rparr>"
    by (rule register_file_effect [OF assms(1-3)]) (simp add: cs_def name_def child_def)
  have p: "components p = cs @ [dev_name child]" using dir(4) by (simp add: cs_def name_def child_def)
  note pushed = lookup_pushed [OF dir(1-3)]
  have res: "resolve_node (dev_root d') r = for_list resolve_step (components r) (push_child cs child (dev_root d))"
    if "ascii r" for r
    using resolve_components [OF that] dir(5) by simp
  have here: "resolve_node (dev_root d') q = Ok child" if "components q = components p"
    using pushed(1) that res [OF assms(4)] p by simp
  have "resolve_node (dev_root d') q = Err ParentNotDirectory"
    if q: "components q \<noteq> components p" "prefix (components p) (components q)"
  proof -
    from q(2) obtain t where t: "components q = components p @ t" by (rule prefixE)
    then show ?thesis
      using pushed(1) res [OF assms(4)] p q(1) for_list_append [of resolve_step "components p" t "push_child cs child (dev_root d)"]
      by (cases t) (simp_all add: child_def resolve_step_def)
  qed
  moreover have "\<exists>d2. dev_open d' q = (Ok (FsHandle (fs_counter d')), d2) \<and> open_files d2 (FsHandle (fs_counter d')) = Some x"
    if "components q = components p" "fn = Ok x" for x
    using here [OF that(1)] that(2) by (simp add: dev_open_def child_def Let_def)
  moreover have "\<exists>n ch. resolve_node (dev_root d') q = Ok (DevNode n (DirectoryNode ch))"
    if "components q \<noteq> components p" "prefix (components q) (components p)"
    using pushed(2) [of "components q"] that res [OF assms(4)] p by (auto simp: prefix_snoc)
  moreover have "resolve_node (dev_root d') q = resolve_node (dev_root d) q"
    if "\<not> prefix (components p) (components q)" "\<not> prefix (components q) (components p)"
    using pushed(3) [of "components q"] that res [OF assms(4)] resolve_components [OF assms(4), of "dev_root d"] p
    by (auto simp: prefix_snoc)
  moreover have "register_file p fn2 d' = Err AlreadyExists"
  proof -
    obtain n ch where "for_list resolve_step cs (push_child cs child (dev_root d)) = Ok (DevNode n (DirectoryNode ch))"
      using pushed(2) [of cs] by auto
    then show ?thesis
      using pushed(1) register_file_eq [OF assms(1,2) dir(4), of fn2 d'] dir(5)
      by (auto simp: for_list_append resolve_step_def cs_def [symmetric] name_def [symmetric] child_def outcome_simps)
  qed
  ultimately show ?thesis using here by (simp add: child_def name_def)
qed

theorem registered_file_resolves_witness:
  "\<exists>d'. register_file [47, 97] (Ok (5 :: nat)) dev_fs_empty = Ok d' \<and>
     resolve_node (dev_root d') [47, 97] = Ok (DevNode [97] (FileNode (Ok 5))) \<and>
     register_file [47, 97] (Ok 6) d' = Err AlreadyExists"
proof -
  have c: "ascii [47, 97]" "is_absolute [47, 97]" "components [47, 97] = [[97]]"
    by (simp_all add: is_absolute_def FILEPATH_SEPARATOR_def components_def)
  obtain d' :: "nat dev_fs" where d': "register_file [47, 97] (Ok 5) dev_fs_empty = Ok d'"
    using register_file_eq [OF c(1,2), of "Ok 5" "dev_fs_empty :: nat dev_fs"] c(3)
    by (auto simp: dev_fs_empty_def lookup_child_def)
  then show ?thesis
    using registered_file_resolves [OF c(1,2) d' c(1), of "Ok 6"] c(3) by simp
qed

text \<open>C33: Reading the framebuffer file copies exactly the bytes from the offset that exist, up to the length of
  the buffer, writing replaces exactly those bytes, and neither leaves the framebuffer or panics; past
  its end both fail. Its screen information has the size the request announces.\<close>

theorem framebuffer_bounds:
  assumes "length (fb_memory f) = fb_len f" and "unat (dev_width f) < 2 ^ 30"
  shows "fb_read f buf offset =
      (if offset < fb_len f
       then (Ok (min (length buf) (fb_len f - offset)),
             slice offset (offset + length buf) (fb_memory f) @ drop (fb_len f - offset) buf, f)
       else (Err EndOfFile, buf, f)) \<and>
    fb_write f buf offset =
      (if offset < fb_len f
       then (Ok (min (length buf) (fb_len f - offset)),
             f\<lparr>fb_memory := overwrite offset (take (fb_len f - offset) buf) (fb_memory f)\<rparr>)
       else (Err WriteFailed, f)) \<and>
    length (fb_memory (snd (fb_write f buf offset))) = fb_len f \<and>
    (length arg = ioctl_arg_size request \<longrightarrow> (\<exists>info. fb_ioctl f request arg = (Ok 0, fb_to_bytes info, f) \<and>
       length (fb_to_bytes info) = length arg \<and> unat (fb_pitch info) = 4 * unat (fb_width info)))"
proof (intro conjI impI)
  show "fb_read f buf offset =
      (if offset < fb_len f
       then (Ok (min (length buf) (fb_len f - offset)),
             slice offset (offset + length buf) (fb_memory f) @ drop (fb_len f - offset) buf, f)
       else (Err EndOfFile, buf, f))"
    using assms(1) by (auto simp: fb_read_def Let_def index_range_def copy_into_def slice_def overwrite_def min_def)
  show wr: "fb_write f buf offset =
      (if offset < fb_len f
       then (Ok (min (length buf) (fb_len f - offset)),
             f\<lparr>fb_memory := overwrite offset (take (fb_len f - offset) buf) (fb_memory f)\<rparr>)
       else (Err WriteFailed, f))"
    using assms(1) by (auto simp: fb_write_def Let_def index_range_def copy_into_def slice_def min_def)
  show "length (fb_memory (snd (fb_write f buf offset))) = fb_len f"
    using assms(1) by (auto simp: wr overwrite_def)
  show "\<exists>info. fb_ioctl f request arg = (Ok 0, fb_to_bytes info, f) \<and>
      length (fb_to_bytes info) = length arg \<and> unat (fb_pitch info) = 4 * unat (fb_width info)"
    if "length arg = ioctl_arg_size request"
    using that assms(2)
    by (cases request) (auto simp: fb_ioctl_def FB_SCREEN_INFO_SIZE_def fb_bytes unat_word_ariths unat_mult_lem
        intro!: exI [of _ "\<lparr>fb_width = dev_width f, fb_height = dev_height f, fb_pitch = dev_width f * 4, fb_bpp = 32\<rparr>"])
qed

theorem framebuffer_bounds_witness:
  "fb_read \<lparr>fb_gpu = (), fb_ptr = 4096, fb_memory = [1, 2, 3, 4], fb_len = 4, dev_width = 1, dev_height = 1\<rparr> [9, 9, 9] 2 =
    (Ok 2, [3, 4, 9], \<lparr>fb_gpu = (), fb_ptr = 4096, fb_memory = [1, 2, 3, 4], fb_len = 4, dev_width = 1, dev_height = 1\<rparr>)"
  using framebuffer_bounds [of "\<lparr>fb_gpu = (), fb_ptr = 4096, fb_memory = [1, 2, 3, 4], fb_len = 4, dev_width = 1, dev_height = 1\<rparr>"
      "[9, 9, 9]" 2 "[]" FbGetScreenInfo]
  by (simp add: slice_def)

end
