(* ===== verification/Ext2_Layout.thy ===== *)
theory Ext2_Layout
  imports Muffin_Prelude
begin

text \<open>
  The on-disk structures of ext2 (\<open>kernel/ext2/src\<close>: \<open>bytefield.rs\<close>, \<open>superblock.rs\<close>,
  \<open>inode.rs\<close>, \<open>block_group.rs\<close>, \<open>address.rs\<close>, the entry header of \<open>dir.rs\<close>): records with the
  fields of each \<open>bytefield!\<close> structure, the conversions from and to its bytes that the macro
  generates, and the derived values of the accessors. Reading what was written gives the
  structure back; writing what was read gives the bytes of the fields back.
\<close>

section \<open>Fields\<close>

text \<open>The macro \<open>bytefield_field_read\<close> for an integer of \<open>n\<close> bytes;
  an array of bytes is copied, an array of \<open>u32\<close> is converted element by element.\<close>

definition field_read :: "nat \<Rightarrow> nat \<Rightarrow> bytes \<Rightarrow> 'a::len word" where
  "field_read n offset b = word_from_le (slice offset (offset + n) b)"

text \<open>The conversion to bytes writes the fields one after the other into a zeroed array.\<close>

primrec fields_write :: "(nat \<times> bytes) list \<Rightarrow> bytes \<Rightarrow> bytes" where
  "fields_write [] b = b"
| "fields_write (f # fs) b = fields_write fs (overwrite (fst f) (snd f) b)"

section \<open>The structures\<close>

record superblock =
  sb_num_inodes :: u32
  sb_num_blocks :: u32
  sb_num_superuser_reserved_blocks :: u32
  sb_num_unallocated_blocks :: u32
  sb_num_unallocated_inodes :: u32
  sb_superblock_block_number :: u32
  sb_log2_block_size :: u32
  sb_log2_fragment_size :: u32
  sb_blocks_per_group :: u32
  sb_fragments_per_group :: u32
  sb_inodes_per_group :: u32
  sb_last_mount_time :: u32
  sb_last_written_time :: u32
  sb_mounts_since_fsck :: u16
  sb_mounts_allowed_before_fsck :: u16
  sb_magic_number :: u16
  sb_state :: u16
  sb_error_policy :: u16
  sb_version_minor :: u16
  sb_last_fsck :: u32
  sb_fsck_force_interval :: u32
  sb_os_id :: u32
  sb_version_major :: u32
  sb_uid_for_reserved_blocks :: u16
  sb_gid_for_reserved_blocks :: u16
  sb_first_non_reserved_inode :: u32
  sb_inode_size :: u16
  sb_this_superblock_block_group :: u16
  sb_optional_features :: u32
  sb_required_features :: u32
  sb_write_required_features :: u32
  sb_fsid :: bytes
  sb_volume_name :: bytes
  sb_last_mount_path :: bytes
  sb_compression :: u32
  sb_num_preallocate_blocks_file :: u8
  sb_num_preallocate_blocks_directory :: u8

definition superblock_read :: "bytes \<Rightarrow> superblock" where
  "superblock_read b = \<lparr>
    sb_num_inodes = field_read 4 0 b,
    sb_num_blocks = field_read 4 4 b,
    sb_num_superuser_reserved_blocks = field_read 4 8 b,
    sb_num_unallocated_blocks = field_read 4 12 b,
    sb_num_unallocated_inodes = field_read 4 16 b,
    sb_superblock_block_number = field_read 4 20 b,
    sb_log2_block_size = field_read 4 24 b,
    sb_log2_fragment_size = field_read 4 28 b,
    sb_blocks_per_group = field_read 4 32 b,
    sb_fragments_per_group = field_read 4 36 b,
    sb_inodes_per_group = field_read 4 40 b,
    sb_last_mount_time = field_read 4 44 b,
    sb_last_written_time = field_read 4 48 b,
    sb_mounts_since_fsck = field_read 2 52 b,
    sb_mounts_allowed_before_fsck = field_read 2 54 b,
    sb_magic_number = field_read 2 56 b,
    sb_state = field_read 2 58 b,
    sb_error_policy = field_read 2 60 b,
    sb_version_minor = field_read 2 62 b,
    sb_last_fsck = field_read 4 64 b,
    sb_fsck_force_interval = field_read 4 68 b,
    sb_os_id = field_read 4 72 b,
    sb_version_major = field_read 4 76 b,
    sb_uid_for_reserved_blocks = field_read 2 80 b,
    sb_gid_for_reserved_blocks = field_read 2 82 b,
    sb_first_non_reserved_inode = field_read 4 84 b,
    sb_inode_size = field_read 2 88 b,
    sb_this_superblock_block_group = field_read 2 90 b,
    sb_optional_features = field_read 4 92 b,
    sb_required_features = field_read 4 96 b,
    sb_write_required_features = field_read 4 100 b,
    sb_fsid = slice 104 120 b,
    sb_volume_name = slice 120 136 b,
    sb_last_mount_path = slice 136 152 b,
    sb_compression = field_read 4 200 b,
    sb_num_preallocate_blocks_file = field_read 1 204 b,
    sb_num_preallocate_blocks_directory = field_read 1 205 b\<rparr>"

definition superblock_fields :: "superblock \<Rightarrow> (nat \<times> bytes) list" where
  "superblock_fields v = [
    (0, word_to_le 4 (sb_num_inodes v)),
    (4, word_to_le 4 (sb_num_blocks v)),
    (8, word_to_le 4 (sb_num_superuser_reserved_blocks v)),
    (12, word_to_le 4 (sb_num_unallocated_blocks v)),
    (16, word_to_le 4 (sb_num_unallocated_inodes v)),
    (20, word_to_le 4 (sb_superblock_block_number v)),
    (24, word_to_le 4 (sb_log2_block_size v)),
    (28, word_to_le 4 (sb_log2_fragment_size v)),
    (32, word_to_le 4 (sb_blocks_per_group v)),
    (36, word_to_le 4 (sb_fragments_per_group v)),
    (40, word_to_le 4 (sb_inodes_per_group v)),
    (44, word_to_le 4 (sb_last_mount_time v)),
    (48, word_to_le 4 (sb_last_written_time v)),
    (52, word_to_le 2 (sb_mounts_since_fsck v)),
    (54, word_to_le 2 (sb_mounts_allowed_before_fsck v)),
    (56, word_to_le 2 (sb_magic_number v)),
    (58, word_to_le 2 (sb_state v)),
    (60, word_to_le 2 (sb_error_policy v)),
    (62, word_to_le 2 (sb_version_minor v)),
    (64, word_to_le 4 (sb_last_fsck v)),
    (68, word_to_le 4 (sb_fsck_force_interval v)),
    (72, word_to_le 4 (sb_os_id v)),
    (76, word_to_le 4 (sb_version_major v)),
    (80, word_to_le 2 (sb_uid_for_reserved_blocks v)),
    (82, word_to_le 2 (sb_gid_for_reserved_blocks v)),
    (84, word_to_le 4 (sb_first_non_reserved_inode v)),
    (88, word_to_le 2 (sb_inode_size v)),
    (90, word_to_le 2 (sb_this_superblock_block_group v)),
    (92, word_to_le 4 (sb_optional_features v)),
    (96, word_to_le 4 (sb_required_features v)),
    (100, word_to_le 4 (sb_write_required_features v)),
    (104, sb_fsid v),
    (120, sb_volume_name v),
    (136, sb_last_mount_path v),
    (200, word_to_le 4 (sb_compression v)),
    (204, word_to_le 1 (sb_num_preallocate_blocks_file v)),
    (205, word_to_le 1 (sb_num_preallocate_blocks_directory v))]"

definition superblock_write :: "superblock \<Rightarrow> bytes" where
  "superblock_write v = fields_write (superblock_fields v) (replicate 1024 0)"

record block_group_descriptor =
  bg_block_usage_bitmap_block :: u32
  bg_inode_usage_bitmap_block :: u32
  bg_inode_table_starting_block :: u32
  bg_num_unallocated_blocks :: u16
  bg_num_unallocated_inodes :: u16
  bg_num_directories :: u16

definition block_group_descriptor_read :: "bytes \<Rightarrow> block_group_descriptor" where
  "block_group_descriptor_read b = \<lparr>
    bg_block_usage_bitmap_block = field_read 4 0 b,
    bg_inode_usage_bitmap_block = field_read 4 4 b,
    bg_inode_table_starting_block = field_read 4 8 b,
    bg_num_unallocated_blocks = field_read 2 12 b,
    bg_num_unallocated_inodes = field_read 2 14 b,
    bg_num_directories = field_read 2 16 b\<rparr>"

definition block_group_descriptor_fields :: "block_group_descriptor \<Rightarrow> (nat \<times> bytes) list" where
  "block_group_descriptor_fields v = [
    (0, word_to_le 4 (bg_block_usage_bitmap_block v)),
    (4, word_to_le 4 (bg_inode_usage_bitmap_block v)),
    (8, word_to_le 4 (bg_inode_table_starting_block v)),
    (12, word_to_le 2 (bg_num_unallocated_blocks v)),
    (14, word_to_le 2 (bg_num_unallocated_inodes v)),
    (16, word_to_le 2 (bg_num_directories v))]"

definition block_group_descriptor_write :: "block_group_descriptor \<Rightarrow> bytes" where
  "block_group_descriptor_write v = fields_write (block_group_descriptor_fields v) (replicate 32 0)"

record inode =
  i_type_and_perm :: u16
  i_user_id :: u16
  i_byte_size_lower :: u32
  i_last_access_time :: u32
  i_creation_time :: u32
  i_last_modification_time :: u32
  i_deletion_time :: u32
  i_group_id :: u16
  i_num_hard_links :: u16
  i_num_disk_sectors :: u32
  i_flags :: u32
  i_os_val_1 :: bytes
  i_direct_block_ptr :: "u32 list"
  i_singly_indirect_block_ptr :: u32
  i_doubly_indirect_block_ptr :: u32
  i_triply_indirect_block_ptr :: u32
  i_generation :: u32
  i_extended_attribute_block :: u32
  i_byte_size_upper_or_dir_acl :: u32
  i_fragment_block_address :: u32
  i_os_val_2 :: bytes

definition inode_read :: "bytes \<Rightarrow> inode" where
  "inode_read b = \<lparr>
    i_type_and_perm = field_read 2 0 b,
    i_user_id = field_read 2 2 b,
    i_byte_size_lower = field_read 4 4 b,
    i_last_access_time = field_read 4 8 b,
    i_creation_time = field_read 4 12 b,
    i_last_modification_time = field_read 4 16 b,
    i_deletion_time = field_read 4 20 b,
    i_group_id = field_read 2 24 b,
    i_num_hard_links = field_read 2 26 b,
    i_num_disk_sectors = field_read 4 28 b,
    i_flags = field_read 4 32 b,
    i_os_val_1 = slice 36 40 b,
    i_direct_block_ptr = map word_from_le (chunks_exact 4 (slice 40 88 b)),
    i_singly_indirect_block_ptr = field_read 4 88 b,
    i_doubly_indirect_block_ptr = field_read 4 92 b,
    i_triply_indirect_block_ptr = field_read 4 96 b,
    i_generation = field_read 4 100 b,
    i_extended_attribute_block = field_read 4 104 b,
    i_byte_size_upper_or_dir_acl = field_read 4 108 b,
    i_fragment_block_address = field_read 4 112 b,
    i_os_val_2 = slice 116 128 b\<rparr>"

definition inode_fields :: "inode \<Rightarrow> (nat \<times> bytes) list" where
  "inode_fields v = [
    (0, word_to_le 2 (i_type_and_perm v)),
    (2, word_to_le 2 (i_user_id v)),
    (4, word_to_le 4 (i_byte_size_lower v)),
    (8, word_to_le 4 (i_last_access_time v)),
    (12, word_to_le 4 (i_creation_time v)),
    (16, word_to_le 4 (i_last_modification_time v)),
    (20, word_to_le 4 (i_deletion_time v)),
    (24, word_to_le 2 (i_group_id v)),
    (26, word_to_le 2 (i_num_hard_links v)),
    (28, word_to_le 4 (i_num_disk_sectors v)),
    (32, word_to_le 4 (i_flags v)),
    (36, i_os_val_1 v),
    (40, concat (map (word_to_le 4) (i_direct_block_ptr v))),
    (88, word_to_le 4 (i_singly_indirect_block_ptr v)),
    (92, word_to_le 4 (i_doubly_indirect_block_ptr v)),
    (96, word_to_le 4 (i_triply_indirect_block_ptr v)),
    (100, word_to_le 4 (i_generation v)),
    (104, word_to_le 4 (i_extended_attribute_block v)),
    (108, word_to_le 4 (i_byte_size_upper_or_dir_acl v)),
    (112, word_to_le 4 (i_fragment_block_address v)),
    (116, i_os_val_2 v)]"

definition inode_write :: "inode \<Rightarrow> bytes" where
  "inode_write v = fields_write (inode_fields v) (replicate 128 0)"

record dir_entry_no_name =
  dn_inode :: u32
  dn_total_size :: u16
  dn_name_length_lsb :: u8
  dn_type_indicator_or_name_length_msb :: u8

definition dir_entry_no_name_read :: "bytes \<Rightarrow> dir_entry_no_name" where
  "dir_entry_no_name_read b = \<lparr>
    dn_inode = field_read 4 0 b,
    dn_total_size = field_read 2 4 b,
    dn_name_length_lsb = field_read 1 6 b,
    dn_type_indicator_or_name_length_msb = field_read 1 7 b\<rparr>"

definition dir_entry_no_name_fields :: "dir_entry_no_name \<Rightarrow> (nat \<times> bytes) list" where
  "dir_entry_no_name_fields v = [
    (0, word_to_le 4 (dn_inode v)),
    (4, word_to_le 2 (dn_total_size v)),
    (6, word_to_le 1 (dn_name_length_lsb v)),
    (7, word_to_le 1 (dn_type_indicator_or_name_length_msb v))]"

definition dir_entry_no_name_write :: "dir_entry_no_name \<Rightarrow> bytes" where
  "dir_entry_no_name_write v = fields_write (dir_entry_no_name_fields v) (replicate 8 0)"

section \<open>Derived values\<close>

text \<open>\<open>NonZeroU32::new\<close>, the constructors \<open>InodeAddress::new\<close> and \<open>BlockAddress::new\<close>.\<close>

definition address_new :: "u32 \<Rightarrow> nat option" where
  "address_new n = (if n = 0 then None else Some (unat n))"

text \<open>\<open>u32::shl\<close> panics for a shift of 32 or more and drops the bits that leave the word.\<close>

definition u32_shl :: "u32 \<Rightarrow> u32 \<Rightarrow> ('e, nat) outcome" where
  "u32_shl w k = (if unat k < 32 then Ok (unat (push_bit (unat k) w)) else Panic)"

definition block_size :: "superblock \<Rightarrow> ('e, nat) outcome" where
  "block_size sb = u32_shl 1024 (sb_log2_block_size sb)"

definition fragment_size :: "superblock \<Rightarrow> ('e, nat) outcome" where
  "fragment_size sb = u32_shl 1024 (sb_log2_fragment_size sb)"

text \<open>
  The flag types come from the \<open>bitflags\<close> crate, whose \<open>from_bits_truncate\<close> is the parameter
  \<open>tr\<close>: given the union of the bits a type declares and a value, the value's declared bits.
\<close>

type_synonym truncate = "nat \<Rightarrow> nat \<Rightarrow> nat"

definition truncate_ok :: "truncate \<Rightarrow> bool" where
  "truncate_ok tr \<longleftrightarrow> (\<forall>known w. tr known w = known AND w)"

definition sb_required :: "truncate \<Rightarrow> superblock \<Rightarrow> nat" where
  "sb_required tr sb = tr 15 (unat (sb_required_features sb))"

definition sb_optional :: "truncate \<Rightarrow> superblock \<Rightarrow> nat" where
  "sb_optional tr sb = tr 63 (unat (sb_optional_features sb))"

definition sb_write_required :: "truncate \<Rightarrow> superblock \<Rightarrow> nat" where
  "sb_write_required tr sb = tr 7 (unat (sb_write_required_features sb))"

definition sb_fs_state :: "truncate \<Rightarrow> superblock \<Rightarrow> nat" where
  "sb_fs_state tr sb = tr 3 (unat (sb_state sb))"

definition sb_policy :: "truncate \<Rightarrow> superblock \<Rightarrow> nat" where
  "sb_policy tr sb = tr 3 (unat (sb_error_policy sb))"

definition dir_entries_have_type :: "truncate \<Rightarrow> superblock \<Rightarrow> bool" where
  "dir_entries_have_type tr sb \<longleftrightarrow> bit (sb_required tr sb) 1"

text \<open>The types of inodes; their bits are in the upper four of \<open>type_and_perm\<close>.\<close>

abbreviation TYPE_FIFO :: nat where "TYPE_FIFO \<equiv> 0x1000"
abbreviation TYPE_CHARACTER_DEVICE :: nat where "TYPE_CHARACTER_DEVICE \<equiv> 0x2000"
abbreviation TYPE_DIRECTORY :: nat where "TYPE_DIRECTORY \<equiv> 0x4000"
abbreviation TYPE_BLOCK_DEVICE :: nat where "TYPE_BLOCK_DEVICE \<equiv> 0x6000"
abbreviation TYPE_REGULAR_FILE :: nat where "TYPE_REGULAR_FILE \<equiv> 0x8000"
abbreviation TYPE_SYMLINK :: nat where "TYPE_SYMLINK \<equiv> 0xA000"
abbreviation TYPE_UNIX_SOCKET :: nat where "TYPE_UNIX_SOCKET \<equiv> 0xC000"

definition inode_typ :: "truncate \<Rightarrow> inode \<Rightarrow> nat" where
  "inode_typ tr v = tr 0xF000 (unat (i_type_and_perm v))"

definition inode_perm :: "truncate \<Rightarrow> inode \<Rightarrow> nat" where
  "inode_perm tr v = tr 0xFFF (unat (i_type_and_perm v))"

definition inode_flags :: "truncate \<Rightarrow> inode \<Rightarrow> nat" where
  "inode_flags tr v = tr 0x700FF (unat (i_flags v))"

definition inode_new :: "u16 \<Rightarrow> inode" where
  "inode_new typ = \<lparr>i_type_and_perm = typ, i_user_id = 0, i_byte_size_lower = 0,
    i_last_access_time = 0, i_creation_time = 0, i_last_modification_time = 0, i_deletion_time = 0,
    i_group_id = 0, i_num_hard_links = 0, i_num_disk_sectors = 0, i_flags = 0,
    i_os_val_1 = replicate 4 0, i_direct_block_ptr = replicate 12 0,
    i_singly_indirect_block_ptr = 0, i_doubly_indirect_block_ptr = 0,
    i_triply_indirect_block_ptr = 0, i_generation = 0, i_extended_attribute_block = 0,
    i_byte_size_upper_or_dir_acl = 0, i_fragment_block_address = 0, i_os_val_2 = replicate 12 0\<rparr>"

definition inode_len :: "truncate \<Rightarrow> inode \<Rightarrow> nat" where
  "inode_len tr v = (if inode_typ tr v = TYPE_DIRECTORY then unat (i_byte_size_lower v)
    else unat (i_byte_size_lower v) OR push_bit 32 (unat (i_byte_size_upper_or_dir_acl v)))"

definition direct_ptrs :: "inode \<Rightarrow> nat option list" where
  "direct_ptrs v = map address_new (i_direct_block_ptr v)"

definition set_direct_ptr :: "nat \<Rightarrow> nat option \<Rightarrow> inode \<Rightarrow> ('e, inode) outcome" where
  "set_direct_ptr i ptr v = (if i < length (i_direct_block_ptr v)
    then Ok (v\<lparr>i_direct_block_ptr := (i_direct_block_ptr v)[i := (case ptr of None \<Rightarrow> 0 | Some a \<Rightarrow> of_nat a)]\<rparr>)
    else Panic)"

definition single_indirect_ptr :: "inode \<Rightarrow> nat option" where
  "single_indirect_ptr v = address_new (i_singly_indirect_block_ptr v)"

definition double_indirect_ptr :: "inode \<Rightarrow> nat option" where
  "double_indirect_ptr v = address_new (i_doubly_indirect_block_ptr v)"

definition triple_indirect_ptr :: "inode \<Rightarrow> nat option" where
  "triple_indirect_ptr v = address_new (i_triply_indirect_block_ptr v)"

text \<open>The typed inodes of the macro \<open>inode_type!\<close>: the conversion checks the type.\<close>

definition inode_type :: "truncate \<Rightarrow> nat \<Rightarrow> nat \<times> inode \<Rightarrow> (nat \<times> inode, nat \<times> inode) outcome" where
  "inode_type tr typ v = (if inode_typ tr (snd v) = typ then Ok v else Err v)"

text \<open>The lengths of the arrays.\<close>

definition superblock_ok :: "superblock \<Rightarrow> bool" where
  "superblock_ok v \<longleftrightarrow> length (sb_fsid v) = 16 \<and> length (sb_volume_name v) = 16 \<and>
    length (sb_last_mount_path v) = 16"

definition inode_ok :: "inode \<Rightarrow> bool" where
  "inode_ok v \<longleftrightarrow> length (i_os_val_1 v) = 4 \<and> length (i_direct_block_ptr v) = 12 \<and>
    length (i_os_val_2 v) = 12"

section \<open>Reading and writing\<close>

text \<open>The fields of a structure lie inside its bytes, each after the one before.\<close>

primrec fields_ok :: "nat \<Rightarrow> (nat \<times> bytes) list \<Rightarrow> nat \<Rightarrow> bool" where
  "fields_ok a [] n \<longleftrightarrow> a \<le> n"
| "fields_ok a (f # fs) n \<longleftrightarrow> a \<le> fst f \<and> fields_ok (fst f + length (snd f)) fs n"

lemma fields_ok_bound: "fields_ok a fs n \<Longrightarrow> a \<le> n"
  by (induction fs arbitrary: a) fastforce+

lemma fields_ok_key: "fields_ok a fs n \<Longrightarrow> map_of fs x = Some xs \<Longrightarrow> a \<le> x"
  by (induction fs arbitrary: a) (fastforce split: if_splits)+

lemma length_fields_write [simp]: "fields_ok a fs (length b) \<Longrightarrow> length (fields_write fs b) = length b"
proof (induction fs arbitrary: a b)
  case (Cons f fs)
  then show ?case using fields_ok_bound [of "fst f + length (snd f)" fs "length b"] by fastforce
qed simp

text \<open>A range before the remaining fields stays as it is.\<close>

lemma fields_write_before:
  "fields_ok a fs (length b) \<Longrightarrow> d \<le> a \<Longrightarrow> slice c d (fields_write fs b) = slice c d b"
proof (induction fs arbitrary: a b)
  case (Cons f fs)
  let ?b = "overwrite (fst f) (snd f) b"
  have ok: "fields_ok (fst f + length (snd f)) fs (length b)" and "a \<le> fst f" using Cons.prems by simp_all
  moreover have "fst f + length (snd f) \<le> length b" using fields_ok_bound [OF ok] .
  ultimately show ?case
    using Cons.IH [of "fst f + length (snd f)" ?b] Cons.prems(2) by (simp add: slice_overwrite_disjoint)
qed simp

lemma fields_write_read:
  "fields_ok a fs (length b) \<Longrightarrow> map_of fs x = Some xs \<Longrightarrow>
    slice x (x + length xs) (fields_write fs b) = xs"
proof (induction fs arbitrary: a b)
  case (Cons f fs)
  let ?e = "fst f + length (snd f)" and ?b = "overwrite (fst f) (snd f) b"
  have ok: "fields_ok ?e fs (length b)" using Cons.prems by simp
  have le: "?e \<le> length b" using fields_ok_bound [OF ok] .
  show ?case
  proof (cases "fst f = x")
    case True
    then have "snd f = xs" using Cons.prems(2) by (cases f) simp
    then show ?thesis using True ok le fields_write_before [of ?e fs ?b "x + length xs" x]
      by (simp add: slice_overwrite_same)
  next
    case False
    then have "map_of fs x = Some xs" using Cons.prems(2) by (cases f) simp
    then show ?thesis using Cons.IH [of ?e ?b] ok le by simp
  qed
qed simp

text \<open>Both with the field looked up by its offset.\<close>

lemma slice_fields [slice_simps]:
  assumes "fields_ok 0 fs (length b)" and "map_of fs x \<noteq> None" and "y = x + length (the (map_of fs x))"
  shows "slice x y (fields_write fs b) = the (map_of fs x)"
  using assms fields_write_read [of 0 fs b x] by auto

lemma field_read_fields [slice_simps]:
  assumes "fields_ok 0 fs (length b)" and "map_of fs x \<noteq> None" and "length (the (map_of fs x)) = n"
  shows "field_read n x (fields_write fs b) = word_from_le (the (map_of fs x))"
  using assms fields_write_read [of 0 fs b x] by (auto simp: field_read_def)

lemma chunks_words:
  "chunks_exact 4 (concat (map (word_to_le 4) ws)) = map (word_to_le 4) (ws :: u32 list)"
proof (induction ws)
  case Nil
  then show ?case by (simp add: chunks_exact.simps)
next
  case (Cons w ws)
  then show ?case by (subst chunks_exact.simps) simp
qed

lemma words_round_trip: "map word_from_le (map (word_to_le 4) ws) = (ws :: u32 list)"
  by (induction ws) (simp_all add: word_from_to_le)

lemma length_concat_words [simp]: "length (concat (map (word_to_le 4) (ws :: u32 list))) = 4 * length ws"
  by (induction ws) simp_all

lemma superblock_fields_ok: "superblock_ok v \<Longrightarrow> fields_ok 0 (superblock_fields v) 1024"
  by (simp add: superblock_ok_def superblock_fields_def)

lemma superblock_read_write: "superblock_ok v \<Longrightarrow> superblock_read (superblock_write v) = v"
  unfolding superblock_write_def superblock_read_def
  using superblock_fields_ok [of v]
  by (simp add: slice_simps superblock_ok_def superblock_fields_def word_from_to_le del: fields_write.simps fields_ok.simps)

lemma block_group_descriptor_read_write: "block_group_descriptor_read (block_group_descriptor_write v) = v"
  by (simp add: block_group_descriptor_read_def block_group_descriptor_write_def slice_simps
      block_group_descriptor_fields_def word_from_to_le del: fields_write.simps)

lemma inode_read_write: "inode_ok v \<Longrightarrow> inode_read (inode_write v) = v"
  by (simp add: inode_ok_def inode_read_def inode_write_def slice_simps chunks_words words_round_trip
      inode_fields_def word_from_to_le del: fields_write.simps map_map)

lemma dir_entry_no_name_read_write: "dir_entry_no_name_read (dir_entry_no_name_write v) = v"
  by (simp add: dir_entry_no_name_read_def dir_entry_no_name_write_def slice_simps
      dir_entry_no_name_fields_def word_from_to_le del: fields_write.simps)

text \<open>Fields that follow one another without a gap write the concatenation of their bytes.\<close>

primrec contiguous :: "nat \<Rightarrow> (nat \<times> bytes) list \<Rightarrow> bool" where
  "contiguous a [] \<longleftrightarrow> True"
| "contiguous a (f # fs) \<longleftrightarrow> fst f = a \<and> contiguous (a + length (snd f)) fs"

lemma fields_write_contiguous:
  "contiguous a fs \<Longrightarrow> a + length (concat (map snd fs)) \<le> length b \<Longrightarrow>
    fields_write fs b = overwrite a (concat (map snd fs)) b"
proof (induction fs arbitrary: a b)
  case (Cons f fs)
  then have "fields_write (f # fs) b = overwrite (a + length (snd f)) (concat (map snd fs)) (overwrite a (snd f) b)"
    by simp
  then show ?case using Cons.prems by (simp add: overwrite_overwrite_append)
qed simp

lemma fields_write_after:
  "fields_ok a fs (length b) \<Longrightarrow> list_all (\<lambda>f. fst f + length (snd f) \<le> c) fs \<Longrightarrow> d \<le> length b \<Longrightarrow>
    slice c d (fields_write fs b) = slice c d b"
proof (induction fs arbitrary: a b)
  case (Cons f fs)
  have ok: "fields_ok (fst f + length (snd f)) fs (length b)" using Cons.prems by simp
  then show ?case
    using Cons.IH [of "fst f + length (snd f)" "overwrite (fst f) (snd f) b"] Cons.prems fields_ok_bound [OF ok]
    by (simp add: slice_overwrite_disjoint)
qed simp

lemma slice_append_left [slice_simps]:
  "a \<le> b \<Longrightarrow> b \<le> c \<Longrightarrow> slice a b xs @ slice b c xs @ ys = slice a c xs @ ys"
  by (simp add: slice_append flip: append_assoc)

lemma word_to_from_le_n: "length bs = n \<Longrightarrow> LENGTH('a) = 8 * n \<Longrightarrow> word_to_le n (word_from_le bs :: 'a::len word) = bs"
  using word_to_from_le [of bs] by auto

lemma words_bytes_round_trip:
  assumes "length bs = 4 * k"
  shows "concat (map (word_to_le 4 \<circ> (word_from_le :: bytes \<Rightarrow> u32)) (chunks_exact 4 bs)) = bs"
proof -
  have "map (word_to_le 4 \<circ> (word_from_le :: bytes \<Rightarrow> u32)) (chunks_exact 4 bs) = chunks_exact 4 bs"
    by (rule map_idI) (simp add: word_to_from_le_n chunks_exact_lengths)
  then show ?thesis using chunks_exact_concat [of 4 bs k] assms by simp
qed

lemma inode_write_read:
  assumes "length b = 128"
  shows "inode_write (inode_read b) = b"
proof -
  let ?fs = "inode_fields (inode_read b)"
  have words: "concat (map (word_to_le 4 \<circ> (word_from_le :: bytes \<Rightarrow> u32)) (chunks_exact 4 (slice 40 88 b))) = slice 40 88 b"
    using assms by (intro words_bytes_round_trip [of _ 12]) simp
  have "concat (map snd ?fs) = slice 0 128 b"
    using assms by (simp add: inode_fields_def inode_read_def field_read_def word_to_from_le_n words slice_simps
        flip: numeral_2_eq_2)
  moreover have "contiguous 0 ?fs"
    using assms arg_cong [OF words, of length] by (simp add: inode_fields_def inode_read_def del: length_concat)
  ultimately show ?thesis
    using fields_write_contiguous [of 0 ?fs "replicate 128 0"] assms slice_full [of b]
    by (simp add: inode_write_def overwrite_def)
qed

section \<open>Properties\<close>

text \<open>C27: The conversions that \<open>bytefield!\<close> generates are inverse: reading the bytes written from
  a superblock, a block group descriptor, an inode or an entry header gives the structure back,
  and writing the inode read from any 128 bytes gives these bytes back. Past its last field a
  written superblock is zero.\<close>

theorem structures_round_trip:
  assumes "superblock_ok sb" and "inode_ok i" and "length b = 128"
  shows "superblock_read (superblock_write sb) = sb \<and> inode_read (inode_write i) = i \<and>
    inode_write (inode_read b) = b \<and>
    block_group_descriptor_read (block_group_descriptor_write bg) = bg \<and>
    dir_entry_no_name_read (dir_entry_no_name_write dn) = dn \<and>
    slice 206 1024 (superblock_write sb) = replicate 818 0"
proof -
  have "slice 206 1024 (superblock_write sb) = slice 206 1024 (replicate 1024 0)"
    unfolding superblock_write_def
    by (rule fields_write_after [of 0])
      (use assms(1) superblock_fields_ok [of sb] in \<open>simp_all add: superblock_ok_def superblock_fields_def\<close>)
  then have "slice 206 1024 (superblock_write sb) = replicate 818 0" by (simp add: slice_def)
  then show ?thesis
    by (simp add: assms superblock_read_write inode_read_write inode_write_read
        block_group_descriptor_read_write dir_entry_no_name_read_write)
qed

theorem structures_round_trip_witness:
  "superblock_read (superblock_write (superblock_read (replicate 1024 7))) = superblock_read (replicate 1024 7) \<and>
   inode_read (inode_write (inode_new 0x8000)) = inode_new 0x8000 \<and>
   inode_write (inode_read (replicate 128 7)) = replicate 128 7 \<and>
   slice 206 1024 (superblock_write (superblock_read (replicate 1024 7))) = replicate 818 0"
proof -
  have "superblock_ok (superblock_read (replicate 1024 7))" by (simp add: superblock_ok_def superblock_read_def)
  moreover have "inode_ok (inode_new 0x8000)" by (simp add: inode_ok_def inode_new_def)
  ultimately show ?thesis
    using structures_round_trip [of "superblock_read (replicate 1024 7)" "inode_new 0x8000" "replicate 128 7"] by simp
qed

end
