(* ===== verification/Ext2_Fs.thy ===== *)
theory Ext2_Fs
  imports Ext2_Layout Block_Device
begin

text \<open>
  The ext2 file system over a block device (\<open>kernel/ext2/src/lib.rs\<close>, \<open>read.rs\<close>): mounting,
  inodes and blocks, the allocation of blocks and inodes, the resolution of a file's block index
  through the direct and indirect pointers with the cache of indirect blocks, and reading a file.
\<close>

section \<open>State\<close>

datatype ext2_error =
    InvalidSuperblock
  | UnableToReadSuperblock
  | UnableToWriteSuperblock
  | UnableToReadBlockGroupDescriptorTable
  | UnableToWriteBlockGroupDescriptorTable
  | NotDirectory
  | NotRegularFile
  | DeviceRead
  | DeviceWrite
  | InvalidInodeAddress nat
  | InvalidBlockIndex nat
  | NoSpace
  | NotSupported
  | EntryExists

text \<open>\<open>env\<close>: the block device's operations and the flag truncation of the \<open>bitflags\<close> crate.\<close>

record ('d, 'e) ext2_env =
  dev :: "('d, 'e) block_device"
  tr :: truncate

type_synonym pointer_table = "nat option list"
type_synonym indirect_cache = "(nat \<times> pointer_table) list"

record 'd ext2_fs =
  disk :: 'd
  superblock :: superblock
  bgdt :: "block_group_descriptor list"
  cache :: indirect_cache

section \<open>Checked arithmetic on 32-bit integers\<close>

definition u32_add :: "nat \<Rightarrow> nat \<Rightarrow> ('e, nat) outcome" where
  "u32_add a b = (if a + b < 2 ^ 32 then Ok (a + b) else Panic)"

definition u32_mul :: "nat \<Rightarrow> nat \<Rightarrow> ('e, nat) outcome" where
  "u32_mul a b = (if a * b < 2 ^ 32 then Ok (a * b) else Panic)"

definition u32_sub :: "nat \<Rightarrow> nat \<Rightarrow> ('e, nat) outcome" where
  "u32_sub a b = (if b \<le> a then Ok (a - b) else Panic)"

definition u32_div :: "nat \<Rightarrow> nat \<Rightarrow> ('e, nat) outcome" where
  "u32_div a b = (if b = 0 then Panic else Ok (a div b))"

definition u32_mod :: "nat \<Rightarrow> nat \<Rightarrow> ('e, nat) outcome" where
  "u32_mod a b = (if b = 0 then Panic else Ok (a mod b))"

lemmas u32_defs = u32_add_def u32_mul_def u32_sub_def u32_div_def u32_mod_def

section \<open>Mounting\<close>

definition SUPERBLOCK_OFFSET :: nat where
  "SUPERBLOCK_OFFSET = 1024"

definition ROOT_DIR_INODE_ADDRESS :: nat where
  "ROOT_DIR_INODE_ADDRESS = 2"

definition BGD_SIZE :: nat where
  "BGD_SIZE = 32"

definition bgdt_offset_of :: "nat \<Rightarrow> nat" where
  "bgdt_offset_of bs = (if bs = 1024 then 2048 else bs)"

fun read_descriptors :: "bytes \<Rightarrow> nat \<Rightarrow> nat \<Rightarrow> ('e, block_group_descriptor list) outcome" where
  "read_descriptors data i 0 = Ok []"
| "read_descriptors data i (Suc n) =
    obind (index_range (i * BGD_SIZE) (i * BGD_SIZE + BGD_SIZE) data) (\<lambda>bgd_data.
    obind (read_descriptors data (Suc i) n) (\<lambda>rest.
    Ok (block_group_descriptor_read bgd_data # rest)))"

definition ext2_try_new :: "('d, 'e) ext2_env \<Rightarrow> 'd \<Rightarrow> (ext2_error, 'd ext2_fs) outcome" where
  "ext2_try_new env d =
    obind (map_err (\<lambda>_. UnableToReadSuperblock) (read_at (dev env) d SUPERBLOCK_OFFSET 1024)) (\<lambda>(_, data).
    let sb = superblock_read data; bpg = unat (sb_blocks_per_group sb) in
    if bpg = 0 then Panic
    else let number_of_block_groups = (unat (sb_num_blocks sb) + bpg - 1) div bpg in
    obind (block_size sb) (\<lambda>bs.
    obind (map_err (\<lambda>_. UnableToReadBlockGroupDescriptorTable)
             (read_at (dev env) d (bgdt_offset_of bs) bs)) (\<lambda>(_, bgdt_data).
    obind (read_descriptors bgdt_data 0 number_of_block_groups) (\<lambda>table.
    Ok \<lparr>disk = d, superblock = sb, bgdt = table, cache = []\<rparr>))))"

section \<open>Blocks and inodes\<close>

text \<open>The multiplication is one of \<open>u32\<close>.\<close>

definition resolve_block_offset :: "'d ext2_fs \<Rightarrow> nat \<Rightarrow> ('e, nat) outcome" where
  "resolve_block_offset fs addr = obind (block_size (superblock fs)) (u32_mul addr)"

definition read_block :: "('d, 'e) ext2_env \<Rightarrow> 'd ext2_fs \<Rightarrow> nat \<Rightarrow> nat \<Rightarrow> (ext2_error, nat \<times> bytes) outcome" where
  "read_block env fs addr n =
    obind (resolve_block_offset fs addr) (\<lambda>offset.
    map_err (\<lambda>_. DeviceRead) (read_at (dev env) (disk fs) offset n))"

definition cache_invalidate :: "nat \<Rightarrow> indirect_cache \<Rightarrow> indirect_cache" where
  "cache_invalidate addr c = filter (\<lambda>e. fst e \<noteq> addr) c"

definition device_write ::
  "('d, 'e) ext2_env \<Rightarrow> ext2_error \<Rightarrow> 'd ext2_fs \<Rightarrow> nat \<Rightarrow> bytes \<Rightarrow> (ext2_error, nat, 'd ext2_fs) run" where
  "device_write env err fs offset buf =
    (case write_at (dev env) (disk fs) offset buf of
       (r, d) \<Rightarrow> (map_err (\<lambda>_. err) r, fs\<lparr>disk := d\<rparr>))"

definition write_block ::
  "('d, 'e) ext2_env \<Rightarrow> 'd ext2_fs \<Rightarrow> nat \<Rightarrow> bytes \<Rightarrow> (ext2_error, nat, 'd ext2_fs) run" where
  "write_block env fs addr buf =
    (let fs1 = fs\<lparr>cache := cache_invalidate addr (cache fs)\<rparr> in
     lift_pure (resolve_block_offset fs1 addr) fs1 (\<lambda>offset. device_write env DeviceWrite fs1 offset buf))"

text \<open>Where an inode lies in the inode table of its group.\<close>

definition inode_position :: "'d ext2_fs \<Rightarrow> nat \<Rightarrow> ('e, nat) outcome" where
  "inode_position fs addr =
    (let sb = superblock fs; inodes_per_group = unat (sb_inodes_per_group sb) in
     obind (u32_div (addr - 1) inodes_per_group) (\<lambda>block_group_index.
     obind (unwrap (nth_opt (bgdt fs) block_group_index)) (\<lambda>block_group.
     obind (unwrap (address_new (bg_inode_table_starting_block block_group))) (\<lambda>itable_start_block.
     obind (u32_mod (addr - 1) inodes_per_group) (\<lambda>index.
     obind (resolve_block_offset fs itable_start_block) (\<lambda>base.
     obind (u32_mul index (unat (sb_inode_size sb))) (\<lambda>rel. Ok (base + rel))))))))"

definition read_inode :: "('d, 'e) ext2_env \<Rightarrow> 'd ext2_fs \<Rightarrow> nat \<Rightarrow> (ext2_error, nat \<times> inode) outcome" where
  "read_inode env fs addr =
    obind (inode_position fs addr) (\<lambda>address.
    obind (map_err (\<lambda>_. DeviceRead) (read_at (dev env) (disk fs) address 128)) (\<lambda>(_, buf).
    Ok (addr, inode_read buf)))"

definition write_inode ::
  "('d, 'e) ext2_env \<Rightarrow> 'd ext2_fs \<Rightarrow> nat \<Rightarrow> inode \<Rightarrow> (ext2_error, unit, 'd ext2_fs) run" where
  "write_inode env fs addr v =
    lift_pure (inode_position fs addr) fs (\<lambda>address.
    sbind (device_write env DeviceWrite fs address (inode_write v)) (\<lambda>_ fs. (Ok (), fs)))"

definition read_root_inode :: "('d, 'e) ext2_env \<Rightarrow> 'd ext2_fs \<Rightarrow> (ext2_error, nat \<times> inode) outcome" where
  "read_root_inode env fs =
    obind (read_inode env fs ROOT_DIR_INODE_ADDRESS) (\<lambda>v.
    map_err (\<lambda>_. NotDirectory) (inode_type (tr env) TYPE_DIRECTORY v))"

section \<open>Allocation\<close>

text \<open>The first clear bit of a byte, of the bitmap.\<close>

definition first_clear_bit :: "u8 \<Rightarrow> nat option" where
  "first_clear_bit b = List.find (\<lambda>k. \<not> bit b k) [0..<8]"

primrec first_clear :: "nat \<Rightarrow> bytes \<Rightarrow> nat option" where
  "first_clear i [] = None"
| "first_clear i (b # bs) = (case first_clear_bit b of
     Some k \<Rightarrow> Some (i * 8 + k)
   | None \<Rightarrow> first_clear (Suc i) bs)"

text \<open>The set bit is only in the local copy of the bitmap; the copy is written back when no bit
  was clear.\<close>

definition try_reserve_in_group_with_bitmap ::
  "('d, 'e) ext2_env \<Rightarrow> 'd ext2_fs \<Rightarrow> nat \<Rightarrow> (ext2_error, nat option, 'd ext2_fs) run" where
  "try_reserve_in_group_with_bitmap env fs bitmap_block =
    lift_pure (block_size (superblock fs)) fs (\<lambda>bs.
    lift_pure (read_block env fs bitmap_block bs) fs (\<lambda>(_, bitmap).
    case first_clear 0 bitmap of
      Some i \<Rightarrow> (Ok (Some i), fs)
    | None \<Rightarrow> sbind (write_block env fs bitmap_block bitmap) (\<lambda>_ fs. (Ok None, fs))))"

definition try_reserve_block_in_group ::
  "('d, 'e) ext2_env \<Rightarrow> 'd ext2_fs \<Rightarrow> nat \<Rightarrow> (ext2_error, nat option, 'd ext2_fs) run" where
  "try_reserve_block_in_group env fs group_index =
    lift_pure (unwrap (nth_opt (bgdt fs) group_index)) fs (\<lambda>bg.
    lift_pure (unwrap (address_new (bg_block_usage_bitmap_block bg))) fs (\<lambda>a.
    try_reserve_in_group_with_bitmap env fs a))"

definition try_reserve_inode_in_group ::
  "('d, 'e) ext2_env \<Rightarrow> 'd ext2_fs \<Rightarrow> nat \<Rightarrow> (ext2_error, nat option, 'd ext2_fs) run" where
  "try_reserve_inode_in_group env fs group_index =
    lift_pure (unwrap (nth_opt (bgdt fs) group_index)) fs (\<lambda>bg.
    lift_pure (unwrap (address_new (bg_inode_usage_bitmap_block bg))) fs (\<lambda>a.
    try_reserve_in_group_with_bitmap env fs a))"

text \<open>\<open>-= 1\<close> on a counter.\<close>

definition decrement :: "'a::len word \<Rightarrow> ('e, 'a word) outcome" where
  "decrement w = (if w = 0 then Panic else Ok (w - 1))"

text \<open>What an allocation updates: the group's descriptor, in memory and on the device, and the
  superblock.\<close>

definition account_allocation ::
  "('d, 'e) ext2_env \<Rightarrow> nat \<Rightarrow> 'd ext2_fs \<Rightarrow> nat \<Rightarrow> (ext2_error, unit, 'd ext2_fs) run" where
  "account_allocation env bs fs group_index =
    (let bg = bgdt fs ! group_index in
    lift_pure (decrement (bg_num_unallocated_blocks bg)) fs (\<lambda>free.
    let bg' = bg\<lparr>bg_num_unallocated_blocks := free\<rparr>; fs = fs\<lparr>bgdt := (bgdt fs)[group_index := bg']\<rparr> in
    lift_pure (map_err (\<lambda>_. UnableToReadBlockGroupDescriptorTable)
        (read_at (dev env) (disk fs) (bgdt_offset_of bs) bs)) fs (\<lambda>(_, data).
    lift_pure (copy_into (group_index * BGD_SIZE) (block_group_descriptor_write bg') data) fs (\<lambda>data.
    sbind (device_write env UnableToWriteBlockGroupDescriptorTable fs (bgdt_offset_of bs) data) (\<lambda>_ fs.
    lift_pure (decrement (sb_num_unallocated_blocks (superblock fs))) fs (\<lambda>free.
    let fs = fs\<lparr>superblock := (superblock fs)\<lparr>sb_num_unallocated_blocks := free\<rparr>\<rparr> in
    sbind (device_write env UnableToWriteSuperblock fs SUPERBLOCK_OFFSET
             (superblock_write (superblock fs))) (\<lambda>_ fs. (Ok (), fs))))))))"

text \<open>The loop over the groups, and the function, which reads the block size before it.\<close>

primrec allocate_in_groups ::
  "('d, 'e) ext2_env \<Rightarrow> nat \<Rightarrow> nat \<Rightarrow> ('d ext2_fs \<Rightarrow> nat \<Rightarrow> (ext2_error, nat option, 'd ext2_fs) run) \<Rightarrow>
    nat list \<Rightarrow> 'd ext2_fs \<Rightarrow> (ext2_error, nat option, 'd ext2_fs) run" where
  "allocate_in_groups env bs per_group try_reserve [] fs = (Ok None, fs)"
| "allocate_in_groups env bs per_group try_reserve (g # gs) fs =
    sbind (try_reserve fs g) (\<lambda>found fs. case found of
      None \<Rightarrow> allocate_in_groups env bs per_group try_reserve gs fs
    | Some i \<Rightarrow>
        sbind (account_allocation env bs fs g) (\<lambda>_ fs.
        lift_pure (u32_mul g per_group) fs (\<lambda>base.
        lift_pure (u32_add base i) fs (\<lambda>n. (Ok (Some n), fs)))))"

definition allocate_resource ::
  "('d, 'e) ext2_env \<Rightarrow> nat \<Rightarrow> ('d ext2_fs \<Rightarrow> nat \<Rightarrow> (ext2_error, nat option, 'd ext2_fs) run) \<Rightarrow>
    'd ext2_fs \<Rightarrow> (ext2_error, nat option, 'd ext2_fs) run" where
  "allocate_resource env per_group try_reserve fs =
    lift_pure (block_size (superblock fs)) fs (\<lambda>bs.
    allocate_in_groups env bs per_group try_reserve [0..<length (bgdt fs)] fs)"

definition address_of_nat :: "nat \<Rightarrow> nat option" where
  "address_of_nat n = (if n = 0 then None else Some n)"

definition allocate_block :: "('d, 'e) ext2_env \<Rightarrow> 'd ext2_fs \<Rightarrow> (ext2_error, nat option, 'd ext2_fs) run" where
  "allocate_block env fs =
    sbind (allocate_resource env (unat (sb_blocks_per_group (superblock fs)))
             (try_reserve_block_in_group env) fs) (\<lambda>n fs.
    (Ok (Option.bind n address_of_nat), fs))"

definition allocate_inode :: "('d, 'e) ext2_env \<Rightarrow> 'd ext2_fs \<Rightarrow> (ext2_error, nat option, 'd ext2_fs) run" where
  "allocate_inode env fs =
    sbind (allocate_resource env (unat (sb_inodes_per_group (superblock fs)))
             (try_reserve_inode_in_group env) fs) (\<lambda>n fs.
    (Ok (Option.bind n address_of_nat), fs))"

section \<open>Bitmaps\<close>

definition bitmap_bit :: "bytes \<Rightarrow> nat \<Rightarrow> bool" where
  "bitmap_bit bm k \<longleftrightarrow> bit (bm ! (k div 8)) (k mod 8)"

lemma first_clear_bit_Some:
  "first_clear_bit b = Some k \<longleftrightarrow> k < 8 \<and> \<not> bit b k \<and> (\<forall>j < k. bit b j)"
  unfolding first_clear_bit_def find_Some_iff by (auto simp: nth_upt)

lemma first_clear_bit_None: "first_clear_bit b = None \<longleftrightarrow> (\<forall>k < 8. bit b k)"
  unfolding first_clear_bit_def find_None_iff by auto

lemma bitmap_bit_Cons:
  "bitmap_bit (b # bm) k \<longleftrightarrow> (if k < 8 then bit b k else bitmap_bit bm (k - 8))"
  by (auto simp: bitmap_bit_def nth_Cons' div_if mod_if)

lemma first_clear_Some:
  "first_clear i bm = Some k \<Longrightarrow>
    \<exists>j < 8 * length bm. k = i * 8 + j \<and> \<not> bitmap_bit bm j \<and> (\<forall>l < j. bitmap_bit bm l)"
proof (induction bm arbitrary: i)
  case (Cons b bm)
  show ?case
  proof (cases "first_clear_bit b")
    case None
    then obtain j where j: "j < 8 * length bm" "k = Suc i * 8 + j" "\<not> bitmap_bit bm j" "\<forall>l < j. bitmap_bit bm l"
      using Cons.IH [of "Suc i"] Cons.prems by auto
    then show ?thesis using None
      by (intro exI [of _ "8 + j"]) (auto simp: bitmap_bit_Cons first_clear_bit_None)
  next
    case (Some j)
    then have "k = i * 8 + j" "j < 8 \<and> \<not> bit b j \<and> (\<forall>l < j. bit b l)"
      using Cons.prems first_clear_bit_Some [of b j] by simp_all
    then show ?thesis by (intro exI [of _ j]) (auto simp: bitmap_bit_Cons)
  qed
qed simp

lemma first_clear_None: "first_clear i bm = None \<Longrightarrow> k < 8 * length bm \<Longrightarrow> bitmap_bit bm k"
proof (induction bm arbitrary: i k)
  case (Cons b bm)
  then show ?case
    by (cases "k < 8") (auto simp: bitmap_bit_Cons first_clear_bit_None split: option.splits)
qed simp

section \<open>Reading a block\<close>

text \<open>A block whose byte offset fits \<open>u32\<close> and that lies on the device.\<close>

definition block_inside :: "nat \<Rightarrow> bytes \<Rightarrow> nat \<Rightarrow> bool" where
  "block_inside bs contents a \<longleftrightarrow> a * bs < 2 ^ 32 \<and> Suc a * bs \<le> length contents"

lemma read_block_slice:
  assumes "sector_device (dev env) valid contents" "valid (disk fs)"
    and "block_size (superblock fs) = (Ok bs :: (ext2_error, nat) outcome)"
    and "block_inside bs (contents (disk fs)) a" and "n \<le> bs"
  shows "read_block env fs a n = Ok (n, slice (a * bs) (a * bs + n) (contents (disk fs)))"
  using sector_device.read_at_slice [OF assms(1,2), of "a * bs" n] assms(3-5)
  by (simp add: read_block_def resolve_block_offset_def u32_mul_def block_inside_def)

section \<open>Properties\<close>

text \<open>A file system of blocks of 1024 bytes on a device in memory of three blocks.\<close>

definition demo_env :: "(memory_block_device, unit) ext2_env" where
  "demo_env = \<lparr>dev = mem_ops, tr = (\<lambda>known w. known AND w)\<rparr>"

definition demo_fs :: "memory_block_device ext2_fs" where
  "demo_fs = \<lparr>disk = \<lparr>mem_sector_size = 512, mem_data = replicate 2048 0 @ replicate 1024 7\<rparr>,
    superblock = superblock_read (replicate 1024 0), bgdt = [], cache = []\<rparr>"

lemma field_read_zero: "field_read n x (replicate m 0) = 0"
proof -
  have "le_val (replicate k 0) = 0" for k by (induction k) simp_all
  then show ?thesis by (simp add: field_read_def slice_def word_from_le_def)
qed

lemma demo_block_size: "block_size (superblock demo_fs) = Ok 1024"
  by (simp add: demo_fs_def superblock_read_def field_read_zero block_size_def u32_shl_def)

lemma demo_device: "sector_device (dev demo_env) mem_valid mem_data"
  using mem.sector_device_axioms by (simp add: demo_env_def)

lemma demo_valid: "mem_valid (disk demo_fs)"
  by (simp add: mem_valid_def demo_fs_def U64_LIMIT_def)

lemma demo_bitmap: "read_block demo_env demo_fs 2 1024 = Ok (1024, replicate 1024 7)"
  using read_block_slice [OF demo_device demo_valid demo_block_size, of 2 1024]
  by (simp add: block_inside_def demo_fs_def slice_def)

text \<open>C28: A reservation in a group's bitmap picks the lowest clear bit, and answers that there is
  none only for a full bitmap. It leaves the file system as it was: the bit is not set on the
  device, so that the next reservation picks the same bit again.\<close>

theorem try_reserve_lowest_clear:
  assumes "block_size (superblock fs) = (Ok bs :: (ext2_error, nat) outcome)"
    and "read_block env fs b bs = Ok (n, bm)"
  shows "case fst (try_reserve_in_group_with_bitmap env fs b) of
      Ok (Some i) \<Rightarrow> i < 8 * length bm \<and> \<not> bitmap_bit bm i \<and> (\<forall>j < i. bitmap_bit bm j) \<and>
        snd (try_reserve_in_group_with_bitmap env fs b) = fs
    | Ok None \<Rightarrow> (\<forall>j < 8 * length bm. bitmap_bit bm j)
    | _ \<Rightarrow> (\<forall>j < 8 * length bm. bitmap_bit bm j) \<and>
        fst (write_block env fs b bm) \<noteq> Ok (length bm)"
proof (cases "first_clear 0 bm")
  case None
  then show ?thesis
    using first_clear_None [OF None] assms
    by (cases "write_block env fs b bm"; cases "fst (write_block env fs b bm)")
      (auto simp: try_reserve_in_group_with_bitmap_def)
next
  case (Some i)
  then show ?thesis
    using first_clear_Some [OF Some] assms by (auto simp: try_reserve_in_group_with_bitmap_def)
qed

theorem try_reserve_lowest_clear_witness:
  "\<exists>i. fst (try_reserve_in_group_with_bitmap demo_env demo_fs 2) = Ok (Some i) \<and>
    \<not> bitmap_bit (replicate 1024 7) i \<and> snd (try_reserve_in_group_with_bitmap demo_env demo_fs 2) = demo_fs"
proof -
  have "\<not> bitmap_bit (replicate 1024 7) 3"
    by (simp add: bitmap_bit_def bit_iff_odd)
  then show ?thesis using try_reserve_lowest_clear [OF demo_block_size demo_bitmap]
    by (fastforce split: outcome.splits option.splits)
qed

end
