(* ===== verification/Ext2_Read.thy ===== *)
theory Ext2_Read
  imports Ext2_Fs "HOL-Library.Multiset"
begin

text \<open>
  Reading files of an ext2 file system (\<open>kernel/ext2/src/read.rs\<close>): the cache of indirect blocks,
  the resolution of a block index through direct, single, double and triple indirect pointers,
  the coalesced reading of a block range, and \<open>read_from_file\<close>.
\<close>

section \<open>The cache of indirect blocks\<close>

definition INDIRECT_CACHE_CAPACITY :: nat where
  "INDIRECT_CACHE_CAPACITY = 4"

text \<open>A hit moves its entry to the front; an index outside the cached table is no hit.\<close>

definition cache_lookup :: "nat \<Rightarrow> nat \<Rightarrow> indirect_cache \<Rightarrow> nat option option \<times> indirect_cache" where
  "cache_lookup addr index c = (case position (\<lambda>e. fst e = addr) c of
     None \<Rightarrow> (None, c)
   | Some pos \<Rightarrow>
       let c' = c ! pos # take pos c @ drop (Suc pos) c in
       (nth_opt (snd (c ! pos)) index, c'))"

definition cache_insert :: "nat \<Rightarrow> pointer_table \<Rightarrow> indirect_cache \<Rightarrow> indirect_cache" where
  "cache_insert addr table c =
    (addr, table) # (if length c = INDIRECT_CACHE_CAPACITY then butlast c else c)"

section \<open>Resolving block indices\<close>

definition pointers_of :: "bytes \<Rightarrow> pointer_table" where
  "pointers_of data = map (address_new \<circ> word_from_le) (chunks_exact 4 data)"

definition resolve_indirect_ptr ::
  "('d, 'e) ext2_env \<Rightarrow> 'd ext2_fs \<Rightarrow> nat option \<Rightarrow> nat \<Rightarrow> (ext2_error, nat option, 'd ext2_fs) run" where
  "resolve_indirect_ptr env fs ptr block_index = (case ptr of
     None \<Rightarrow> (Ok None, fs)
   | Some indirect_ptr \<Rightarrow>
       (case cache_lookup indirect_ptr block_index (cache fs) of (hit, c) \<Rightarrow>
        let fs = fs\<lparr>cache := c\<rparr> in
        (case hit of
           Some cached \<Rightarrow> (Ok cached, fs)
         | None \<Rightarrow>
             lift_pure (block_size (superblock fs)) fs (\<lambda>bs.
             lift_pure (read_block env fs indirect_ptr bs) fs (\<lambda>(_, data).
             let table = pointers_of data in
             lift_pure (ok_or (nth_opt table block_index) (InvalidBlockIndex block_index)) fs (\<lambda>resolved.
             (Ok resolved, fs\<lparr>cache := cache_insert indirect_ptr table c\<rparr>)))))))"

definition resolve_double_indirect_ptr ::
  "('d, 'e) ext2_env \<Rightarrow> 'd ext2_fs \<Rightarrow> nat option \<Rightarrow> nat \<Rightarrow> (ext2_error, nat option, 'd ext2_fs) run" where
  "resolve_double_indirect_ptr env fs ptr block_index =
    lift_pure (block_size (superblock fs)) fs (\<lambda>bs.
    lift_pure (u32_div block_index (bs div 4)) fs (\<lambda>single_indirect_index.
    sbind (resolve_indirect_ptr env fs ptr single_indirect_index) (\<lambda>single_indirect_block_ptr fs.
    resolve_indirect_ptr env fs single_indirect_block_ptr (block_index mod (bs div 4)))))"

definition resolve_triple_indirect_ptr ::
  "('d, 'e) ext2_env \<Rightarrow> 'd ext2_fs \<Rightarrow> nat option \<Rightarrow> nat \<Rightarrow> (ext2_error, nat option, 'd ext2_fs) run" where
  "resolve_triple_indirect_ptr env fs ptr block_index =
    lift_pure (block_size (superblock fs)) fs (\<lambda>bs.
    lift_pure (u32_mul (bs div 4) (bs div 4)) fs (\<lambda>blocks_per_double_indirect.
    lift_pure (u32_div block_index blocks_per_double_indirect) fs (\<lambda>double_indirect_index.
    sbind (resolve_indirect_ptr env fs ptr double_indirect_index) (\<lambda>double_indirect_block_ptr fs.
    resolve_double_indirect_ptr env fs double_indirect_block_ptr
      (block_index mod blocks_per_double_indirect)))))"

definition indirect_pointer_limits :: "'d ext2_fs \<Rightarrow> ('e, nat \<times> nat \<times> nat) outcome" where
  "indirect_pointer_limits fs =
    obind (block_size (superblock fs)) (\<lambda>bs.
    obind (u32_add 12 (bs div 4)) (\<lambda>indirect_limit.
    obind (u32_mul (bs div 4) (bs div 4)) (\<lambda>sq.
    obind (u32_add indirect_limit sq) (\<lambda>double_indirect_limit.
    Ok (12, indirect_limit, double_indirect_limit)))))"

definition resolve_block_index ::
  "('d, 'e) ext2_env \<Rightarrow> 'd ext2_fs \<Rightarrow> inode \<Rightarrow> nat \<Rightarrow> (ext2_error, nat option, 'd ext2_fs) run" where
  "resolve_block_index env fs v block_index =
    lift_pure (indirect_pointer_limits fs) fs (\<lambda>(direct_limit, indirect_limit, double_indirect_limit).
    if block_index < direct_limit then (Ok (Option.bind (nth_opt (direct_ptrs v) block_index) id), fs)
    else if block_index < indirect_limit then
      resolve_indirect_ptr env fs (single_indirect_ptr v) (block_index - direct_limit)
    else if block_index < double_indirect_limit then
      resolve_double_indirect_ptr env fs (double_indirect_ptr v) (block_index - indirect_limit)
    else
      lift_pure (block_size (superblock fs)) fs (\<lambda>bs.
      if double_indirect_limit + bs div 4 * (bs div 4) * (bs div 4) \<le> block_index
      then (Err (InvalidBlockIndex block_index), fs)
      else resolve_triple_indirect_ptr env fs (triple_indirect_ptr v) (block_index - double_indirect_limit)))"

definition is_block_allocated ::
  "('d, 'e) ext2_env \<Rightarrow> 'd ext2_fs \<Rightarrow> inode \<Rightarrow> nat \<Rightarrow> (ext2_error, bool, 'd ext2_fs) run" where
  "is_block_allocated env fs v block_index =
    sbind (resolve_block_index env fs v block_index) (\<lambda>p fs. (Ok (p \<noteq> None), fs))"

section \<open>Reading blocks and files\<close>

primrec resolve_blocks ::
  "('d, 'e) ext2_env \<Rightarrow> inode \<Rightarrow> nat list \<Rightarrow> 'd ext2_fs \<Rightarrow> (ext2_error, nat option list, 'd ext2_fs) run" where
  "resolve_blocks env v [] fs = (Ok [], fs)"
| "resolve_blocks env v (b # bs) fs =
    sbind (resolve_block_index env fs v b) (\<lambda>p fs.
    sbind (resolve_blocks env v bs fs) (\<lambda>ps fs. (Ok (p # ps), fs)))"

text \<open>How many further blocks follow a hole, or follow the block \<open>previous\<close> on the device.\<close>

fun hole_run :: "nat option list \<Rightarrow> nat" where
  "hole_run (None # ps) = Suc (hole_run ps)"
| "hole_run ps = 0"

fun extent_run :: "nat \<Rightarrow> nat option list \<Rightarrow> nat" where
  "extent_run previous (Some n # ps) =
    (if previous + 1 < 2 ^ 32 \<and> previous + 1 = n then Suc (extent_run n ps) else 0)"
| "extent_run previous ps = 0"

text \<open>The loop over the runs: a hole is filled with zeros, an extent is one read of the device.\<close>

function read_runs ::
  "('d, 'e) ext2_env \<Rightarrow> 'd ext2_fs \<Rightarrow> nat \<Rightarrow> nat \<Rightarrow> nat option list \<Rightarrow> nat \<times> bytes \<Rightarrow> (ext2_error, nat \<times> bytes) outcome" where
  "read_runs env fs bs start [] (got, buf) = Ok (got, buf)"
| "read_runs env fs bs start (None # ps) (got, buf) =
    (let k = Suc (hole_run ps) in
     obind (copy_into (start * bs) (replicate (k * bs) 0) buf) (\<lambda>buf.
     read_runs env fs bs (start + k) (drop k (None # ps)) (got + k * bs, buf)))"
| "read_runs env fs bs start (Some first # ps) (got, buf) =
    (let k = Suc (extent_run first ps) in
     obind (resolve_block_offset fs first) (\<lambda>offset.
     obind (map_err (\<lambda>_. DeviceRead) (read_at (dev env) (disk fs) offset (k * bs))) (\<lambda>(n, data).
     obind (copy_into (start * bs) data buf) (\<lambda>buf.
     read_runs env fs bs (start + k) (drop k (Some first # ps)) (got + n, buf)))))"
  by pat_completeness auto

termination by (relation "measure (\<lambda>(env, fs, bs, start, ps, tb). length ps)") auto

definition read_blocks_from_inode ::
  "('d, 'e) ext2_env \<Rightarrow> 'd ext2_fs \<Rightarrow> inode \<Rightarrow> nat \<Rightarrow> nat \<Rightarrow> bytes \<Rightarrow> (ext2_error, nat \<times> bytes, 'd ext2_fs) run" where
  "read_blocks_from_inode env fs v start_block end_block buf =
    lift_pure (block_size (superblock fs)) fs (\<lambda>bs.
    if end_block < start_block \<or> length buf \<noteq> (end_block - start_block + 1) * bs then (Panic, fs)
    else sbind (resolve_blocks env v [start_block..<Suc end_block] fs) (\<lambda>pointers fs.
    (read_runs env fs bs 0 pointers (0, buf), fs)))"

text \<open>\<open>offset\<close> and the buffer's length are cut to 32 bits.\<close>

definition block_range :: "nat \<Rightarrow> nat \<Rightarrow> nat \<Rightarrow> ('e, nat \<times> nat \<times> nat \<times> nat) outcome" where
  "block_range bs offset len =
    (let offset = offset mod 2 ^ 32; len = len mod 2 ^ 32 in
     obind (u32_div offset bs) (\<lambda>start_block.
     obind (u32_add offset len) (\<lambda>fin.
     obind (u32_sub fin 1) (\<lambda>last.
     let end_block = last div bs in
     obind (u32_sub end_block start_block) (\<lambda>span.
     Ok (start_block, end_block, offset mod bs, span + 1))))))"

definition read_from_file ::
  "('d, 'e) ext2_env \<Rightarrow> 'd ext2_fs \<Rightarrow> inode \<Rightarrow> nat \<Rightarrow> bytes \<Rightarrow> (ext2_error, nat \<times> bytes, 'd ext2_fs) run" where
  "read_from_file env fs file offset buf =
    (let file_size = inode_len (tr env) file in
     if file_size \<le> offset then (Ok (0, buf), fs)
     else lift_pure (block_size (superblock fs)) fs (\<lambda>bs.
     lift_pure (block_range bs offset (length buf)) fs (\<lambda>(start_block, end_block, relative_offset, block_count).
     sbind (read_blocks_from_inode env fs file start_block end_block (replicate (block_count * bs) 0)) (\<lambda>(res, data) fs.
     let total_read = min (min res (file_size - offset mod 2 ^ 32)) (length buf) in
     lift_pure (index_range relative_offset (relative_offset + total_read) data) fs (\<lambda>part.
     (Ok (total_read, overwrite 0 part buf), fs))))))"

section \<open>The cache changes no result\<close>

text \<open>
  The cache is coherent when each entry is the pointer table of its block as the device has it;
  it holds at most four entries, with distinct addresses.
\<close>

definition table_at :: "('d, 'e) ext2_env \<Rightarrow> 'd ext2_fs \<Rightarrow> nat \<Rightarrow> pointer_table option" where
  "table_at env fs a = (case block_size (superblock fs) :: (ext2_error, nat) outcome of
     Ok bs \<Rightarrow> (case read_block env fs a bs of Ok (_, data) \<Rightarrow> Some (pointers_of data) | _ \<Rightarrow> None)
   | _ \<Rightarrow> None)"

definition cache_ok :: "('d, 'e) ext2_env \<Rightarrow> 'd ext2_fs \<Rightarrow> bool" where
  "cache_ok env fs \<longleftrightarrow> length (cache fs) \<le> INDIRECT_CACHE_CAPACITY \<and> distinct (map fst (cache fs)) \<and>
    (\<forall>(a, t) \<in> set (cache fs). table_at env fs a = Some t)"

text \<open>A file system up to its cache.\<close>

definition same_fs :: "'d ext2_fs \<Rightarrow> 'd ext2_fs \<Rightarrow> bool" where
  "same_fs fs fs' \<longleftrightarrow> (\<exists>c. fs' = fs\<lparr>cache := c\<rparr>)"

lemma same_fs_refl [simp]: "same_fs fs fs"
  by (auto simp: same_fs_def intro: exI [of _ "cache fs"])

lemma same_fs_trans: "same_fs a b \<Longrightarrow> same_fs b c \<Longrightarrow> same_fs a c"
  by (auto simp: same_fs_def)

lemma same_fsD:
  assumes "same_fs fs fs'"
  shows "superblock fs' = superblock fs" "disk fs' = disk fs" "bgdt fs' = bgdt fs"
    "read_block env fs' = read_block env fs" "table_at env fs' = table_at env fs"
    "indirect_pointer_limits fs' = indirect_pointer_limits fs"
  using assms
  by (auto simp: same_fs_def read_block_def resolve_block_offset_def table_at_def
      indirect_pointer_limits_def fun_eq_iff cong: outcome.case_cong)

lemma cache_lookup_set:
  assumes "cache_lookup a i c = (hit, c')"
  shows "mset c' = mset c"
proof (cases "position (\<lambda>e. fst e = a) c")
  case (Some p)
  then have "p < length c" by (auto dest: position_SomeD)
  then have "mset c = mset (take p c @ c ! p # drop (Suc p) c)" by (simp add: id_take_nth_drop [symmetric])
  then show ?thesis using assms Some by (auto simp: cache_lookup_def Let_def)
qed (use assms in \<open>simp add: cache_lookup_def\<close>)

lemma cache_lookup_cases:
  assumes "cache_lookup a i c = (hit, c')"
  obtains (miss) "hit = None" "a \<notin> fst ` set c" "c' = c"
  | (found) t where "(a, t) \<in> set c" "hit = nth_opt t i"
proof (cases "position (\<lambda>e. fst e = a) c")
  case None
  moreover from None have "a \<notin> fst ` set c" by (auto simp: position_None_iff)
  ultimately show thesis using assms by (intro miss) (simp_all add: cache_lookup_def)
next
  case (Some p)
  then have "p < length c" "fst (c ! p) = a" by (auto dest: position_SomeD)
  then show thesis using assms Some
    by (intro found [of "snd (c ! p)"]) (auto simp: cache_lookup_def Let_def in_set_conv_nth)
qed

text \<open>The resolution without a cache.\<close>

definition indirect_ref ::
  "('d, 'e) ext2_env \<Rightarrow> 'd ext2_fs \<Rightarrow> nat option \<Rightarrow> nat \<Rightarrow> (ext2_error, nat option) outcome" where
  "indirect_ref env fs ptr i = (case ptr of
     None \<Rightarrow> Ok None
   | Some a \<Rightarrow>
       obind (block_size (superblock fs)) (\<lambda>bs.
       obind (read_block env fs a bs) (\<lambda>(_, data).
       ok_or (nth_opt (pointers_of data) i) (InvalidBlockIndex i))))"

definition double_ref ::
  "('d, 'e) ext2_env \<Rightarrow> 'd ext2_fs \<Rightarrow> nat option \<Rightarrow> nat \<Rightarrow> (ext2_error, nat option) outcome" where
  "double_ref env fs ptr i =
    obind (block_size (superblock fs)) (\<lambda>bs.
    obind (u32_div i (bs div 4)) (\<lambda>k.
    obind (indirect_ref env fs ptr k) (\<lambda>p. indirect_ref env fs p (i mod (bs div 4)))))"

definition triple_ref ::
  "('d, 'e) ext2_env \<Rightarrow> 'd ext2_fs \<Rightarrow> nat option \<Rightarrow> nat \<Rightarrow> (ext2_error, nat option) outcome" where
  "triple_ref env fs ptr i =
    obind (block_size (superblock fs)) (\<lambda>bs.
    obind (u32_mul (bs div 4) (bs div 4)) (\<lambda>n.
    obind (u32_div i n) (\<lambda>k.
    obind (indirect_ref env fs ptr k) (\<lambda>p. double_ref env fs p (i mod n)))))"

definition block_index_ref ::
  "('d, 'e) ext2_env \<Rightarrow> 'd ext2_fs \<Rightarrow> inode \<Rightarrow> nat \<Rightarrow> (ext2_error, nat option) outcome" where
  "block_index_ref env fs v i =
    obind (indirect_pointer_limits fs) (\<lambda>(l0, l1, l2).
    if i < l0 then Ok (Option.bind (nth_opt (direct_ptrs v) i) id)
    else if i < l1 then indirect_ref env fs (single_indirect_ptr v) (i - l0)
    else if i < l2 then double_ref env fs (double_indirect_ptr v) (i - l1)
    else obind (block_size (superblock fs)) (\<lambda>bs.
      if l2 + bs div 4 * (bs div 4) * (bs div 4) \<le> i then Err (InvalidBlockIndex i)
      else triple_ref env fs (triple_indirect_ptr v) (i - l2)))"

text \<open>A step that answers like the reference and keeps the file system and its cache's coherence.\<close>

definition answers ::
  "('d, 'e) ext2_env \<Rightarrow> 'd ext2_fs \<Rightarrow> (ext2_error, 'a, 'd ext2_fs) run \<Rightarrow> (ext2_error, 'a) outcome \<Rightarrow> bool" where
  "answers env fs m r \<longleftrightarrow> fst m = r \<and> same_fs fs (snd m) \<and> cache_ok env (snd m)"

lemma answers_lift:
  assumes "cache_ok env fs" and "\<And>x. m = Ok x \<Longrightarrow> answers env fs (f x) (g x)"
  shows "answers env fs (lift_pure m fs f) (obind m g)"
  using assms by (cases m) (auto simp: answers_def)

lemma answers_bind:
  assumes "answers env fs m r" and "\<And>x fs'. same_fs fs fs' \<Longrightarrow> cache_ok env fs' \<Longrightarrow> answers env fs' (f x fs') (g x)"
  shows "answers env fs (sbind m f) (obind r g)"
  using assms by (cases m; cases "fst m") (fastforce simp: answers_def intro: same_fs_trans)+

lemma answers_Ok: "cache_ok env fs \<Longrightarrow> answers env fs (Ok x, fs) (Ok x)"
  "cache_ok env fs \<Longrightarrow> answers env fs (Err e, fs) (Err e)"
  by (simp_all add: answers_def)

lemma cache_ok_update:
  assumes "cache_ok env fs" and "length c \<le> INDIRECT_CACHE_CAPACITY" and "distinct (map fst c)"
    and "\<And>a t. (a, t) \<in> set c \<Longrightarrow> table_at env fs a = Some t"
  shows "cache_ok env (fs\<lparr>cache := c\<rparr>)"
proof -
  have "same_fs fs (fs\<lparr>cache := c\<rparr>)" by (auto simp: same_fs_def)
  then show ?thesis using assms same_fsD(5) [of fs "fs\<lparr>cache := c\<rparr>" env] by (auto simp: cache_ok_def)
qed

lemma cache_ok_lookup:
  assumes "cache_ok env fs" and "cache_lookup a i (cache fs) = (hit, c)"
  shows "cache_ok env (fs\<lparr>cache := c\<rparr>)"
proof -
  have mset: "mset c = mset (cache fs)" using cache_lookup_set [OF assms(2)] .
  have "distinct (map fst c)"
    using assms(1) mset by (metis cache_ok_def mset_eq_imp_distinct_iff mset_map)
  moreover have "length c = length (cache fs)" "set c = set (cache fs)"
    using mset by (auto dest: mset_eq_length mset_eq_setD)
  ultimately show ?thesis using assms(1) by (intro cache_ok_update) (auto simp: cache_ok_def)
qed

lemma cache_ok_insert:
  assumes "cache_ok env fs" and "a \<notin> fst ` set (cache fs)" and "table_at env fs a = Some t"
  shows "cache_ok env (fs\<lparr>cache := cache_insert a t (cache fs)\<rparr>)"
proof (rule cache_ok_update [OF assms(1)])
  have "distinct (map fst (butlast (cache fs)))"
    using assms(1) by (simp add: cache_ok_def map_butlast distinct_butlast)
  then show "distinct (map fst (cache_insert a t (cache fs)))"
    using assms(1,2) in_set_butlastD [of _ "cache fs"] by (auto simp: cache_insert_def cache_ok_def)
qed (use assms in \<open>auto simp: cache_ok_def cache_insert_def INDIRECT_CACHE_CAPACITY_def dest: in_set_butlastD split: if_splits\<close>)

lemma table_at_read:
  "block_size (superblock fs) = (Ok bs :: (ext2_error, nat) outcome) \<Longrightarrow>
    read_block env fs a bs = Ok (n, data) \<Longrightarrow> table_at env fs a = Some (pointers_of data)"
  by (simp add: table_at_def)

lemma table_at_SomeD:
  assumes "table_at env fs a = Some t"
  obtains bs n data where "block_size (superblock fs) = (Ok bs :: (ext2_error, nat) outcome)"
    "read_block env fs a bs = Ok (n, data)" "t = pointers_of data"
  using assms by (auto simp: table_at_def split: outcome.splits)

lemma same_fs_ref:
  assumes "same_fs fs fs'"
  shows "indirect_ref env fs' = indirect_ref env fs" "double_ref env fs' = double_ref env fs"
    "triple_ref env fs' = triple_ref env fs" "block_index_ref env fs' = block_index_ref env fs"
proof -
  note same = same_fsD(1) [OF assms] same_fsD(4) [OF assms] same_fsD(6) [OF assms]
  show 1: "indirect_ref env fs' = indirect_ref env fs"
    by (intro ext) (simp add: indirect_ref_def same split: option.split)
  show 2: "double_ref env fs' = double_ref env fs"
    by (intro ext) (simp add: double_ref_def same 1)
  show 3: "triple_ref env fs' = triple_ref env fs"
    by (intro ext) (simp add: triple_ref_def same 1 2)
  show "block_index_ref env fs' = block_index_ref env fs"
    by (intro ext) (simp add: block_index_ref_def same 1 2 3 cong del: if_weak_cong)
qed

lemma answers_trans: "same_fs fs fs1 \<Longrightarrow> answers env fs1 m r \<Longrightarrow> answers env fs m r"
  by (auto simp: answers_def intro: same_fs_trans)

lemma resolve_indirect_answers:
  assumes ok: "cache_ok env fs"
  shows "answers env fs (resolve_indirect_ptr env fs ptr i) (indirect_ref env fs ptr i)"
proof (cases ptr)
  case None
  then show ?thesis using ok by (simp add: resolve_indirect_ptr_def indirect_ref_def answers_Ok)
next
  case (Some a)
  obtain hit c where l: "cache_lookup a i (cache fs) = (hit, c)" by fastforce
  define fs1 where "fs1 = fs\<lparr>cache := c\<rparr>"
  have ok1: "cache_ok env fs1" using cache_ok_lookup [OF ok l] by (simp add: fs1_def)
  have same: "same_fs fs fs1" by (auto simp: same_fs_def fs1_def)
  show ?thesis
  proof (cases hit)
    case (Some r)
    obtain t where "(a, t) \<in> set (cache fs)" "nth_opt t i = Some r"
      using l Some by (cases rule: cache_lookup_cases) auto
    moreover then have "table_at env fs a = Some t" using ok by (auto simp: cache_ok_def)
    ultimately have "indirect_ref env fs ptr i = Ok r"
      using \<open>ptr = Some a\<close> by (elim table_at_SomeD) (simp add: indirect_ref_def ok_or_def)
    then show ?thesis using Some \<open>ptr = Some a\<close> l ok1 same
      by (simp add: resolve_indirect_ptr_def answers_def fs1_def)
  next
    case miss: None
    have eq: "resolve_indirect_ptr env fs ptr i =
        lift_pure (block_size (superblock fs1)) fs1 (\<lambda>bs.
        lift_pure (read_block env fs1 a bs) fs1 (\<lambda>(_, data).
        lift_pure (ok_or (nth_opt (pointers_of data) i) (InvalidBlockIndex i)) fs1 (\<lambda>resolved.
        (Ok resolved, fs1\<lparr>cache := cache_insert a (pointers_of data) (cache fs1)\<rparr>))))"
      using miss \<open>ptr = Some a\<close> l by (simp add: resolve_indirect_ptr_def fs1_def Let_def)
    have "answers env fs1 (resolve_indirect_ptr env fs ptr i) (indirect_ref env fs1 ptr i)"
      unfolding eq unfolding indirect_ref_def \<open>ptr = Some a\<close> option.case
    proof (intro answers_lift ok1, clarify)
      fix bs n data
      assume bs: "block_size (superblock fs1) = (Ok bs :: (ext2_error, nat) outcome)"
        and rd: "read_block env fs1 a bs = Ok (n, data)"
      have table: "table_at env fs1 a = Some (pointers_of data)" using table_at_read [OF bs rd] .
      show "answers env fs1 (lift_pure (ok_or (nth_opt (pointers_of data) i) (InvalidBlockIndex i)) fs1
          (\<lambda>resolved. (Ok resolved, fs1\<lparr>cache := cache_insert a (pointers_of data) (cache fs1)\<rparr>)))
        (ok_or (nth_opt (pointers_of data) i) (InvalidBlockIndex i))"
      proof (cases "nth_opt (pointers_of data) i")
        case None
        then show ?thesis using ok1 by (simp add: ok_or_def answers_Ok)
      next
        case (Some r)
        have "table_at env fs a = Some (pointers_of data)" using table same_fsD(5) [OF same] by metis
        with l have "a \<notin> fst ` set (cache fs1)"
          by (cases rule: cache_lookup_cases) (use ok miss Some in \<open>auto simp: cache_ok_def fs1_def\<close>)
        then have "cache_ok env (fs1\<lparr>cache := cache_insert a (pointers_of data) (cache fs1)\<rparr>)"
          using cache_ok_insert [OF ok1 _ table] by simp
        then show ?thesis using Some by (auto simp: ok_or_def answers_def same_fs_def)
      qed
    qed
    then show ?thesis using same_fs_ref(1) [OF same] same by (metis answers_trans)
  qed
qed

lemma resolve_double_answers:
  assumes ok: "cache_ok env fs"
  shows "answers env fs (resolve_double_indirect_ptr env fs ptr i) (double_ref env fs ptr i)"
  unfolding resolve_double_indirect_ptr_def double_ref_def
proof (intro answers_lift answers_bind ok resolve_indirect_answers)
  fix bs p fs'
  assume "same_fs fs fs'" "cache_ok env fs'"
  then show "answers env fs' (resolve_indirect_ptr env fs' p (i mod (bs div 4))) (indirect_ref env fs p (i mod (bs div 4)))"
    using resolve_indirect_answers [of env fs'] by (simp add: same_fs_ref)
qed

lemma resolve_triple_answers:
  assumes ok: "cache_ok env fs"
  shows "answers env fs (resolve_triple_indirect_ptr env fs ptr i) (triple_ref env fs ptr i)"
  unfolding resolve_triple_indirect_ptr_def triple_ref_def
proof (intro answers_lift answers_bind ok resolve_indirect_answers)
  fix n p fs'
  assume "same_fs fs fs'" "cache_ok env fs'"
  then show "answers env fs' (resolve_double_indirect_ptr env fs' p (i mod n)) (double_ref env fs p (i mod n))"
    using resolve_double_answers [of env fs'] by (simp add: same_fs_ref)
qed

lemma resolve_block_answers:
  assumes ok: "cache_ok env fs"
  shows "answers env fs (resolve_block_index env fs v i) (block_index_ref env fs v i)"
  unfolding resolve_block_index_def block_index_ref_def
  by (intro answers_lift ok)
    (auto intro!: answers_lift ok answers_Ok resolve_indirect_answers resolve_double_answers resolve_triple_answers)

section \<open>Writing a block\<close>

lemma write_block_ok:
  assumes dev: "sector_device (dev env) valid contents" "valid (disk fs)"
    and bs: "block_size (superblock fs) = (Ok bs :: (ext2_error, nat) outcome)"
    and a: "block_inside bs (contents (disk fs)) a" and buf: "length buf \<le> bs"
  obtains d' where "write_block env fs a buf =
      (Ok (length buf), fs\<lparr>cache := cache_invalidate a (cache fs), disk := d'\<rparr>)"
    and "valid d'" and "contents d' = overwrite (a * bs) buf (contents (disk fs))"
proof -
  have fits: "a * bs + length buf \<le> length (contents (disk fs))"
    using a buf by (simp add: block_inside_def)
  obtain d' where d': "write_at (dev env) (disk fs) (a * bs) buf = (Ok (length buf), d')"
      "sector_device.wrote (dev env) valid contents (disk fs) (a * bs) buf d'"
    using sector_device.write_at_wrote [OF dev fits] by blast
  show thesis
  proof (rule that [of d'])
    show "write_block env fs a buf = (Ok (length buf), fs\<lparr>cache := cache_invalidate a (cache fs), disk := d'\<rparr>)"
      using d'(1) a bs
      by (simp add: write_block_def Let_def resolve_block_offset_def u32_mul_def block_inside_def device_write_def)
  qed (use d'(2) in \<open>simp_all add: sector_device.wrote_def [OF dev(1)]\<close>)
qed

text \<open>Blocks do not overlap.\<close>

lemma blocks_disjoint: "a \<noteq> b \<Longrightarrow> Suc a * bs \<le> b * bs \<or> Suc b * bs \<le> a * (bs :: nat)"
  by (metis Suc_leI linorder_neqE_nat mult_le_mono1)

lemma slice_other_block:
  assumes "a \<noteq> b" and "Suc a * bs \<le> length xs" and "Suc b * bs \<le> length xs" and "length buf \<le> bs"
  shows "slice (b * bs) (b * bs + bs) (overwrite (a * bs) buf xs) = slice (b * bs) (b * bs + bs) xs"
  using blocks_disjoint [OF assms(1), of bs] assms(2-4) by (intro slice_overwrite_disjoint) auto

section \<open>Coalesced reading\<close>

text \<open>The bytes of one block of a file; a hole is zero.\<close>

definition block_bytes :: "nat \<Rightarrow> bytes \<Rightarrow> nat option \<Rightarrow> bytes" where
  "block_bytes bs contents p = (case p of None \<Rightarrow> replicate bs 0 | Some a \<Rightarrow> slice (a * bs) (Suc a * bs) contents)"

lemma length_block_bytes: "(\<And>a. p = Some a \<Longrightarrow> block_inside bs contents a) \<Longrightarrow> length (block_bytes bs contents p) = bs"
  by (cases p) (auto simp: block_bytes_def block_inside_def)

lemma hole_run_take: "take (hole_run ps) ps = replicate (hole_run ps) None" "hole_run ps \<le> length ps"
  by (induction ps rule: hole_run.induct) auto

lemma extent_run_take:
  "take (extent_run a ps) ps = map Some [Suc a..<Suc a + extent_run a ps]" "extent_run a ps \<le> length ps"
proof (induction a ps rule: extent_run.induct)
  case (1 a n ps)
  {
    case 1
    then show ?case using "1.IH" by (auto simp: upt_rec [of "Suc a"])
  next
    case 2
    then show ?case using "1.IH" by auto
  }
qed auto

lemma extent_blocks:
  "concat (map (block_bytes bs contents) (map Some [a..<a + k])) = slice (a * bs) ((a + k) * bs) contents"
proof (induction k)
  case 0
  then show ?case by (simp add: slice_def)
next
  case (Suc k)
  then show ?case
    by (simp add: block_bytes_def slice_append)
qed

lemma length_blocks:
  "(\<And>a. Some a \<in> set ps \<Longrightarrow> block_inside bs contents a) \<Longrightarrow>
    length (concat (map (block_bytes bs contents) ps)) = length ps * bs"
  by (induction ps) (simp_all add: length_block_bytes)

text \<open>Reading one run is reading its blocks one after the other.\<close>

lemma run_then_rest:
  assumes "length buf = n" and "(start + length ps) * bs \<le> n" and "k \<le> length ps"
    and "xs = concat (map (block_bytes bs contents) (take k ps))" and "length xs = k * bs"
    and "length (concat (map (block_bytes bs contents) (drop k ps))) = (length ps - k) * bs"
  shows "overwrite ((start + k) * bs) (concat (map (block_bytes bs contents) (drop k ps))) (overwrite (start * bs) xs buf) =
    overwrite (start * bs) (concat (map (block_bytes bs contents) ps)) buf"
proof -
  have "concat (map (block_bytes bs contents) ps) = xs @ concat (map (block_bytes bs contents) (drop k ps))"
    unfolding assms(4) by (metis append_take_drop_id concat_append map_append)
  moreover have "start * bs + length xs = (start + k) * bs" using assms(5) by (simp add: algebra_simps)
  moreover have "k * bs + (length ps - k) * bs = length ps * bs"
    using assms(3) by (simp flip: add_mult_distrib)
  ultimately show ?thesis
    using assms(1,2,5,6) by (simp add: overwrite_overwrite_append [symmetric] algebra_simps)
qed

lemma concat_zeros: "concat (replicate k (replicate n x)) = replicate (k * n) x"
  by (induction k) (simp_all add: replicate_add)

lemma read_extent:
  assumes dev: "sector_device (dev env) valid contents" "valid (disk fs)"
    and bs: "block_size (superblock fs) = (Ok bs :: (ext2_error, nat) outcome)"
    and inside: "\<And>b. Some b \<in> set (Some a # ps) \<Longrightarrow> block_inside bs (contents (disk fs)) b"
    and k: "k = Suc (extent_run a ps)"
  shows "resolve_block_offset fs a = (Ok (a * bs) :: (ext2_error, nat) outcome)"
    and "read_at (dev env) (disk fs) (a * bs) (k * bs) =
      Ok (k * bs, concat (map (block_bytes bs (contents (disk fs))) (take k (Some a # ps))))"
proof -
  show "resolve_block_offset fs a = (Ok (a * bs) :: (ext2_error, nat) outcome)"
    using inside [of a] by (simp add: resolve_block_offset_def bs u32_mul_def block_inside_def)
  have run: "take k (Some a # ps) = map Some [a..<a + k]"
    using extent_run_take [of a ps] by (simp add: k upt_rec [of a])
  have "Some (a + extent_run a ps) \<in> set (take k (Some a # ps))" unfolding run by (simp add: k)
  then have "block_inside bs (contents (disk fs)) (a + extent_run a ps)"
    by (intro inside) (rule in_set_takeD)
  then have "a * bs + k * bs \<le> length (contents (disk fs))"
    by (simp add: block_inside_def k algebra_simps)
  then show "read_at (dev env) (disk fs) (a * bs) (k * bs) =
      Ok (k * bs, concat (map (block_bytes bs (contents (disk fs))) (take k (Some a # ps))))"
    using sector_device.read_at_slice [OF dev, of "a * bs" "k * bs"]
    by (simp only: run extent_blocks) (simp add: algebra_simps)
qed

lemma read_runs_blocks:
  assumes dev: "sector_device (dev env) valid contents" "valid (disk fs)"
    and bs: "block_size (superblock fs) = (Ok bs :: (ext2_error, nat) outcome)"
  shows "(\<And>a. Some a \<in> set ps \<Longrightarrow> block_inside bs (contents (disk fs)) a) \<Longrightarrow>
    (start + length ps) * bs \<le> length buf \<Longrightarrow>
    read_runs env fs bs start ps (got, buf) =
      Ok (got + length ps * bs, overwrite (start * bs) (concat (map (block_bytes bs (contents (disk fs))) ps)) buf)"
proof (induction "length ps" arbitrary: ps start got buf rule: less_induct)
  case less
  let ?blocks = "\<lambda>ps. concat (map (block_bytes bs (contents (disk fs))) ps)"
  show ?case
  proof (cases ps)
    case Nil
    then show ?thesis by simp
  next
    case (Cons p qs)
    define k where "k = (case p of None \<Rightarrow> Suc (hole_run qs) | Some a \<Rightarrow> Suc (extent_run a qs))"
    have k: "0 < k" "k \<le> length ps" using hole_run_take(2) extent_run_take(2) Cons
      by (auto simp: k_def split: option.split)
    let ?xs = "?blocks (take k ps)"
    have "length ?xs = length (take k ps) * bs" "length (?blocks (drop k ps)) = length (drop k ps) * bs"
      by (rule length_blocks, rule less.prems(1), erule in_set_takeD in_set_dropD)+
    then have lens: "length ?xs = k * bs" "length (?blocks (drop k ps)) = (length ps - k) * bs"
      using k by (simp_all add: min_absorb2)
    have fits: "start * bs + k * bs \<le> length buf"
      using less.prems(2) mult_le_mono1 [OF k(2), of bs] unfolding add_mult_distrib by linarith
    have "read_runs env fs bs start ps (got, buf) =
        read_runs env fs bs (start + k) (drop k ps) (got + k * bs, overwrite (start * bs) ?xs buf)"
    proof (cases p)
      case None
      have "?xs = replicate (k * bs) 0"
        using hole_run_take(1) [of qs] by (simp add: Cons None k_def block_bytes_def concat_zeros replicate_add)
      then show ?thesis using fits by (simp add: Cons None k_def copy_into_def Let_def del: mult_Suc)
    next
      case (Some a)
      have ak: "k = Suc (extent_run a qs)" by (simp add: k_def Some)
      note rd = read_extent [OF dev bs, of a qs k]
      show ?thesis using rd less.prems(1) lens(1) fits
        by (simp add: Cons Some ak copy_into_def Let_def del: mult_Suc)
    qed
    also have "\<dots> = Ok (got + k * bs + length (drop k ps) * bs,
        overwrite ((start + k) * bs) (?blocks (drop k ps)) (overwrite (start * bs) ?xs buf))"
    proof (rule less.hyps)
      show "block_inside bs (contents (disk fs)) a" if "Some a \<in> set (drop k ps)" for a
        using that by (intro less.prems(1)) (rule in_set_dropD)
    qed (use k fits lens less.prems(2) in simp_all)
    also have "\<dots> = Ok (got + length ps * bs, overwrite (start * bs) (?blocks ps) buf)"
      using run_then_rest [OF refl less.prems(2) k(2) refl lens] k(2)
      by (simp flip: add_mult_distrib add.assoc)
    finally show ?thesis .
  qed
qed

section \<open>Reading a file\<close>

lemma resolve_blocks_ok:
  assumes "cache_ok env fs" and "\<And>i. i \<in> set idxs \<Longrightarrow> block_index_ref env fs v i = Ok (p i)"
  shows "\<exists>fs'. resolve_blocks env v idxs fs = (Ok (map p idxs), fs') \<and> same_fs fs fs' \<and> cache_ok env fs'"
  using assms
proof (induction idxs arbitrary: fs)
  case (Cons i idxs)
  obtain fs1 where fs1: "resolve_block_index env fs v i = (Ok (p i), fs1)" "same_fs fs fs1" "cache_ok env fs1"
    using resolve_block_answers [OF Cons.prems(1), of v i] Cons.prems(2) [of i]
    by (cases "resolve_block_index env fs v i") (auto simp: answers_def)
  obtain fs2 where "resolve_blocks env v idxs fs1 = (Ok (map p idxs), fs2)" "same_fs fs1 fs2" "cache_ok env fs2"
    using Cons.IH [OF fs1(3)] Cons.prems(2) by (auto simp: same_fs_ref [OF fs1(2)])
  then show ?case using fs1 by (auto intro: same_fs_trans)
qed auto

lemma nth_concat_blocks:
  assumes "\<And>i. i < n \<Longrightarrow> length (f (a + i)) = bs" and "j < n * bs"
  shows "concat (map f [a..<a + n]) ! j = f (a + j div bs) ! (j mod bs)"
  using assms
proof (induction n)
  case (Suc n)
  have len: "length (concat (map f [a..<a + n])) = n * bs"
  proof -
    have "length (concat (map f [a..<a + m])) = m * bs" if "m \<le> n" for m
      using that by (induction m) (simp_all add: Suc.prems(1))
    then show ?thesis by simp
  qed
  show ?case
  proof (cases "j < n * bs")
    case True
    then show ?thesis using Suc len by (simp add: nth_append)
  next
    case False
    then have "j = n * bs + (j - n * bs)" "j - n * bs < bs" using Suc.prems(2) by simp_all
    then have "j div bs = n" "j mod bs = j - n * bs" by (metis div_mult_self3 div_less add.right_neutral less_zeroE gr0I mult_is_0 add.commute, metis mod_mult_self3 mod_less)
    then show ?thesis using False len by (simp add: nth_append)
  qed
qed simp

lemma read_blocks_ok:
  assumes dev: "sector_device (dev env) valid contents" "valid (disk fs)"
    and bs: "block_size (superblock fs) = (Ok bs :: (ext2_error, nat) outcome)"
    and ok: "cache_ok env fs"
    and p: "\<And>i. a \<le> i \<Longrightarrow> i \<le> b \<Longrightarrow> block_index_ref env fs v i = Ok (p i)"
    and inside: "\<And>i c. a \<le> i \<Longrightarrow> i \<le> b \<Longrightarrow> p i = Some c \<Longrightarrow> block_inside bs (contents (disk fs)) c"
    and "a \<le> b" and buf: "length buf = (b - a + 1) * bs"
  shows "\<exists>fs'. read_blocks_from_inode env fs v a b buf =
      (Ok (length buf, concat (map (block_bytes bs (contents (disk fs)) \<circ> p) [a..<a + (b - a + 1)])), fs') \<and>
    same_fs fs fs' \<and> cache_ok env fs'"
proof -
  have upt: "[a..<Suc b] = [a..<a + (b - a + 1)]" using \<open>a \<le> b\<close> by simp
  have "\<exists>fs'. resolve_blocks env v [a..<Suc b] fs = (Ok (map p [a..<Suc b]), fs') \<and> same_fs fs fs' \<and> cache_ok env fs'"
    by (rule resolve_blocks_ok [OF ok]) (use p in \<open>auto split: if_splits\<close>)
  then obtain fs' where fs': "resolve_blocks env v [a..<Suc b] fs = (Ok (map p [a..<Suc b]), fs')" "same_fs fs fs'" "cache_ok env fs'"
    by blast
  note same = same_fsD(1,2) [OF fs'(2)]
  have ps: "block_inside bs (contents (disk fs)) c" if "Some c \<in> set (map p [a..<Suc b])" for c
    using that inside by (auto simp del: upt_Suc)
  have len: "length (map p [a..<Suc b]) = b - a + 1" using \<open>a \<le> b\<close> by simp
  have "read_runs env fs' bs 0 (map p [a..<Suc b]) (0, buf) =
      Ok (0 + length (map p [a..<Suc b]) * bs,
          overwrite (0 * bs) (concat (map (block_bytes bs (contents (disk fs'))) (map p [a..<Suc b]))) buf)"
    by (rule read_runs_blocks [OF dev(1)]) (use dev(2) bs ps buf len in \<open>simp_all add: same del: upt_Suc\<close>)
  moreover have "length (concat (map (block_bytes bs (contents (disk fs))) (map p [a..<Suc b]))) = length buf"
    using length_blocks [of "map p [a..<Suc b]", OF ps] len buf by (simp del: upt_Suc)
  ultimately show ?thesis using fs' buf len \<open>a \<le> b\<close> unfolding upt [symmetric]
    by (simp add: read_blocks_from_inode_def bs same overwrite_def del: upt_Suc)
qed

lemma block_range_ok:
  assumes "0 < bs" and "0 < len" and "offset + len < 2 ^ 32"
  shows "block_range bs offset len =
    Ok (offset div bs, (offset + len - 1) div bs, offset mod bs, (offset + len - 1) div bs - offset div bs + 1)"
    and "offset mod bs + len \<le> ((offset + len - 1) div bs - offset div bs + 1) * bs"
    and "offset div bs \<le> (offset + len - 1) div bs"
proof -
  show le: "offset div bs \<le> (offset + len - 1) div bs" using assms(2) by (intro div_le_mono) linarith
  then show "block_range bs offset len =
    Ok (offset div bs, (offset + len - 1) div bs, offset mod bs, (offset + len - 1) div bs - offset div bs + 1)"
    using assms by (simp add: block_range_def Let_def u32_defs)
  have "offset + len - 1 < bs + (offset + len - 1) div bs * bs"
    using dividend_less_div_times [OF assms(1)] by simp
  moreover have "((offset + len - 1) div bs - offset div bs + 1) * bs = (offset + len - 1) div bs * bs - offset div bs * bs + bs"
    by (simp add: add_mult_distrib diff_mult_distrib)
  moreover have "offset div bs * bs \<le> (offset + len - 1) div bs * bs" using le by (rule mult_le_mono1)
  moreover have "offset div bs * bs + offset mod bs = offset" by simp
  ultimately show "offset mod bs + len \<le> ((offset + len - 1) div bs - offset div bs + 1) * bs"
    using assms(2) by linarith
qed

text \<open>What a read must return: byte \<open>k\<close> of the file.\<close>

definition file_byte :: "nat \<Rightarrow> bytes \<Rightarrow> (nat \<Rightarrow> nat option) \<Rightarrow> nat \<Rightarrow> u8" where
  "file_byte bs contents p k = block_bytes bs contents (p (k div bs)) ! (k mod bs)"

lemma length_data:
  assumes "\<And>i c. a \<le> i \<Longrightarrow> i < a + n \<Longrightarrow> p i = Some c \<Longrightarrow> block_inside bs contents c"
  shows "length (concat (map (block_bytes bs contents \<circ> p) [a..<a + n])) = n * bs"
proof -
  have "length (concat (map (block_bytes bs contents) (map p [a..<a + n]))) = length (map p [a..<a + n]) * bs"
    by (rule length_blocks) (use assms in auto)
  then show ?thesis by simp
qed

lemma blocks_file_byte:
  assumes "0 < bs" and "\<And>i c. a \<le> i \<Longrightarrow> i < a + n \<Longrightarrow> p i = Some c \<Longrightarrow> block_inside bs contents c"
    and "j < n * bs"
  shows "concat (map (block_bytes bs contents \<circ> p) [a..<a + n]) ! j = file_byte bs contents p (a * bs + j)"
proof -
  have "length ((block_bytes bs contents \<circ> p) (a + i)) = bs" if "i < n" for i
    using that assms(2) [of "a + i"] by (simp add: length_block_bytes)
  then have "concat (map (block_bytes bs contents \<circ> p) [a..<a + n]) ! j = (block_bytes bs contents \<circ> p) (a + j div bs) ! (j mod bs)"
    using assms(3) by (intro nth_concat_blocks)
  then show ?thesis using assms(1) by (simp add: file_byte_def)
qed

lemma file_slice:
  assumes "0 < bs" and inside: "\<And>i c. a \<le> i \<Longrightarrow> i < a + m \<Longrightarrow> p i = Some c \<Longrightarrow> block_inside bs contents c"
    and le: "rel + n \<le> m * bs"
  shows "slice rel (rel + n) (concat (map (block_bytes bs contents \<circ> p) [a..<a + m])) =
    map (file_byte bs contents p) [a * bs + rel..<a * bs + rel + n]"
proof (rule nth_equalityI)
  let ?data = "concat (map (block_bytes bs contents \<circ> p) [a..<a + m])"
  have len: "length ?data = m * bs" by (rule length_data, erule (2) inside)
  then show "length (slice rel (rel + n) ?data) = length (map (file_byte bs contents p) [a * bs + rel..<a * bs + rel + n])"
    using le by simp
  fix j
  assume "j < length (slice rel (rel + n) ?data)"
  then have j: "j < n" using le len by simp
  then have "slice rel (rel + n) ?data ! j = ?data ! (rel + j)"
    using le len by (intro nth_slice) simp_all
  also have "\<dots> = file_byte bs contents p (a * bs + (rel + j))"
    by (rule blocks_file_byte [OF assms(1)], erule (2) inside) (use le j in simp)
  finally show "slice rel (rel + n) ?data ! j = map (file_byte bs contents p) [a * bs + rel..<a * bs + rel + n] ! j"
    using j by (simp add: add.assoc)
qed

section \<open>Properties\<close>

text \<open>A file of 1000 bytes whose first block is the last one of the device.\<close>

definition demo_file :: inode where
  "demo_file = (inode_new 0x8000)\<lparr>i_byte_size_lower := 1000, i_direct_block_ptr := 2 # replicate 11 0\<rparr>"

lemma demo_cache_ok: "cache_ok demo_env demo_fs"
  by (simp add: cache_ok_def demo_fs_def INDIRECT_CACHE_CAPACITY_def)

lemma demo_resolve: "block_index_ref demo_env demo_fs demo_file 0 = Ok (Some 2)"
  by (simp add: block_index_ref_def indirect_pointer_limits_def demo_block_size u32_defs direct_ptrs_def
      demo_file_def nth_opt_def address_new_def)

lemma demo_len: "inode_len (tr demo_env) demo_file = 1000"
  by (simp add: inode_len_def inode_typ_def demo_env_def demo_file_def inode_new_def)

text \<open>C22: The cache of indirect blocks is transparent: with a coherent cache the resolution of a
  block index answers, errors and panics included, what the resolution that reads every indirect
  block from the device answers; the file system is unchanged up to its cache, which stays
  coherent, within its capacity and free of duplicates.\<close>

theorem indirect_cache_transparent:
  assumes "cache_ok env fs"
  shows "fst (resolve_block_index env fs v i) = block_index_ref env fs v i \<and>
    same_fs fs (snd (resolve_block_index env fs v i)) \<and>
    cache_ok env (snd (resolve_block_index env fs v i))"
  using resolve_block_answers [OF assms] by (simp add: answers_def)

text \<open>C23: Writing a block keeps the cache of indirect blocks coherent: the entry of the written
  block is dropped, every other cached table still is what the device holds. The block then reads
  back as written and every other block as before.\<close>

theorem write_block_coherent:
  assumes dev: "sector_device (dev env) valid contents" "valid (disk fs)"
    and bs: "block_size (superblock fs) = (Ok bs :: (ext2_error, nat) outcome)"
    and ok: "cache_ok env fs"
    and cached: "\<And>b t. (b, t) \<in> set (cache fs) \<Longrightarrow> block_inside bs (contents (disk fs)) b"
    and a: "block_inside bs (contents (disk fs)) a" and buf: "length buf \<le> bs"
    and b: "b \<noteq> a" "block_inside bs (contents (disk fs)) b"
  shows "\<exists>fs'. write_block env fs a buf = (Ok (length buf), fs') \<and> cache_ok env fs' \<and>
    a \<notin> fst ` set (cache fs') \<and>
    read_block env fs' a (length buf) = Ok (length buf, buf) \<and>
    read_block env fs' b bs = read_block env fs b bs"
proof -
  obtain d' where d': "write_block env fs a buf =
      (Ok (length buf), fs\<lparr>cache := cache_invalidate a (cache fs), disk := d'\<rparr>)" (is "_ = (_, ?fs)")
    "valid d'" "contents d' = overwrite (a * bs) buf (contents (disk fs))"
    using write_block_ok [OF dev bs a buf] .
  have inside: "block_inside bs (contents d') c \<longleftrightarrow> block_inside bs (contents (disk fs)) c" for c
    using a buf by (simp add: d'(3) block_inside_def)
  have rd: "read_block env ?fs c n = Ok (n, slice (c * bs) (c * bs + n) (contents d'))"
    if "block_inside bs (contents (disk fs)) c" "n \<le> bs" for c n
    using read_block_slice [of env valid contents ?fs bs c n] dev(1) d'(2) bs that by (simp add: inside)
  have other: "read_block env ?fs c bs = read_block env fs c bs"
    if "c \<noteq> a" "block_inside bs (contents (disk fs)) c" for c
    using rd [OF that(2), of bs] read_block_slice [OF dev bs that(2), of bs]
      slice_other_block [of a c bs "contents (disk fs)" buf] that a buf
    by (simp add: d'(3) block_inside_def)
  have "table_at env ?fs c = table_at env fs c" if "c \<noteq> a" "block_inside bs (contents (disk fs)) c" for c
    using other [OF that] bs by (simp add: table_at_def)
  then have "cache_ok env ?fs"
    using ok cached by (auto simp: cache_ok_def cache_invalidate_def distinct_map_filter
        intro: order_trans [OF length_filter_le])
  moreover have "read_block env ?fs a (length buf) = Ok (length buf, buf)"
    using rd [OF a buf] a buf by (simp add: d'(3) slice_overwrite_same block_inside_def)
  ultimately show ?thesis using d'(1) other [OF b] by (auto simp: cache_invalidate_def)
qed

text \<open>The file system with the tables of two of its blocks in the cache.\<close>

definition demo_cached :: "memory_block_device ext2_fs" where
  "demo_cached = demo_fs\<lparr>cache := map (\<lambda>a. (a, pointers_of (slice (a * 1024) (a * 1024 + 1024) (mem_data (disk demo_fs))))) [1, 2]\<rparr>"

lemma demo_cached_ok:
  "mem_valid (disk demo_cached)" "block_size (superblock demo_cached) = (Ok 1024 :: (ext2_error, nat) outcome)"
  "cache_ok demo_env demo_cached"
proof -
  show valid: "mem_valid (disk demo_cached)" and bs: "block_size (superblock demo_cached) = (Ok 1024 :: (ext2_error, nat) outcome)"
    using demo_valid demo_block_size by (simp_all add: demo_cached_def)
  have "table_at demo_env demo_cached a = Some (pointers_of (slice (a * 1024) (a * 1024 + 1024) (mem_data (disk demo_fs))))"
    if "a \<in> {1, 2}" for a
  proof -
    have "block_inside 1024 (mem_data (disk demo_cached)) a"
      using that by (auto simp: demo_cached_def demo_fs_def block_inside_def)
    moreover have "disk demo_cached = disk demo_fs" by (simp add: demo_cached_def)
    ultimately show ?thesis
      using read_block_slice [OF demo_device valid bs, of a 1024] by (simp add: table_at_def bs)
  qed
  then show "cache_ok demo_env demo_cached"
    by (simp add: cache_ok_def demo_cached_def INDIRECT_CACHE_CAPACITY_def)
qed

theorem write_block_coherent_witness:
  "fst ` set (cache demo_cached) = {1, 2} \<and>
   (\<exists>fs'. write_block demo_env demo_cached 1 [9, 9] = (Ok 2, fs') \<and> cache_ok demo_env fs' \<and>
     1 \<notin> fst ` set (cache fs') \<and> read_block demo_env fs' 1 2 = Ok (2, [9, 9]))"
proof -
  have "\<exists>fs'. write_block demo_env demo_cached 1 [9, 9] = (Ok (length [9, 9 :: u8]), fs') \<and> cache_ok demo_env fs' \<and>
      1 \<notin> fst ` set (cache fs') \<and> read_block demo_env fs' 1 (length [9, 9 :: u8]) = Ok (length [9, 9 :: u8], [9, 9]) \<and>
      read_block demo_env fs' 2 1024 = read_block demo_env demo_cached 2 1024"
    by (rule write_block_coherent [OF demo_device demo_cached_ok])
      (auto simp: demo_cached_def demo_fs_def block_inside_def)
  moreover have "fst ` set (cache demo_cached) = {1, 2}" by (simp add: demo_cached_def)
  ultimately show ?thesis by (simp add: numeral_2_eq_2) blast
qed

lemma read_from_file_run:
  assumes dev: "sector_device (dev env) valid contents" "valid (disk fs)"
    and bs: "block_size (superblock fs) = (Ok bs :: (ext2_error, nat) outcome)" "0 < bs"
    and ok: "cache_ok env fs"
    and p: "\<And>i. i \<le> (offset + length buf - 1) div bs \<Longrightarrow> block_index_ref env fs file i = Ok (p i)"
    and inside: "\<And>i c. i \<le> (offset + length buf - 1) div bs \<Longrightarrow> p i = Some c \<Longrightarrow> block_inside bs (contents (disk fs)) c"
    and len: "0 < length buf" "offset + length buf < 2 ^ 32" "offset < inode_len (tr env) file"
    and n: "n = min (inode_len (tr env) file - offset) (length buf)"
  shows "\<exists>fs' out. read_from_file env fs file offset buf = (Ok (n, out), fs') \<and>
    same_fs fs fs' \<and> cache_ok env fs' \<and>
    out = map (file_byte bs (contents (disk fs)) p) [offset..<offset + n] @ drop n buf"
proof -
  define a where "a = offset div bs"
  define b where "b = (offset + length buf - 1) div bs"
  define m where "m = b - a + 1"
  note range = block_range_ok [OF bs(2) len(1,2), folded a_def b_def, folded m_def]
  let ?data = "concat (map (block_bytes bs (contents (disk fs)) \<circ> p) [a..<a + m])"
  obtain fs' where fs': "read_blocks_from_inode env fs file a b (replicate (m * bs) 0) = (Ok (m * bs, ?data), fs')"
    "same_fs fs fs'" "cache_ok env fs'"
    using read_blocks_ok [OF dev bs(1) ok, of a b "file" p "replicate (m * bs) 0"] p inside range(3)
    by (auto simp: b_def m_def)
  have ins: "block_inside bs (contents (disk fs)) c" if "a \<le> i" "i < a + m" "p i = Some c" for i c
    using inside [folded b_def, of i c] that range(3) m_def by linarith
  have data: "length ?data = m * bs" by (rule length_data, erule (2) ins)
  have le: "offset mod bs + n \<le> m * bs" using range(2) n by simp
  have off: "a * bs + offset mod bs = offset" by (simp add: a_def)
  have part: "slice (offset mod bs) (offset mod bs + n) ?data = map (file_byte bs (contents (disk fs)) p) [offset..<offset + n]"
    using file_slice [OF bs(2) ins le] off by simp
  have "length buf \<le> m * bs" using range(2) by simp
  then have "min (min (m * bs) (inode_len (tr env) file - offset mod 2 ^ 32)) (length buf) = n"
    using len(2) n by simp
  then have "read_from_file env fs file offset buf =
      (Ok (n, overwrite 0 (slice (offset mod bs) (offset mod bs + n) ?data) buf), fs')"
    using len(3) fs'(1) le data(1)
    by (simp add: read_from_file_def bs(1) range(1) Let_def index_range_def)
  moreover have "overwrite 0 (map (file_byte bs (contents (disk fs)) p) [offset..<offset + n]) buf =
      map (file_byte bs (contents (disk fs)) p) [offset..<offset + n] @ drop n buf"
    by (simp add: overwrite_def)
  ultimately show ?thesis using fs'(2,3) part by auto
qed

text \<open>C21: Reading a file returns its bytes: for a range below \<open>2 ^ 32\<close> that starts inside the file,
  on every device that keeps the sector contract, the buffer holds the bytes of the file's blocks
  (zero in a hole) up to the end of the file, and the rest of the buffer is unchanged.\<close>

theorem read_from_file_bytes:
  assumes dev: "sector_device (dev env) valid contents" "valid (disk fs)"
    and bs: "block_size (superblock fs) = (Ok bs :: (ext2_error, nat) outcome)" "0 < bs"
    and ok: "cache_ok env fs"
    and p: "\<And>i. i \<le> (offset + length buf - 1) div bs \<Longrightarrow> block_index_ref env fs file i = Ok (p i)"
    and inside: "\<And>i c. i \<le> (offset + length buf - 1) div bs \<Longrightarrow> p i = Some c \<Longrightarrow> block_inside bs (contents (disk fs)) c"
    and len: "0 < length buf" "offset + length buf < 2 ^ 32" "offset < inode_len (tr env) file"
    and n: "n = min (inode_len (tr env) file - offset) (length buf)"
  shows "\<exists>fs' out. read_from_file env fs file offset buf = (Ok (n, out), fs') \<and>
    same_fs fs fs' \<and> cache_ok env fs' \<and>
    out = map (file_byte bs (contents (disk fs)) p) [offset..<offset + n] @ drop n buf"
  using read_from_file_run [OF dev bs ok p inside len n] .

text \<open>A block of a file behind an indirect block whose table is in the cache.\<close>

lemma demo_pointers: "nth_opt (pointers_of (slice 2048 3072 (mem_data (disk demo_fs)))) 0 = Some (Some 117901063)"
proof -
  have "slice 2048 3072 (mem_data (disk demo_fs)) = replicate 1024 7" by (simp add: demo_fs_def slice_def)
  also have "\<dots> = [7, 7, 7, 7] @ replicate 1020 7" using replicate_add [of 4 1020 "7 :: u8"] by (simp add: numeral_eq_Suc)
  finally have "chunks_exact 4 (slice 2048 3072 (mem_data (disk demo_fs))) = [7, 7, 7, 7] # chunks_exact 4 (replicate 1020 7)"
    by (subst chunks_exact.simps) simp
  then show ?thesis
    by (simp add: pointers_of_def nth_opt_def address_new_def word_from_le_def)
qed

lemma demo_indirect:
  "block_index_ref demo_env demo_cached (demo_file\<lparr>i_singly_indirect_block_ptr := 2\<rparr>) 12 = Ok (Some 117901063)"
proof -
  have "block_inside 1024 (mem_data (disk demo_cached)) 2"
    by (simp add: demo_cached_def demo_fs_def block_inside_def)
  from read_block_slice [OF demo_device demo_cached_ok(1,2) this, of 1024]
  have "read_block demo_env demo_cached 2 1024 = Ok (1024, slice 2048 3072 (mem_data (disk demo_fs)))"
    by (simp add: demo_cached_def)
  then show ?thesis
    using demo_pointers
    by (simp add: block_index_ref_def indirect_pointer_limits_def demo_cached_ok(2) u32_defs indirect_ref_def
        single_indirect_ptr_def address_new_def ok_or_def)
qed

theorem indirect_cache_transparent_witness:
  "fst (resolve_block_index demo_env demo_cached (demo_file\<lparr>i_singly_indirect_block_ptr := 2\<rparr>) 12) = Ok (Some 117901063)"
  using indirect_cache_transparent [OF demo_cached_ok(3), of "demo_file\<lparr>i_singly_indirect_block_ptr := 2\<rparr>" 12]
  by (simp add: demo_indirect)

theorem read_from_file_bytes_witness:
  "\<exists>fs'. read_from_file demo_env demo_fs demo_file 998 [1, 1, 1] = (Ok (2, [7, 7, 1]), fs')"
proof -
  have "\<exists>fs' out. read_from_file demo_env demo_fs demo_file 998 [1, 1, 1] = (Ok (2, out), fs') \<and>
    same_fs demo_fs fs' \<and> cache_ok demo_env fs' \<and>
    out = map (file_byte 1024 (mem_data (disk demo_fs)) (\<lambda>_. Some 2)) [998..<998 + 2] @ drop 2 [1, 1, 1]"
  proof (rule read_from_file_bytes)
    show "sector_device (dev demo_env) mem_valid mem_data" by (rule demo_device)
    show "mem_valid (disk demo_fs)" by (rule demo_valid)
    show "block_index_ref demo_env demo_fs demo_file i = Ok (Some 2)"
      if "i \<le> (998 + length [1, 1, 1 :: u8] - 1) div 1024" for i
      using that by (simp add: demo_resolve)
    show "block_inside 1024 (mem_data (disk demo_fs)) c" if "Some 2 = Some c" for c
      using that by (simp add: block_inside_def demo_fs_def)
  qed (simp_all add: demo_block_size demo_cache_ok demo_len)
  moreover have "map (file_byte 1024 (mem_data (disk demo_fs)) (\<lambda>_. Some 2)) [998..<998 + 2] = [7, 7]"
    by (simp add: file_byte_def block_bytes_def slice_def demo_fs_def upt_rec)
  ultimately show ?thesis by (auto simp: numeral_2_eq_2)
qed

end
