(* ===== verification/Ext2_Dir.thy ===== *)
theory Ext2_Dir
  imports Ext2_Read
begin

text \<open>
  Directories and writing of an ext2 file system (\<open>kernel/ext2/src/dir.rs\<close>, \<open>create.rs\<close>,
  \<open>write.rs\<close>): directory entries and their bytes, listing a directory, adding an entry, creating
  a file, writing to a file. The listing loop may run forever on a damaged directory; it is a
  partial function, which has no value there.
\<close>

section \<open>Directory entries\<close>

record dir_entry =
  de_inode :: nat
  de_total_size :: nat
  de_name_length :: nat
  de_type_indicator :: "nat option"
  de_name_bytes :: bytes

definition u16_add :: "nat \<Rightarrow> nat \<Rightarrow> ('e, nat) outcome" where
  "u16_add a b = (if a + b < 2 ^ 16 then Ok (a + b) else Panic)"

text \<open>\<open>DirEntry::size\<close>: the header of 8 bytes and the name, rounded up to a multiple of 4.\<close>

definition dir_entry_size :: "nat \<Rightarrow> ('e, nat) outcome" where
  "dir_entry_size name_length =
    obind (u16_add 8 name_length) (\<lambda>unaligned_size.
    obind (u16_add unaligned_size 3) (\<lambda>n. Ok (n div 4 * 4)))"

definition dir_entry_from :: "truncate \<Rightarrow> bool \<Rightarrow> bytes \<Rightarrow> ('e, dir_entry) outcome" where
  "dir_entry_from trunc have_type b =
    assert_that (8 \<le> length b) (
    let arr = dir_entry_no_name_read (take 8 b);
        msb = unat (dn_type_indicator_or_name_length_msb arr);
        name_length = (if have_type then unat (dn_name_length_lsb arr)
          else unat (dn_name_length_lsb arr) OR push_bit 8 msb);
        type_indicator = (if have_type then Some (trunc 7 msb) else None) in
    obind (dir_entry_size name_length) (\<lambda>required_size.
    assert_that (required_size \<le> length b) (
    obind (index_range 8 (8 + name_length) b) (\<lambda>name_bytes.
    obind (unwrap (address_new (dn_inode arr))) (\<lambda>inode.
    Ok \<lparr>de_inode = inode, de_total_size = unat (dn_total_size arr), de_name_length = name_length,
      de_type_indicator = type_indicator, de_name_bytes = name_bytes\<rparr>)))))"

definition dir_entry_serialize :: "bool \<Rightarrow> dir_entry \<Rightarrow> ('e, bytes) outcome" where
  "dir_entry_serialize have_type e =
    obind (if have_type then obind (unwrap (de_type_indicator e)) (\<lambda>t. Ok (of_nat t))
           else Ok (of_nat (drop_bit 8 (de_name_length e)))) (\<lambda>msb.
    Ok (dir_entry_no_name_write
          \<lparr>dn_inode = of_nat (de_inode e), dn_total_size = of_nat (de_total_size e),
           dn_name_length_lsb = of_nat (de_name_length e), dn_type_indicator_or_name_length_msb = msb\<rparr>
        @ de_name_bytes e))"

text \<open>\<open>name\<close> is compared with a \<open>&str\<close>, which is valid UTF-8: the comparison is the one of the bytes.\<close>

definition entry_has_name :: "bytes \<Rightarrow> dir_entry \<Rightarrow> bool" where
  "entry_has_name name e \<longleftrightarrow> de_name_bytes e = name"

definition dir_type_from :: "nat \<Rightarrow> ('e, nat) outcome" where
  "dir_type_from t =
    (if t = TYPE_REGULAR_FILE then Ok 1 else if t = TYPE_DIRECTORY then Ok 2
     else if t = TYPE_CHARACTER_DEVICE then Ok 3 else if t = TYPE_BLOCK_DEVICE then Ok 4
     else if t = TYPE_FIFO then Ok 5 else if t = TYPE_UNIX_SOCKET then Ok 6
     else if t = TYPE_SYMLINK then Ok 7 else Panic)"

section \<open>Listing a directory\<close>

partial_function (option) list_block ::
  "truncate \<Rightarrow> bool \<Rightarrow> nat \<Rightarrow> bytes \<Rightarrow> nat \<Rightarrow> dir_entry list \<Rightarrow> (ext2_error, dir_entry list) outcome option" where
  "list_block trunc have_type bs data offset entries =
    (if offset < bs - 8 then
       (case dir_entry_from trunc have_type (drop offset data) of
          Ok e \<Rightarrow> list_block trunc have_type bs data (offset + de_total_size e) (entries @ [e])
        | Err x \<Rightarrow> Some (Err x)
        | Panic \<Rightarrow> Some Panic)
     else Some (Ok entries))"

fun list_blocks ::
  "('d, 'e) ext2_env \<Rightarrow> 'd ext2_fs \<Rightarrow> bool \<Rightarrow> nat \<Rightarrow> nat list \<Rightarrow> dir_entry list \<Rightarrow> (ext2_error, dir_entry list) outcome option" where
  "list_blocks env fs have_type bs [] entries = Some (Ok entries)"
| "list_blocks env fs have_type bs (a # as) entries =
    (case read_block env fs a bs of
       Err x \<Rightarrow> Some (Err DeviceRead)
     | Panic \<Rightarrow> Some Panic
     | Ok (_, data) \<Rightarrow>
         if bs < 8 then Some Panic
         else (case list_block (tr env) have_type bs data 0 entries of
                 Some (Ok entries') \<Rightarrow> list_blocks env fs have_type bs as entries'
               | r \<Rightarrow> r))"

definition allocated_ptrs :: "inode \<Rightarrow> nat list" where
  "allocated_ptrs v = List.map_filter id (direct_ptrs v)"

definition list_dir :: "('d, 'e) ext2_env \<Rightarrow> 'd ext2_fs \<Rightarrow> inode \<Rightarrow> (ext2_error, dir_entry list) outcome option" where
  "list_dir env fs dir =
    (if inode_typ (tr env) dir \<noteq> TYPE_DIRECTORY then Some (Err NotDirectory)
     else case block_size (superblock fs) of
       Ok bs \<Rightarrow> list_blocks env fs (dir_entries_have_type (tr env) (superblock fs)) bs (allocated_ptrs dir) []
     | Err x \<Rightarrow> Some (Err x)
     | Panic \<Rightarrow> Some Panic)"

definition find_entry ::
  "('d, 'e) ext2_env \<Rightarrow> 'd ext2_fs \<Rightarrow> inode \<Rightarrow> (dir_entry \<Rightarrow> bool) \<Rightarrow> (ext2_error, dir_entry option) outcome option" where
  "find_entry env fs dir P =
    map_option (\<lambda>r. obind r (\<lambda>entries. Ok (List.find P entries))) (list_dir env fs dir)"

definition resolve_dir_entry :: "('d, 'e) ext2_env \<Rightarrow> 'd ext2_fs \<Rightarrow> dir_entry \<Rightarrow> (ext2_error, nat \<times> inode) outcome" where
  "resolve_dir_entry env fs e = read_inode env fs (de_inode e)"

definition find_and_resolve_entry ::
  "('d, 'e) ext2_env \<Rightarrow> 'd ext2_fs \<Rightarrow> inode \<Rightarrow> (dir_entry \<Rightarrow> bool) \<Rightarrow> (ext2_error, (nat \<times> inode) option) outcome option" where
  "find_and_resolve_entry env fs dir P =
    map_option (\<lambda>r. obind r (\<lambda>found. case found of
      None \<Rightarrow> Ok None
    | Some e \<Rightarrow> obind (resolve_dir_entry env fs e) (\<lambda>v. Ok (Some v)))) (find_entry env fs dir P)"

section \<open>Adding an entry\<close>

text \<open>The slot search in one block: the block with the entry added, or none when no slot fits.\<close>

definition insert_at ::
  "bool \<Rightarrow> nat \<Rightarrow> dir_entry \<Rightarrow> nat \<Rightarrow> bytes \<Rightarrow> nat \<Rightarrow> nat \<Rightarrow> bytes \<Rightarrow> ('e, bytes) outcome" where
  "insert_at have_type offset e entry_size name inode_address typ data =
    obind (dir_entry_serialize have_type (e\<lparr>de_total_size := entry_size\<rparr>)) (\<lambda>old.
    obind (copy_into offset old data) (\<lambda>data.
    assert_that ((offset + entry_size) mod 4 = 0) (
    obind (dir_entry_serialize have_type
       \<lparr>de_inode = inode_address, de_total_size = de_total_size e - entry_size,
        de_name_length = length name mod 2 ^ 16,
        de_type_indicator = (if have_type then Some typ else None), de_name_bytes = name\<rparr>) (\<lambda>new.
    copy_into (offset + entry_size) new data))))"

partial_function (option) add_in_block ::
  "truncate \<Rightarrow> bool \<Rightarrow> nat \<Rightarrow> nat \<Rightarrow> bytes \<Rightarrow> nat \<Rightarrow> nat \<Rightarrow> bytes \<Rightarrow> nat \<Rightarrow> (ext2_error, bytes option) outcome option" where
  "add_in_block trunc have_type bs required_size name inode_address typ data offset =
    (if offset < bs - 8 then
       (if offset mod 4 \<noteq> 0 then Some Panic
        else case obind (dir_entry_from trunc have_type (drop offset data)) (\<lambda>e.
               obind (dir_entry_size (de_name_length e)) (\<lambda>entry_size.
               obind (u16_add required_size entry_size) (\<lambda>needed. Ok (e, entry_size, needed)))) of
          Err x \<Rightarrow> Some (Err x)
        | Panic \<Rightarrow> Some Panic
        | Ok (e, entry_size, needed) \<Rightarrow>
            if needed \<le> de_total_size e
            then Some (obind (insert_at have_type offset e entry_size name inode_address typ data) (\<lambda>d. Ok (Some d)))
            else add_in_block trunc have_type bs required_size name inode_address typ data (offset + de_total_size e))
     else Some (Ok None))"

fun add_in_blocks ::
  "('d, 'e) ext2_env \<Rightarrow> bool \<Rightarrow> nat \<Rightarrow> nat \<Rightarrow> bytes \<Rightarrow> nat \<Rightarrow> nat \<Rightarrow> nat list \<Rightarrow> 'd ext2_fs \<Rightarrow>
    (ext2_error, unit, 'd ext2_fs) run option" where
  "add_in_blocks env have_type bs required_size name inode_address typ [] fs = Some (Panic, fs)"
| "add_in_blocks env have_type bs required_size name inode_address typ (a # as) fs =
    (case read_block env fs a bs of
       Err x \<Rightarrow> Some (Err x, fs)
     | Panic \<Rightarrow> Some (Panic, fs)
     | Ok (_, data) \<Rightarrow>
         if bs < 8 then Some (Panic, fs)
         else (case add_in_block (tr env) have_type bs required_size name inode_address typ data 0 of
             None \<Rightarrow> None
           | Some (Err x) \<Rightarrow> Some (Err x, fs)
           | Some Panic \<Rightarrow> Some (Panic, fs)
           | Some (Ok None) \<Rightarrow> add_in_blocks env have_type bs required_size name inode_address typ as fs
           | Some (Ok (Some data')) \<Rightarrow> Some (sbind (write_block env fs a data') (\<lambda>_ fs. (Ok (), fs)))))"

definition add_entry_to_dir ::
  "('d, 'e) ext2_env \<Rightarrow> 'd ext2_fs \<Rightarrow> inode \<Rightarrow> bytes \<Rightarrow> nat \<Rightarrow> nat \<Rightarrow> (ext2_error, unit, 'd ext2_fs) run option" where
  "add_entry_to_dir env fs dir name inode_address typ =
    (case find_entry env fs dir (entry_has_name name) of
       None \<Rightarrow> None
     | Some (Err x) \<Rightarrow> Some (Err x, fs)
     | Some Panic \<Rightarrow> Some (Panic, fs)
     | Some (Ok (Some _)) \<Rightarrow> Some (Err EntryExists, fs)
     | Some (Ok None) \<Rightarrow>
         (case obind (block_size (superblock fs)) (\<lambda>bs.
               obind (dir_entry_size (length name mod 2 ^ 16)) (\<lambda>n. Ok (bs, n))) of
            Err x \<Rightarrow> Some (Err x, fs)
          | Panic \<Rightarrow> Some (Panic, fs)
          | Ok (bs, required_size) \<Rightarrow>
              add_in_blocks env (dir_entries_have_type (tr env) (superblock fs)) bs required_size
                name inode_address typ (allocated_ptrs dir) fs))"

section \<open>Creating files\<close>

definition create_inode ::
  "('d, 'e) ext2_env \<Rightarrow> 'd ext2_fs \<Rightarrow> inode \<Rightarrow> bytes \<Rightarrow> u16 \<Rightarrow> (ext2_error, nat \<times> inode, 'd ext2_fs) run option" where
  "create_inode env fs parent name typ =
    (case sbind (allocate_inode env fs) (\<lambda>a fs.
          lift_pure (ok_or a NoSpace) fs (\<lambda>inode_address.
          sbind (write_inode env fs inode_address (inode_new typ)) (\<lambda>_ fs.
          lift_pure (dir_type_from (inode_typ (tr env) (inode_new typ))) fs (\<lambda>t.
          (Ok (inode_address, t), fs))))) of
       (Err x, fs) \<Rightarrow> Some (Err x, fs)
     | (Panic, fs) \<Rightarrow> Some (Panic, fs)
     | (Ok (inode_address, t), fs) \<Rightarrow>
         map_option (\<lambda>m. sbind m (\<lambda>_ fs. (Ok (inode_address, inode_new typ), fs)))
           (add_entry_to_dir env fs parent name inode_address t))"

definition create_regular_file ::
  "('d, 'e) ext2_env \<Rightarrow> 'd ext2_fs \<Rightarrow> inode \<Rightarrow> bytes \<Rightarrow> (ext2_error, nat \<times> inode, 'd ext2_fs) run option" where
  "create_regular_file env fs parent name =
    map_option (\<lambda>m. sbind m (\<lambda>v fs.
      case inode_type (tr env) TYPE_REGULAR_FILE v of Ok f \<Rightarrow> (Ok f, fs) | _ \<Rightarrow> (Panic, fs)))
      (create_inode env fs parent name 0x8000)"

section \<open>Writing to a file\<close>

text \<open>A block without storage gets a new one, whose address goes into the first free direct
  pointer; with none free the code is unfinished.\<close>

definition provide_block ::
  "('d, 'e) ext2_env \<Rightarrow> 'd ext2_fs \<Rightarrow> nat \<Rightarrow> inode \<Rightarrow> nat \<Rightarrow> (ext2_error, nat \<times> inode \<times> nat, 'd ext2_fs) run" where
  "provide_block env fs inode_address file block =
    sbind (resolve_block_index env fs file block) (\<lambda>p fs. case p of
      Some a \<Rightarrow> (Ok (a, file, 0), fs)
    | None \<Rightarrow>
        sbind (allocate_block env fs) (\<lambda>free fs.
        lift_pure (ok_or free NoSpace) fs (\<lambda>a.
        case position (\<lambda>q. q = None) (direct_ptrs file) of
          None \<Rightarrow> (Panic, fs)
        | Some slot \<Rightarrow>
            lift_pure (set_direct_ptr slot (Some a) file) fs (\<lambda>file.
            sbind (write_inode env fs inode_address file) (\<lambda>_ fs. (Ok (a, file, 1), fs))))))"

fun write_file_blocks ::
  "('d, 'e) ext2_env \<Rightarrow> nat \<Rightarrow> nat \<Rightarrow> bytes list \<Rightarrow> inode \<Rightarrow> nat \<Rightarrow> 'd ext2_fs \<Rightarrow>
    (ext2_error, inode \<times> nat, 'd ext2_fs) run" where
  "write_file_blocks env inode_address block [] file new fs = (Ok (file, new), fs)"
| "write_file_blocks env inode_address block (chunk # chunks) file new fs =
    sbind (provide_block env fs inode_address file block) (\<lambda>(a, file, k) fs.
    sbind (write_block env fs a chunk) (\<lambda>_ fs.
    write_file_blocks env inode_address (Suc block) chunks file (new + k) fs))"

definition set_file_size :: "nat \<Rightarrow> inode \<Rightarrow> inode" where
  "set_file_size n v = v\<lparr>i_byte_size_lower := of_nat n, i_byte_size_upper_or_dir_acl := of_nat (drop_bit 32 n)\<rparr>"

definition write_to_file ::
  "('d, 'e) ext2_env \<Rightarrow> 'd ext2_fs \<Rightarrow> nat \<times> inode \<Rightarrow> nat \<Rightarrow> bytes \<Rightarrow> (ext2_error, nat \<times> inode, 'd ext2_fs) run" where
  "write_to_file env fs handle offset buf =
    (case handle of (inode_address, file) \<Rightarrow>
     lift_pure (block_size (superblock fs)) fs (\<lambda>bs.
     lift_pure (block_range bs offset (length buf)) fs (\<lambda>(start_block, end_block, relative_offset, block_count).
     sbind (read_blocks_from_inode env fs file start_block end_block (replicate (block_count * bs) 0)) (\<lambda>(_, data) fs.
     lift_pure (copy_into relative_offset buf data) fs (\<lambda>data.
     sbind (write_file_blocks env inode_address start_block (chunks_exact bs data) file 0 fs) (\<lambda>(file, new) fs.
     let fin = offset mod 2 ^ 32 + length buf in
     if inode_len (tr env) file < fin then
       lift_pure (u32_add (unat (i_num_disk_sectors file)) new) fs (\<lambda>sectors.
       let file = (set_file_size fin file)\<lparr>i_num_disk_sectors := of_nat sectors\<rparr> in
       sbind (write_inode env fs inode_address file) (\<lambda>_ fs. (Ok (length buf, file), fs)))
     else (Ok (length buf, file), fs)))))))"

section \<open>The bytes of an entry\<close>

abbreviation entry_bytes :: "nat \<Rightarrow> nat" where
  "entry_bytes n \<equiv> (n + 11) div 4 * 4"

lemma dir_entry_size_Ok: "dir_entry_size n = Ok k \<longleftrightarrow> n + 11 < 2 ^ 16 \<and> k = entry_bytes n"
  by (auto simp: dir_entry_size_def u16_add_def)

lemma entry_bytes_bounds: "8 + n \<le> entry_bytes n" "entry_bytes n mod 4 = 0"
proof -
  have "(n + 11) div 4 * 4 + (n + 11) mod 4 = n + 11" "(n + 11) mod 4 < 4" by simp_all
  then show "8 + n \<le> entry_bytes n" by linarith
qed simp

text \<open>The entries a directory block can hold.\<close>

definition entry_ok :: "bool \<Rightarrow> dir_entry \<Rightarrow> bool" where
  "entry_ok have_type e \<longleftrightarrow> 0 < de_inode e \<and> de_inode e < 2 ^ 32 \<and> de_total_size e < 2 ^ 16 \<and>
    de_name_length e = length (de_name_bytes e) \<and> de_name_length e + 11 < 2 ^ 16 \<and>
    (if have_type then de_name_length e < 256 \<and> (\<exists>t \<le> 7. de_type_indicator e = Some t)
     else de_type_indicator e = None)"

lemma truncate_7: "truncate_ok trunc \<Longrightarrow> trunc 7 n = n mod 8"
proof -
  assume "truncate_ok trunc"
  then have "trunc 7 n = n AND mask 3" by (simp add: truncate_ok_def and.commute mask_eq_exp_minus_1)
  then show ?thesis by (simp add: take_bit_eq_mod flip: take_bit_eq_mask)
qed

lemma or_byte: "a < 256 \<Longrightarrow> a OR push_bit 8 b = a + 256 * (b :: nat)"
proof -
  assume "a < 256"
  then have a: "a = take_bit 8 a" by (simp add: take_bit_eq_mod)
  have "take_bit 8 a AND push_bit 8 b = 0"
    by (rule bit_eqI) (auto simp: bit_and_iff bit_push_bit_iff bit_take_bit_iff)
  then have "a AND push_bit 8 b = 0" using a by simp
  then have "a + push_bit 8 b = a OR push_bit 8 b" by (rule disjunctive_add_eq_or)
  then show ?thesis by (simp add: push_bit_eq_mult)
qed

lemma length_header: "length (dir_entry_no_name_write h) = 8"
  unfolding dir_entry_no_name_write_def
  by (subst length_fields_write [of 0]) (simp_all add: dir_entry_no_name_fields_def)

text \<open>The last header byte: the type, or the upper byte of the length.\<close>

definition last_byte :: "bool \<Rightarrow> dir_entry \<Rightarrow> u8" where
  "last_byte have_type e =
    of_nat (if have_type then the (de_type_indicator e) else de_name_length e div 256)"

definition header_of :: "bool \<Rightarrow> dir_entry \<Rightarrow> dir_entry_no_name" where
  "header_of have_type e = \<lparr>dn_inode = of_nat (de_inode e), dn_total_size = of_nat (de_total_size e),
    dn_name_length_lsb = of_nat (de_name_length e), dn_type_indicator_or_name_length_msb = last_byte have_type e\<rparr>"

lemma serialize_ok:
  "entry_ok have_type e \<Longrightarrow>
    dir_entry_serialize have_type e = Ok (dir_entry_no_name_write (header_of have_type e) @ de_name_bytes e)"
  by (auto simp: entry_ok_def dir_entry_serialize_def header_of_def last_byte_def unwrap_def drop_bit_eq_div)

lemma header_values:
  assumes "truncate_ok trunc" and "entry_ok have_type e"
  shows "address_new (dn_inode (header_of have_type e)) = Some (de_inode e)"
    "unat (dn_total_size (header_of have_type e)) = de_total_size e"
    "have_type \<Longrightarrow> unat (dn_name_length_lsb (header_of have_type e)) = de_name_length e"
    "have_type \<Longrightarrow> Some (trunc 7 (unat (dn_type_indicator_or_name_length_msb (header_of have_type e)))) = de_type_indicator e"
    "\<not> have_type \<Longrightarrow> unat (dn_name_length_lsb (header_of have_type e)) OR
      push_bit 8 (unat (dn_type_indicator_or_name_length_msb (header_of have_type e))) = de_name_length e"
proof -
  have small: "de_inode e < 2 ^ 32" "0 < de_inode e" "de_total_size e < 2 ^ 16" "de_name_length e < 2 ^ 16"
    using assms(2) by (auto simp: entry_ok_def)
  have "unat (of_nat (de_inode e) :: u32) = de_inode e" using small(1) by (simp add: unat_of_nat)
  then show "address_new (dn_inode (header_of have_type e)) = Some (de_inode e)"
    using small(2) by (auto simp: header_of_def address_new_def simp flip: unat_eq_zero)
  show "unat (dn_total_size (header_of have_type e)) = de_total_size e"
    using small(3) by (simp add: header_of_def unat_of_nat)
  show "unat (dn_name_length_lsb (header_of have_type e)) = de_name_length e" if have_type
    using that assms(2) by (simp add: header_of_def unat_of_nat entry_ok_def)
  show "Some (trunc 7 (unat (dn_type_indicator_or_name_length_msb (header_of have_type e)))) = de_type_indicator e"
    if have_type
    using that assms by (auto simp: header_of_def last_byte_def unat_of_nat entry_ok_def truncate_7)
  have "de_name_length e div 256 < 256" using small(4) by simp
  then show "unat (dn_name_length_lsb (header_of have_type e)) OR
      push_bit 8 (unat (dn_type_indicator_or_name_length_msb (header_of have_type e))) = de_name_length e"
    if "\<not> have_type"
    using that by (simp add: header_of_def last_byte_def unat_of_nat or_byte)
qed

lemma from_serialize:
  assumes tr: "truncate_ok trunc" and e: "entry_ok have_type e"
    and b: "take (8 + length (de_name_bytes e)) b = dir_entry_no_name_write (header_of have_type e) @ de_name_bytes e"
    and len: "entry_bytes (de_name_length e) \<le> length b"
  shows "dir_entry_from trunc have_type b = Ok e"
proof -
  note hv = header_values [OF tr e]
  have nl: "de_name_length e = length (de_name_bytes e)" "de_name_length e + 11 < 2 ^ 16"
    using e by (simp_all add: entry_ok_def)
  have "8 + length (de_name_bytes e) \<le> length b" using len entry_bytes_bounds(1) [of "de_name_length e"] nl(1) by simp
  moreover have "take 8 (take (8 + length (de_name_bytes e)) b) = dir_entry_no_name_write (header_of have_type e)"
    using b by (simp add: length_header)
  then have "take 8 b = dir_entry_no_name_write (header_of have_type e)" by simp
  moreover have "slice 8 (8 + de_name_length e) b = de_name_bytes e"
    using arg_cong [OF b, of "drop 8"] nl(1) by (simp add: slice_def drop_take length_header)
  ultimately show ?thesis
    using hv nl len e
    by (cases have_type)
      (simp_all add: dir_entry_from_def assert_that_def Let_def dir_entry_no_name_read_write dir_entry_size_def
        u16_add_def index_range_def unwrap_def entry_ok_def add.commute [of 11])
qed

lemma from_ok:
  assumes tr: "truncate_ok trunc" and e: "dir_entry_from trunc have_type b = Ok e"
  shows "entry_ok have_type e" and "entry_bytes (de_name_length e) \<le> length b"
proof -
  define arr where "arr = dir_entry_no_name_read (take 8 b)"
  define nl where "nl = (if have_type then unat (dn_name_length_lsb arr)
    else unat (dn_name_length_lsb arr) OR push_bit 8 (unat (dn_type_indicator_or_name_length_msb arr)))"
  define ty where "ty = (if have_type then Some (trunc 7 (unat (dn_type_indicator_or_name_length_msb arr))) else None)"
  have "8 \<le> length b \<and> nl + 11 < 2 ^ 16 \<and> entry_bytes nl \<le> length b \<and> 8 + nl \<le> length b \<and>
      (\<exists>i. address_new (dn_inode arr) = Some i \<and>
        e = \<lparr>de_inode = i, de_total_size = unat (dn_total_size arr), de_name_length = nl,
          de_type_indicator = ty, de_name_bytes = slice 8 (8 + nl) b\<rparr>)"
    using e
    by (auto simp: dir_entry_from_def Let_def outcome_simps dir_entry_size_Ok simp flip: arr_def nl_def ty_def)
  then obtain i where b: "8 + nl \<le> length b" "nl + 11 < 2 ^ 16" "entry_bytes nl \<le> length b"
      "address_new (dn_inode arr) = Some i"
      "e = \<lparr>de_inode = i, de_total_size = unat (dn_total_size arr), de_name_length = nl,
          de_type_indicator = ty, de_name_bytes = slice 8 (8 + nl) b\<rparr>" by blast
  have "0 < i" "i < 2 ^ 32"
    using b(4) unat_less_power [of "dn_inode arr"] by (auto simp: address_new_def unat_gt_0 split: if_splits)
  moreover have "unat (dn_total_size arr) < 2 ^ 16" using unat_less_power [of "dn_total_size arr"] by simp
  moreover have "nl < 256" if have_type using that unat_less_power [of "dn_name_length_lsb arr"] by (simp add: nl_def)
  ultimately show "entry_ok have_type e"
    using b tr by (auto simp: entry_ok_def ty_def truncate_7)
  show "entry_bytes (de_name_length e) \<le> length b" using b by simp
qed

text \<open>An entry is read from its own bytes only.\<close>

lemma from_local:
  assumes "dir_entry_from trunc have_type b = Ok e"
    and "take (8 + de_name_length e) b' = take (8 + de_name_length e) b"
    and "entry_bytes (de_name_length e) \<le> length b'"
  shows "dir_entry_from trunc have_type b' = Ok e"
proof -
  have "take 8 b' = take 8 (take (8 + de_name_length e) b')" by simp
  also have "\<dots> = take 8 b" using assms(2) by simp
  finally have 8: "take 8 b' = take 8 b" .
  have "slice 8 (8 + de_name_length e) b' = slice 8 (8 + de_name_length e) b"
    using arg_cong [OF assms(2), of "drop 8"] by (simp add: slice_def drop_take)
  moreover have "8 + de_name_length e \<le> length b'" using assms(3) entry_bytes_bounds(1) [of "de_name_length e"] by simp
  ultimately show ?thesis
    using assms(1,3)
    by (auto simp: dir_entry_from_def Let_def outcome_simps dir_entry_size_Ok 8)
qed

section \<open>The entries of a block\<close>

text \<open>The entries that follow one another from \<open>offset\<close> to the end of the block, each aligned, at
  least as long as its bytes, and inside the block.\<close>

primrec entries_at :: "truncate \<Rightarrow> bool \<Rightarrow> nat \<Rightarrow> bytes \<Rightarrow> nat \<Rightarrow> dir_entry list \<Rightarrow> bool" where
  "entries_at trunc have_type bs data offset [] \<longleftrightarrow> bs - 8 \<le> offset"
| "entries_at trunc have_type bs data offset (e # es) \<longleftrightarrow> offset < bs - 8 \<and> offset mod 4 = 0 \<and>
    dir_entry_from trunc have_type (drop offset data) = (Ok e :: (ext2_error, dir_entry) outcome) \<and>
    entry_bytes (de_name_length e) \<le> de_total_size e \<and> offset + de_total_size e \<le> bs \<and>
    entries_at trunc have_type bs data (offset + de_total_size e) es"

lemma list_block_entries:
  "entries_at trunc have_type bs data offset es \<Longrightarrow>
    list_block trunc have_type bs data offset acc = Some (Ok (acc @ es))"
proof (induction es arbitrary: offset acc)
  case Nil
  then show ?case by (subst list_block.simps) simp
next
  case (Cons e es)
  then show ?case by (subst list_block.simps) simp
qed

text \<open>With an entry of total size 0 the loop stays where it is.\<close>

lemma list_block_stuck:
  assumes "dir_entry_from trunc have_type (drop offset data) = (Ok e :: (ext2_error, dir_entry) outcome)"
    and "de_total_size e = 0" and "offset < bs - 8"
  shows "list_block trunc have_type bs data offset acc = None"
proof -
  let ?stuck = "\<lambda>trunc have_type bs data offset. offset < bs - 8 \<and>
    (\<exists>e. dir_entry_from trunc have_type (drop offset data) = (Ok e :: (ext2_error, dir_entry) outcome) \<and> de_total_size e = 0)"
  have "\<not> ?stuck trunc have_type bs data offset" if "list_block trunc have_type bs data offset acc = Some r" for r
  proof (rule list_block.raw_induct [where P = "\<lambda>trunc have_type bs data offset acc r. \<not> ?stuck trunc have_type bs data offset", OF _ that])
    fix f trunc have_type bs data offset acc r
    assume IH: "\<And>trunc have_type bs data offset acc r. f trunc have_type bs data offset acc = Some r \<Longrightarrow>
        \<not> ?stuck trunc have_type bs data offset"
      and step: "(if offset < bs - 8 then
         (case dir_entry_from trunc have_type (drop offset data) :: (ext2_error, dir_entry) outcome of
            Ok e \<Rightarrow> f trunc have_type bs data (offset + de_total_size e) (acc @ [e])
          | Err x \<Rightarrow> Some (Err x) | Panic \<Rightarrow> Some Panic)
         else Some (Ok acc)) = Some r"
    show "\<not> ?stuck trunc have_type bs data offset"
    proof
      assume stuck: "?stuck trunc have_type bs data offset"
      then obtain e where "dir_entry_from trunc have_type (drop offset data) = (Ok e :: (ext2_error, dir_entry) outcome)" "de_total_size e = 0"
        by blast
      then have "f trunc have_type bs data offset (acc @ [e]) = Some r" using step stuck by simp
      then show False using IH stuck by blast
    qed
  qed
  then show ?thesis using assms by (cases "list_block trunc have_type bs data offset acc") auto
qed

lemma take_slice: "take a xs = slice 0 a xs" "drop a xs = slice a (length xs) xs"
  by (simp_all add: slice_def)

lemma entries_at_tail:
  assumes "drop m data' = drop m data" and "m \<le> offset"
  shows "entries_at trunc have_type bs data' offset es \<longleftrightarrow> entries_at trunc have_type bs data offset es"
  using assms(2)
proof (induction es arbitrary: offset)
  case (Cons e es)
  have "drop offset data' = drop offset data"
    using arg_cong [OF assms(1), of "drop (offset - m)"] Cons.prems by simp
  then show ?case using Cons.IH [of "offset + de_total_size e"] Cons.prems by simp
qed simp

lemma entries_at_prefix:
  assumes tr: "truncate_ok trunc" and "length data' = length data"
    and "take m data' = take m data" and "entries_at trunc have_type bs data' m rest'"
  shows "entries_at trunc have_type bs data offset (es @ rest) \<Longrightarrow>
    m = offset + sum_list (map de_total_size es) \<Longrightarrow> entries_at trunc have_type bs data' offset (es @ rest')"
proof (induction es arbitrary: offset)
  case Nil
  then show ?case using assms(4) by simp
next
  case (Cons e es)
  have e: "dir_entry_from trunc have_type (drop offset data) = (Ok e :: (ext2_error, dir_entry) outcome)"
    "entry_bytes (de_name_length e) \<le> de_total_size e"
    using Cons.prems(1) by simp_all
  have le: "offset + (8 + de_name_length e) \<le> m"
    using Cons.prems(2) e(2) entry_bytes_bounds(1) [of "de_name_length e"] by simp
  have "take (offset + (8 + de_name_length e)) data' = take (offset + (8 + de_name_length e)) data"
    using arg_cong [OF assms(3), of "take (offset + (8 + de_name_length e))"] le by (simp add: min_absorb1)
  then have "take (8 + de_name_length e) (drop offset data') = take (8 + de_name_length e) (drop offset data)"
    by (simp add: take_drop ac_simps)
  moreover have "entry_bytes (de_name_length e) \<le> length (drop offset data')"
    using from_ok(2) [OF tr e(1)] assms(2) by simp
  ultimately have "dir_entry_from trunc have_type (drop offset data') = (Ok e :: (ext2_error, dir_entry) outcome)"
    by (intro from_local [OF e(1)])
  then show ?case using Cons by simp
qed

lemma two_overwrites:
  assumes "a + length xs \<le> c" and "c + length ys \<le> e" and "e \<le> length d"
    and "d2 = overwrite c ys (overwrite a xs d)"
  shows "length d2 = length d" "take a d2 = take a d" "drop e d2 = drop e d"
    "take (length xs) (drop a d2) = xs" "take (length ys) (drop c d2) = ys"
proof -
  define d1 where "d1 = overwrite a xs d"
  have l1: "length d1 = length d" using assms by (simp add: d1_def)
  show l2: "length d2 = length d" using assms l1 by (simp add: d1_def)
  show "take a d2 = take a d" "drop e d2 = drop e d"
    unfolding take_slice l2 assms(4) using assms(1-3) l1
    by (simp_all add: slice_overwrite_disjoint d1_def)
  have "slice a (a + length xs) d2 = xs"
    using assms l1 by (simp add: slice_overwrite_disjoint slice_overwrite_same d1_def)
  then show "take (length xs) (drop a d2) = xs" by (simp add: slice_def)
  have "slice c (c + length ys) d2 = ys"
    using assms l1 by (simp add: slice_overwrite_same d1_def)
  then show "take (length ys) (drop c d2) = ys" by (simp add: slice_def)
qed

lemma insert_at_ok:
  assumes tr: "truncate_ok trunc"
    and e: "dir_entry_from trunc have_type (drop offset data) = (Ok e :: (ext2_error, dir_entry) outcome)"
    and sz: "sz = entry_bytes (de_name_length e)" and fits: "entry_bytes (length name) + sz \<le> de_total_size e"
    and inside: "offset + de_total_size e \<le> length data" and "offset mod 4 = 0"
    and new: "new = \<lparr>de_inode = i, de_total_size = de_total_size e - sz, de_name_length = length name,
        de_type_indicator = (if have_type then Some t else None), de_name_bytes = name\<rparr>"
    and new_ok: "entry_ok have_type new"
  shows "\<exists>data'. insert_at have_type offset e sz name i t data = (Ok data' :: (ext2_error, bytes) outcome) \<and>
    length data' = length data \<and> take offset data' = take offset data \<and>
    drop (offset + de_total_size e) data' = drop (offset + de_total_size e) data \<and>
    dir_entry_from trunc have_type (drop offset data') = (Ok (e\<lparr>de_total_size := sz\<rparr>) :: (ext2_error, dir_entry) outcome) \<and>
    dir_entry_from trunc have_type (drop (offset + sz) data') = (Ok new :: (ext2_error, dir_entry) outcome)"
proof -
  let ?e = "e\<lparr>de_total_size := sz\<rparr>"
  let ?B = "\<lambda>e. dir_entry_no_name_write (header_of have_type e) @ de_name_bytes e"
  have e_ok: "entry_ok have_type ?e"
    using from_ok(1) [OF tr e] fits by (auto simp: entry_ok_def)
  have lens: "length (?B ?e) = 8 + de_name_length e" "length (?B new) = 8 + length name"
    using e_ok by (simp_all add: length_header entry_ok_def new)
  have b: "8 + de_name_length e \<le> sz" "8 + length name \<le> entry_bytes (length name)" "sz mod 4 = 0"
    using entry_bytes_bounds by (simp_all add: sz)
  define d2 where "d2 = overwrite (offset + sz) (?B new) (overwrite offset (?B ?e) data)"
  have "offset + length (?B ?e) \<le> offset + sz" "offset + sz + length (?B new) \<le> offset + de_total_size e"
    using lens b fits by linarith+
  note two = two_overwrites [OF this inside d2_def]
  have "(offset + sz) mod 4 = 0" using assms(6) b(3) by presburger
  moreover have "length name mod 2 ^ 16 = length name" using new_ok by (simp add: entry_ok_def new)
  ultimately have "insert_at have_type offset e sz name i t data =
      obind (copy_into offset (?B ?e) data) (\<lambda>data. copy_into (offset + sz) (?B new) data)"
    by (simp add: insert_at_def assert_that_def serialize_ok [OF e_ok] serialize_ok [OF new_ok] flip: new)
  then have "insert_at have_type offset e sz name i t data = Ok d2"
    using lens b fits inside by (simp add: copy_into_def d2_def del: length_append)
  moreover have "dir_entry_from trunc have_type (drop offset d2) = (Ok ?e :: (ext2_error, dir_entry) outcome)"
    by (rule from_serialize [OF tr e_ok])
      (use two(1,4) lens(1) fits inside b sz e_ok in \<open>simp_all add: entry_ok_def\<close>)
  moreover have "dir_entry_from trunc have_type (drop (offset + sz) d2) = (Ok new :: (ext2_error, dir_entry) outcome)"
  proof (rule from_serialize [OF tr new_ok])
    show "take (8 + length (de_name_bytes new)) (drop (offset + sz) d2) = ?B new"
      using two(5) lens(2) by (simp add: new)
    have nl: "de_name_length new = length name" by (simp add: new)
    show "entry_bytes (de_name_length new) \<le> length (drop (offset + sz) d2)"
      unfolding length_drop two(1) nl using fits inside by linarith
  qed
  ultimately show ?thesis using two(1-3) by blast
qed

text \<open>The search stops at the first entry with enough room, the end of the block otherwise.\<close>

lemma add_in_block_step:
  assumes "offset < bs - 8" and "offset mod 4 = 0" and "truncate_ok trunc"
    and "dir_entry_from trunc have_type (drop offset data) = (Ok e :: (ext2_error, dir_entry) outcome)"
    and "k + entry_bytes (de_name_length e) < 2 ^ 16"
  shows "add_in_block trunc have_type bs k name i t data offset =
    (if k + entry_bytes (de_name_length e) \<le> de_total_size e
     then Some (obind (insert_at have_type offset e (entry_bytes (de_name_length e)) name i t data) (\<lambda>d. Ok (Some d)))
     else add_in_block trunc have_type bs k name i t data (offset + de_total_size e))"
  using assms(1,2,4,5) from_ok(1) [OF assms(3,4)]
  by (subst add_in_block.simps) (simp add: dir_entry_size_def u16_add_def entry_ok_def add.commute [of 11])

definition has_room :: "nat \<Rightarrow> dir_entry \<Rightarrow> bool" where
  "has_room k e \<longleftrightarrow> k + entry_bytes (de_name_length e) \<le> de_total_size e"

lemma add_in_block_skip:
  assumes tr: "truncate_ok trunc"
    and "\<And>e. e \<in> set es \<Longrightarrow> k + entry_bytes (de_name_length e) < 2 ^ 16" and "list_all (\<lambda>e. \<not> has_room k e) es"
    and "entries_at trunc have_type bs data offset (es @ rest)"
  shows "add_in_block trunc have_type bs k name i t data offset =
    add_in_block trunc have_type bs k name i t data (offset + sum_list (map de_total_size es))"
  using assms(2-4)
proof (induction es arbitrary: offset)
  case (Cons e es)
  then show ?case
    by (subst add_in_block_step [OF _ _ tr, of _ _ _ _ e]) (simp_all add: has_room_def add.assoc)
qed simp

lemma entries_at_middle:
  "entries_at trunc have_type bs data offset (es1 @ es2) \<Longrightarrow>
    entries_at trunc have_type bs data (offset + sum_list (map de_total_size es1)) es2"
  by (induction es1 arbitrary: offset) (simp_all add: add.assoc [symmetric])

section \<open>Writing in place\<close>

lemma resolve_direct:
  assumes "indirect_pointer_limits fs = (Ok (12, l1, l2) :: (ext2_error, nat \<times> nat \<times> nat) outcome)"
    and "i < 12" and "i < length (direct_ptrs v)"
  shows "resolve_block_index env fs v i = (Ok (direct_ptrs v ! i), fs)"
    and "block_index_ref env fs v i = Ok (direct_ptrs v ! i)"
  using assms by (simp_all add: resolve_block_index_def block_index_ref_def nth_opt_def)

text \<open>The device's bytes after the blocks \<open>q b\<close>, \<open>q (b + 1)\<close>, ... were replaced.\<close>

primrec put_blocks :: "nat \<Rightarrow> (nat \<Rightarrow> nat) \<Rightarrow> nat \<Rightarrow> bytes list \<Rightarrow> bytes \<Rightarrow> bytes" where
  "put_blocks bs q b [] d = d"
| "put_blocks bs q b (c # cs) d = put_blocks bs q (Suc b) cs (overwrite (q b * bs) c d)"

lemma put_blocks_other:
  assumes "\<And>i. b \<le> i \<Longrightarrow> i < b + length cs \<Longrightarrow> Suc (q i) * bs \<le> length d" and "\<forall>c \<in> set cs. length c = bs"
    and "\<And>i. b \<le> i \<Longrightarrow> i < b + length cs \<Longrightarrow> a \<noteq> q i" and "Suc a * bs \<le> length d"
  shows "slice (a * bs) (a * bs + bs) (put_blocks bs q b cs d) = slice (a * bs) (a * bs + bs) d \<and>
    length (put_blocks bs q b cs d) = length d"
  using assms
proof (induction cs arbitrary: b d)
  case (Cons c cs)
  let ?d = "overwrite (q b * bs) c d"
  have b: "Suc (q b) * bs \<le> length d" "a \<noteq> q b" "length c = bs" using Cons.prems by auto
  then have len: "length ?d = length d" by simp
  have "slice (a * bs) (a * bs + bs) ?d = slice (a * bs) (a * bs + bs) d"
    using b Cons.prems(4) by (intro slice_other_block) auto
  moreover have "slice (a * bs) (a * bs + bs) (put_blocks bs q (Suc b) cs ?d) = slice (a * bs) (a * bs + bs) ?d \<and>
      length (put_blocks bs q (Suc b) cs ?d) = length ?d"
    using Cons.prems len by (intro Cons.IH) auto
  ultimately show ?case using len by simp
qed simp

lemma put_blocks_same:
  assumes "\<And>i. b \<le> i \<Longrightarrow> i < b + length cs \<Longrightarrow> Suc (q i) * bs \<le> length d" and "\<forall>c \<in> set cs. length c = bs"
    and "inj_on q {b..<b + length cs}" and "j < length cs"
  shows "slice (q (b + j) * bs) (q (b + j) * bs + bs) (put_blocks bs q b cs d) = cs ! j"
  using assms
proof (induction cs arbitrary: b d j)
  case (Cons c cs)
  let ?d = "overwrite (q b * bs) c d"
  have b: "Suc (q b) * bs \<le> length d" "length c = bs" using Cons.prems by auto
  then have len: "length ?d = length d" by simp
  show ?case
  proof (cases j)
    case 0
    have "q b \<noteq> q i" if "Suc b \<le> i" "i < Suc b + length cs" for i
      using that Cons.prems(3) by (auto dest!: inj_onD [of q _ b i])
    then have "slice (q b * bs) (q b * bs + bs) (put_blocks bs q (Suc b) cs ?d) = slice (q b * bs) (q b * bs + bs) ?d"
      using put_blocks_other [of "Suc b" cs q bs ?d "q b"] Cons.prems b len by auto
    also have "\<dots> = c" using slice_overwrite_same [of "q b * bs" c d] b by simp
    finally show ?thesis using 0 by simp
  next
    case (Suc k)
    have "inj_on q {Suc b..<Suc b + length cs}" using Cons.prems(3) by (rule inj_on_subset) auto
    then have "slice (q (Suc b + k) * bs) (q (Suc b + k) * bs + bs) (put_blocks bs q (Suc b) cs ?d) = cs ! k"
      using Cons.prems len Suc by (intro Cons.IH) auto
    then show ?thesis using Suc by simp
  qed
qed simp

lemma write_file_blocks_ok:
  assumes dev: "sector_device (dev env) valid contents"
    and lim: "\<And>fs' :: 'd ext2_fs. superblock fs' = sb \<Longrightarrow>
      indirect_pointer_limits fs' = (Ok (12, l1, l2) :: (ext2_error, nat \<times> nat \<times> nat) outcome)"
    and bs: "block_size sb = (Ok bs :: (ext2_error, nat) outcome)"
    and "valid (disk (fs :: 'd ext2_fs))" "superblock fs = sb" "b + length cs \<le> 12" "length (direct_ptrs file) = 12"
    and "\<And>i. b \<le> i \<Longrightarrow> i < b + length cs \<Longrightarrow> direct_ptrs file ! i = Some (q i) \<and> block_inside bs (contents (disk fs)) (q i)"
    and "\<forall>c \<in> set cs. length c = bs"
  shows "\<exists>fs'. write_file_blocks env ia b cs file new fs = (Ok (file, new), fs') \<and>
    superblock fs' = sb \<and> valid (disk fs') \<and> contents (disk fs') = put_blocks bs q b cs (contents (disk fs))"
  using assms(4-)
proof (induction cs arbitrary: b fs new)
  case (Cons c cs)
  have b: "direct_ptrs file ! b = Some (q b)" "block_inside bs (contents (disk fs)) (q b)" "length c = bs"
    using Cons.prems(5) [of b] Cons.prems(6) by auto
  obtain d' where d': "write_block env fs (q b) c = (Ok (length c), fs\<lparr>cache := cache_invalidate (q b) (cache fs), disk := d'\<rparr>)"
      (is "_ = (_, ?fs)") "valid d'" "contents d' = overwrite (q b * bs) c (contents (disk fs))"
    by (rule write_block_ok [OF dev, of fs bs "q b" c]) (use Cons.prems b bs in simp_all)
  have "length (contents d') = length (contents (disk fs))"
    using d'(3) b by (simp add: block_inside_def)
  then have "\<exists>fs'. write_file_blocks env ia (Suc b) cs file new ?fs = (Ok (file, new), fs') \<and>
      superblock fs' = sb \<and> valid (disk fs') \<and> contents (disk fs') = put_blocks bs q (Suc b) cs (contents (disk ?fs))"
    using Cons.prems d'(2) by (intro Cons.IH) (auto simp: block_inside_def)
  moreover have "provide_block env fs ia file b = (Ok (q b, file, 0), fs)"
    using resolve_direct(1) [OF lim [OF Cons.prems(2)], of b "file" env] Cons.prems(3,4) b(1)
    by (simp add: provide_block_def)
  ultimately show ?case using d' by simp
qed auto

lemma nth_chunks_exact:
  "0 < n \<Longrightarrow> length xs = m * n \<Longrightarrow> j < m \<Longrightarrow> chunks_exact n xs ! j = slice (j * n) (j * n + n) xs"
proof (induction m arbitrary: xs j)
  case (Suc m)
  have eq: "chunks_exact n xs = take n xs # chunks_exact n (drop n xs)"
    using Suc.prems by (subst chunks_exact.simps) simp
  show ?case
  proof (cases j)
    case 0
    then show ?thesis by (simp add: eq slice_def)
  next
    case (Suc i)
    then show ?thesis using Suc.IH [of "drop n xs" i] Suc.prems
      by (simp add: eq slice_def add.commute)
  qed
qed simp

text \<open>A file's blocks after some of them were replaced by the chunks of \<open>new\<close>.\<close>

lemma put_blocks_file_byte:
  assumes bs: "0 < bs" and new: "length new = m * bs"
    and q: "\<And>i. a \<le> i \<Longrightarrow> i < a + m \<Longrightarrow> Suc (q i) * bs \<le> length d" "inj_on q {a..<a + m}"
    and k: "a \<le> k div bs" "k div bs < a + m"
  shows "file_byte bs (put_blocks bs q a (chunks_exact bs new) d) (\<lambda>i. Some (q i)) k = new ! (k - a * bs)"
proof -
  let ?j = "k div bs - a"
  let ?d = "put_blocks bs q a (chunks_exact bs new) d"
  have cs: "length (chunks_exact bs new) = m" "\<forall>c \<in> set (chunks_exact bs new). length c = bs"
    using chunks_exact_concat [OF bs new] chunks_exact_lengths by auto
  have j: "?j < m" "a + ?j = k div bs" using k by simp_all
  have "slice (q (a + ?j) * bs) (q (a + ?j) * bs + bs) ?d = chunks_exact bs new ! ?j"
    by (rule put_blocks_same) (use cs q j in auto)
  also have "\<dots> = slice (?j * bs) (?j * bs + bs) new" using nth_chunks_exact [OF bs new j(1)] .
  finally have "slice (q (k div bs) * bs) (q (k div bs) * bs + bs) ?d = slice (?j * bs) (?j * bs + bs) new"
    by (simp only: j(2))
  moreover have "Suc ?j * bs \<le> m * bs" using j(1) by (intro mult_le_mono1) simp
  then have "slice (?j * bs) (?j * bs + bs) new ! (k mod bs) = new ! (?j * bs + k mod bs)"
    using bs new by (intro nth_slice) simp_all
  moreover have "?j * bs + k mod bs = k - a * bs"
  proof -
    have "k div bs * bs + k mod bs = k" by simp
    moreover have "a * bs \<le> k div bs * bs" using k(1) by (rule mult_le_mono1)
    ultimately show ?thesis by (simp add: diff_mult_distrib)
  qed
  ultimately show ?thesis by (simp add: file_byte_def block_bytes_def add.commute)
qed

lemma overwritten_byte:
  assumes bs: "0 < bs" and data: "data = concat (map (block_bytes bs d \<circ> (\<lambda>i. Some (q i))) [a..<a + m])"
    and len: "length data = m * bs" "rel + length buf \<le> m * bs"
    and ins: "\<And>i. a \<le> i \<Longrightarrow> i < a + m \<Longrightarrow> block_inside bs d (q i)" and inj: "inj_on q {a..<a + m}"
    and off: "offset = a * bs + rel" and k: "a \<le> k div bs" "k div bs < a + m"
  shows "file_byte bs (put_blocks bs q a (chunks_exact bs (overwrite rel buf data)) d) (\<lambda>i. Some (q i)) k =
    (if offset \<le> k \<and> k < offset + length buf then buf ! (k - offset) else file_byte bs d (\<lambda>i. Some (q i)) k)"
proof -
  have new: "length (overwrite rel buf data) = m * bs" using len by simp
  have "a * bs \<le> k div bs * bs" using k(1) by (rule mult_le_mono1)
  then have ak: "a * bs \<le> k" using div_times_less_eq_dividend [of k bs] by linarith
  have "k < Suc (k div bs) * bs" using dividend_less_div_times [OF bs, of k] by simp
  also have "\<dots> \<le> (a + m) * bs" using k by (intro mult_le_mono1) simp
  finally have km: "k - a * bs < m * bs" using ak by (simp add: add_mult_distrib)
  have "file_byte bs (put_blocks bs q a (chunks_exact bs (overwrite rel buf data)) d) (\<lambda>i. Some (q i)) k =
      overwrite rel buf data ! (k - a * bs)"
    by (rule put_blocks_file_byte [OF bs new _ inj k]) (use ins in \<open>auto simp: block_inside_def\<close>)
  moreover have "data ! (k - a * bs) = file_byte bs d (\<lambda>i. Some (q i)) (a * bs + (k - a * bs))"
    unfolding data by (rule blocks_file_byte [OF bs]) (use ins km in auto)
  ultimately show ?thesis using km ak len by (auto simp: off nth_overwrite)
qed

lemma write_to_file_run:
  fixes fs :: "'d ext2_fs"
  assumes dev: "sector_device (dev env) valid contents" "valid (disk fs)"
    and bs: "block_size (superblock fs) = (Ok bs :: (ext2_error, nat) outcome)" "0 < bs"
    and lim: "\<And>fs' :: 'd ext2_fs. superblock fs' = superblock fs \<Longrightarrow>
      indirect_pointer_limits fs' = (Ok (12, l1, l2) :: (ext2_error, nat \<times> nat \<times> nat) outcome)"
    and ok: "cache_ok env fs"
    and range: "a = offset div bs" "b = (offset + length buf - 1) div bs" "b < 12"
    and q: "length (direct_ptrs file) = 12"
      "\<And>i. a \<le> i \<Longrightarrow> i \<le> b \<Longrightarrow> direct_ptrs file ! i = Some (q i) \<and> block_inside bs (contents (disk fs)) (q i)"
    and len: "0 < length buf" "offset + length buf < 2 ^ 32" "offset + length buf \<le> inode_len (tr env) file"
    and m: "m = b - a + 1"
    and data: "data = concat (map (block_bytes bs (contents (disk fs)) \<circ> (\<lambda>i. Some (q i))) [a..<a + m])"
  shows "length data = m * bs" and "offset mod bs + length buf \<le> m * bs"
    and "\<exists>fs'. write_to_file env fs (ia, file) offset buf = (Ok (length buf, file), fs') \<and> valid (disk fs') \<and>
      contents (disk fs') = put_blocks bs q a (chunks_exact bs (overwrite (offset mod bs) buf data)) (contents (disk fs))"
proof -
  note br = block_range_ok [OF bs(2) len(1,2), folded range(1,2), folded m]
  show rel: "offset mod bs + length buf \<le> m * bs" using br(2) .
  have am: "i \<le> b" if "i < a + m" for i using that m br(3) by linarith
  show ld: "length data = m * bs" unfolding data by (rule length_data) (use q(2) am in auto)
  have "block_index_ref env fs file i = Ok (Some (q i))" if "a \<le> i" "i \<le> b" for i
    using resolve_direct(2) [OF lim [OF refl], of i "file" env] that q range(3) by simp
  then have "\<exists>fs'. read_blocks_from_inode env fs file a b (replicate (m * bs) 0) =
      (Ok (length (replicate (m * bs) (0 :: u8)), data), fs') \<and> same_fs fs fs' \<and> cache_ok env fs'"
    unfolding data m by (intro read_blocks_ok [OF dev bs(1) ok]) (use q(2) br(3) in auto)
  then obtain fs1 where fs1: "read_blocks_from_inode env fs file a b (replicate (m * bs) 0) = (Ok (m * bs, data), fs1)" "same_fs fs fs1"
    by auto
  define new where "new = overwrite (offset mod bs) buf data"
  have new: "length new = m * bs" using ld rel by (simp add: new_def)
  have cs: "length (chunks_exact bs new) = m" "\<forall>c \<in> set (chunks_exact bs new). length c = bs"
    using chunks_exact_concat [OF bs(2) new] chunks_exact_lengths by auto
  have "\<exists>fs2. write_file_blocks env ia a (chunks_exact bs new) file 0 fs1 = (Ok (file, 0), fs2) \<and>
      superblock fs2 = superblock fs \<and> valid (disk fs2) \<and>
      contents (disk fs2) = put_blocks bs q a (chunks_exact bs new) (contents (disk fs1))"
    by (rule write_file_blocks_ok [OF dev(1) lim bs(1)])
      (use same_fsD(1,2) [OF fs1(2)] dev(2) q cs range(3) am m br(3) in auto)
  then show "\<exists>fs'. write_to_file env fs (ia, file) offset buf = (Ok (length buf, file), fs') \<and> valid (disk fs') \<and>
      contents (disk fs') = put_blocks bs q a (chunks_exact bs (overwrite (offset mod bs) buf data)) (contents (disk fs))"
    using fs1(1) rel ld len same_fsD(2) [OF fs1(2)]
    by (auto simp: write_to_file_def bs(1) br(1) copy_into_def simp flip: new_def)
qed

section \<open>Properties\<close>

text \<open>A directory block of 32 bytes with one entry that has room for another.\<close>

definition demo_truncate :: truncate where
  "demo_truncate known w = known AND w"

definition demo_entry :: dir_entry where
  "demo_entry = \<lparr>de_inode = 12, de_total_size = 32, de_name_length = 2, de_type_indicator = Some 2, de_name_bytes = [97, 98]\<rparr>"

definition demo_block :: bytes where
  "demo_block = dir_entry_no_name_write (header_of True demo_entry) @ de_name_bytes demo_entry @ replicate 22 0"

lemma demo_truncate_ok: "truncate_ok demo_truncate"
  by (simp add: truncate_ok_def demo_truncate_def)

lemma demo_entry_ok: "entry_ok True demo_entry"
  by (simp add: entry_ok_def demo_entry_def)

lemma demo_block_length: "length demo_block = 32"
  by (simp add: demo_block_def length_header demo_entry_def)

lemma demo_entries: "entries_at demo_truncate True 32 demo_block 0 [demo_entry]"
proof -
  have "dir_entry_from demo_truncate True demo_block = (Ok demo_entry :: (ext2_error, dir_entry) outcome)"
    by (rule from_serialize [OF demo_truncate_ok demo_entry_ok])
      (simp_all add: demo_block_length, simp_all add: demo_block_def length_header demo_entry_def)
  then show ?thesis by (simp add: demo_entry_def)
qed

text \<open>C26: Reading back the bytes of a directory entry gives the entry, whatever follows them in the
  block, with and without the type byte.\<close>

theorem dir_entry_round_trip:
  assumes "truncate_ok trunc" and "entry_ok have_type e"
    and "entry_bytes (de_name_length e) \<le> 8 + de_name_length e + length rest"
  shows "\<exists>b. dir_entry_serialize have_type e = (Ok b :: (ext2_error, bytes) outcome) \<and> length b = 8 + de_name_length e \<and>
    dir_entry_from trunc have_type (b @ rest) = (Ok e :: (ext2_error, dir_entry) outcome)"
proof -
  let ?b = "dir_entry_no_name_write (header_of have_type e) @ de_name_bytes e"
  have len: "length ?b = 8 + de_name_length e" using assms(2) by (simp add: length_header entry_ok_def)
  then have "take (8 + length (de_name_bytes e)) (?b @ rest) = ?b"
    using assms(2) by (simp add: entry_ok_def del: append_assoc)
  then have "dir_entry_from trunc have_type (?b @ rest) = (Ok e :: (ext2_error, dir_entry) outcome)"
    using from_serialize [OF assms(1,2), of "?b @ rest"] assms(3) len by (simp del: append_assoc)
  then show ?thesis using serialize_ok [OF assms(2)] len by blast
qed

theorem dir_entry_round_trip_witness:
  "\<exists>b. dir_entry_serialize True demo_entry = (Ok b :: (ext2_error, bytes) outcome) \<and> length b = 10 \<and>
    dir_entry_from demo_truncate True (b @ [0, 0]) = (Ok demo_entry :: (ext2_error, dir_entry) outcome)"
  using dir_entry_round_trip [OF demo_truncate_ok demo_entry_ok, of "[0, 0]"] by (simp add: demo_entry_def)

text \<open>C25: Listing a block returns exactly the entries it holds, in order, and ends. With an entry of
  total size 0 the listing does not end.\<close>

theorem list_block_complete:
  assumes "entries_at trunc have_type bs data offset es"
  shows "list_block trunc have_type bs data offset acc = Some (Ok (acc @ es)) \<and>
    (dir_entry_from trunc have_type (drop k damaged) = (Ok e :: (ext2_error, dir_entry) outcome) \<and>
       de_total_size e = 0 \<and> k < bs - 8 \<longrightarrow> list_block trunc have_type bs damaged k acc = None)"
  using list_block_entries [OF assms] list_block_stuck by auto

theorem list_block_complete_witness:
  "list_block demo_truncate True 32 demo_block 0 [] = Some (Ok [demo_entry])"
  using list_block_complete [OF demo_entries, of "[]"] by simp

text \<open>C24: Adding an entry to a block splits the first entry with enough room: that entry keeps its
  bytes and shrinks to them, the new entry follows with the rest of its space, and every other
  entry stays. Without room in any entry the block is left to the next one.\<close>

theorem add_in_block_splits:
  assumes tr: "truncate_ok trunc" and len: "length data = bs"
    and es: "entries_at trunc have_type bs data 0 (es1 @ e # es2)"
    and k: "k = entry_bytes (length name)" and small: "\<And>x. x \<in> set (e # es1) \<Longrightarrow> k + entry_bytes (de_name_length x) < 2 ^ 16"
    and first: "list_all (\<lambda>x. \<not> has_room k x) es1" "has_room k e"
    and new: "new = \<lparr>de_inode = i, de_total_size = de_total_size e - entry_bytes (de_name_length e),
        de_name_length = length name, de_type_indicator = (if have_type then Some t else None), de_name_bytes = name\<rparr>"
    and new_ok: "entry_ok have_type new" and name: "name \<noteq> []"
  shows "\<exists>data'. add_in_block trunc have_type bs k name i t data 0 = Some (Ok (Some data')) \<and> length data' = bs \<and>
    entries_at trunc have_type bs data' 0
      (es1 @ e\<lparr>de_total_size := entry_bytes (de_name_length e)\<rparr> # new # es2)"
proof -
  let ?m = "sum_list (map de_total_size es1)"
  let ?sz = "entry_bytes (de_name_length e)"
  have e: "?m < bs - 8" "?m mod 4 = 0"
    "dir_entry_from trunc have_type (drop ?m data) = (Ok e :: (ext2_error, dir_entry) outcome)"
    "?m + de_total_size e \<le> bs" "entries_at trunc have_type bs data (?m + de_total_size e) es2"
    using entries_at_middle [OF es] by simp_all
  obtain data' where data': "insert_at have_type ?m e ?sz name i t data = (Ok data' :: (ext2_error, bytes) outcome)"
    "length data' = length data" "take ?m data' = take ?m data"
    "drop (?m + de_total_size e) data' = drop (?m + de_total_size e) data"
    "dir_entry_from trunc have_type (drop ?m data') = (Ok (e\<lparr>de_total_size := ?sz\<rparr>) :: (ext2_error, dir_entry) outcome)"
    "dir_entry_from trunc have_type (drop (?m + ?sz) data') = (Ok new :: (ext2_error, dir_entry) outcome)"
    using insert_at_ok [OF tr e(3) refl _ _ e(2) new new_ok] first(2) e(4) len k by (auto simp: has_room_def)
  have "add_in_block trunc have_type bs k name i t data 0 = Some (Ok (Some data'))"
    using add_in_block_skip [OF tr, of es1 k have_type bs data 0 "e # es2" name i t] small first es e data'(1)
      add_in_block_step [OF e(1,2) tr e(3), of k name i t] by (simp add: has_room_def)
  moreover have "entries_at trunc have_type bs data' ?m (e\<lparr>de_total_size := ?sz\<rparr> # new # es2)"
  proof -
    have "entries_at trunc have_type bs data' (?m + de_total_size e) es2"
      using entries_at_tail [OF data'(4)] e(5) by simp
    moreover have "entry_bytes (length name) + ?sz \<le> de_total_size e" using first(2) k by (simp add: has_room_def)
    moreover have "(?m + ?sz) mod 4 = 0" using e(2) entry_bytes_bounds(2) [of "de_name_length e"] by presburger
    moreover have "8 < entry_bytes (length name)"
      using entry_bytes_bounds(1) [of "length name"] name by (cases name) simp_all
    ultimately have "?m + ?sz < bs - 8" "entry_bytes (length name) \<le> de_total_size e - ?sz" "?m + ?sz \<le> bs"
      "?m + ?sz + (de_total_size e - ?sz) = ?m + de_total_size e"
      using e(4) by linarith+
    then show ?thesis using data'(5,6) e(1,2,4) \<open>(?m + ?sz) mod 4 = 0\<close> \<open>entries_at trunc have_type bs data' (?m + de_total_size e) es2\<close>
      by (simp add: new)
  qed
  then have "entries_at trunc have_type bs data' 0 (es1 @ e\<lparr>de_total_size := ?sz\<rparr> # new # es2)"
    by (rule entries_at_prefix [OF tr data'(2,3)]) (use es in simp_all)
  ultimately show ?thesis using data'(2) len by blast
qed

theorem add_in_block_splits_witness:
  "\<exists>data' new. add_in_block demo_truncate True 32 12 [99] 13 1 demo_block 0 = Some (Ok (Some data')) \<and>
    entries_at demo_truncate True 32 data' 0 [demo_entry\<lparr>de_total_size := 12\<rparr>, new] \<and>
    de_name_bytes new = [99] \<and> de_inode new = 13"
proof -
  let ?new = "\<lparr>de_inode = 13, de_total_size = 20, de_name_length = 1, de_type_indicator = Some 1, de_name_bytes = [99]\<rparr>"
  have "\<exists>data'. add_in_block demo_truncate True 32 12 [99] 13 1 demo_block 0 = Some (Ok (Some data')) \<and> length data' = 32 \<and>
    entries_at demo_truncate True 32 data' 0
      ([] @ demo_entry\<lparr>de_total_size := entry_bytes (de_name_length demo_entry)\<rparr> # ?new # [])"
    by (rule add_in_block_splits [OF demo_truncate_ok demo_block_length])
      (use demo_entries in simp, simp_all add: demo_entry_def has_room_def entry_ok_def)
  then show ?thesis by (auto simp: demo_entry_def intro!: exI [of _ ?new])
qed

text \<open>C20: Writing inside a file whose blocks are allocated replaces exactly the written bytes: every
  byte of these blocks reads as the new data inside the written range and as before outside it,
  the inode keeps its size and pointers, and every block that is not one of the file's written
  blocks stays as it is.\<close>

theorem write_to_file_in_place:
  fixes fs :: "'d ext2_fs"
  assumes dev: "sector_device (dev env) valid contents" "valid (disk fs)"
    and bs: "block_size (superblock fs) = (Ok bs :: (ext2_error, nat) outcome)" "0 < bs"
    and lim: "\<And>fs' :: 'd ext2_fs. superblock fs' = superblock fs \<Longrightarrow>
      indirect_pointer_limits fs' = (Ok (12, l1, l2) :: (ext2_error, nat \<times> nat \<times> nat) outcome)"
    and ok: "cache_ok env fs"
    and range: "a = offset div bs" "b = (offset + length buf - 1) div bs" "b < 12"
    and q: "length (direct_ptrs file) = 12"
      "\<And>i. a \<le> i \<Longrightarrow> i \<le> b \<Longrightarrow> direct_ptrs file ! i = Some (q i) \<and> block_inside bs (contents (disk fs)) (q i)"
      "inj_on q {a..b}"
    and len: "0 < length buf" "offset + length buf < 2 ^ 32" "offset + length buf \<le> inode_len (tr env) file"
  shows "\<exists>fs'. write_to_file env fs (ia, file) offset buf = (Ok (length buf, file), fs') \<and> valid (disk fs') \<and>
    (\<forall>k. a \<le> k div bs \<and> k div bs \<le> b \<longrightarrow>
      file_byte bs (contents (disk fs')) (\<lambda>i. Some (q i)) k =
        (if offset \<le> k \<and> k < offset + length buf then buf ! (k - offset)
         else file_byte bs (contents (disk fs)) (\<lambda>i. Some (q i)) k)) \<and>
    (\<forall>c. block_inside bs (contents (disk fs)) c \<and> c \<notin> q ` {a..b} \<longrightarrow>
      slice (c * bs) (c * bs + bs) (contents (disk fs')) = slice (c * bs) (c * bs + bs) (contents (disk fs)))"
proof -
  define m where "m = b - a + 1"
  define data where "data = concat (map (block_bytes bs (contents (disk fs)) \<circ> (\<lambda>i. Some (q i))) [a..<a + m])"
  define new where "new = overwrite (offset mod bs) buf data"
  let ?d = "contents (disk fs)"
  note run = write_to_file_run [OF dev bs lim ok range q(1,2) len m_def data_def, folded new_def]
  have ab: "a \<le> b" using block_range_ok(3) [OF bs(2) len(1,2)] range by simp
  then have am: "{a..<a + m} = {a..b}" by (auto simp: m_def)
  have new: "length new = m * bs" using run(1,2) by (simp add: new_def)
  have off: "offset = a * bs + offset mod bs" by (simp add: range(1))
  have ins: "block_inside bs ?d (q i)" if "a \<le> i" "i < a + m" for i
    using that q(2) [of i] am by (auto simp: set_eq_iff)
  have other: "slice (c * bs) (c * bs + bs) (put_blocks bs q a (chunks_exact bs new) ?d) = slice (c * bs) (c * bs + bs) ?d"
    if "block_inside bs ?d c" "c \<notin> q ` {a..b}" for c
  proof -
    have "c \<noteq> q i" if "a \<le> i" "i < a + m" for i
      using that \<open>c \<notin> q ` {a..b}\<close> unfolding am [symmetric] by auto
    then show ?thesis
      using put_blocks_other [of a "chunks_exact bs new" q bs ?d c] chunks_exact_concat [OF bs(2) new]
        chunks_exact_lengths [of _ bs new] that(1) ins by (auto simp: block_inside_def)
  qed
  have byte: "file_byte bs (put_blocks bs q a (chunks_exact bs new) ?d) (\<lambda>i. Some (q i)) k =
      (if offset \<le> k \<and> k < offset + length buf then buf ! (k - offset) else file_byte bs ?d (\<lambda>i. Some (q i)) k)"
    if "a \<le> k div bs" "k div bs \<le> b" for k
    unfolding new_def
    by (rule overwritten_byte [OF bs(2) data_def run(1,2) ins _ off]) (use q(3) am that ab m_def in auto)
  obtain fs' where "write_to_file env fs (ia, file) offset buf = (Ok (length buf, file), fs')" "valid (disk fs')"
      "contents (disk fs') = put_blocks bs q a (chunks_exact bs new) ?d"
    using run(3) [of ia] by blast
  then show ?thesis using byte other by (intro exI [of _ fs']) simp
qed

theorem write_to_file_in_place_witness:
  "\<exists>fs'. write_to_file demo_env demo_fs (11, demo_file) 3 [9, 9] = (Ok (2, demo_file), fs') \<and>
    file_byte 1024 (mem_data (disk fs')) (\<lambda>_. Some 2) 4 = 9 \<and>
    file_byte 1024 (mem_data (disk fs')) (\<lambda>_. Some 2) 5 = 7"
proof -
  have lim: "indirect_pointer_limits fs' = (Ok (12, 268, 65804) :: (ext2_error, nat \<times> nat \<times> nat) outcome)"
    if "superblock fs' = superblock demo_fs" for fs' :: "memory_block_device ext2_fs"
    using that by (simp add: indirect_pointer_limits_def demo_block_size u32_defs)
  have "\<exists>fs'. write_to_file demo_env demo_fs (11, demo_file) 3 [9, 9] = (Ok (length [9, 9 :: u8], demo_file), fs') \<and> mem_valid (disk fs') \<and>
    (\<forall>k. 0 \<le> k div 1024 \<and> k div 1024 \<le> 0 \<longrightarrow>
      file_byte 1024 (mem_data (disk fs')) (\<lambda>_. Some 2) k =
        (if 3 \<le> k \<and> k < 3 + length [9, 9 :: u8] then [9, 9] ! (k - 3)
         else file_byte 1024 (mem_data (disk demo_fs)) (\<lambda>_. Some 2) k)) \<and>
    (\<forall>c. block_inside 1024 (mem_data (disk demo_fs)) c \<and> c \<notin> (\<lambda>_. 2) ` {0..0 :: nat} \<longrightarrow>
      slice (c * 1024) (c * 1024 + 1024) (mem_data (disk fs')) = slice (c * 1024) (c * 1024 + 1024) (mem_data (disk demo_fs)))"
    by (rule write_to_file_in_place [OF demo_device demo_valid demo_block_size _ lim demo_cache_ok])
      (simp_all add: demo_len, simp_all add: direct_ptrs_def demo_file_def address_new_def block_inside_def demo_fs_def)
  moreover have "file_byte 1024 (mem_data (disk demo_fs)) (\<lambda>_. Some 2) 5 = 7"
    by (simp add: file_byte_def block_bytes_def slice_def demo_fs_def)
  ultimately show ?thesis by (fastforce simp: numeral_2_eq_2)
qed

end
