(* ===== verification/Ext2_File.thy ===== *)
theory Ext2_File
  imports Devfs Ext2_Dir
begin

text \<open>
  ext2 as a mounted file system (\<open>kernel/boot/src/file/ext2.rs\<close>): path lookup over the directories and
  the table of open handles. An open inode is never changed after it was created, so the \<open>Arc\<close> that
  handles of one path share is the value itself. The static handle counter is a field of the record,
  the kernel mounts one ext2 file system. At the end the file systems of the kernel together: the
  mount table holds an ext2 or a device file system behind the same trait.
\<close>

section \<open>Inodes\<close>

datatype vx_inner = RegularFileInner inode | DirectoryInner inode

record virtual_inode =
  vi_num :: nat
  vi_inner :: vx_inner

definition virtual_inode_try_new :: "truncate \<Rightarrow> nat \<Rightarrow> inode \<Rightarrow> virtual_inode option" where
  "virtual_inode_try_new trunc num i =
    (if inode_typ trunc i = TYPE_REGULAR_FILE then Some \<lparr>vi_num = num, vi_inner = RegularFileInner i\<rparr>
     else if inode_typ trunc i = TYPE_DIRECTORY then Some \<lparr>vi_num = num, vi_inner = DirectoryInner i\<rparr>
     else None)"

section \<open>Path lookup\<close>

text \<open>One component of \<open>find_inode_from\<close>; leaving the loop with \<open>return Ok(None)\<close> is the error \<open>None\<close>. A
  component has no separator, so the arm for it is the comparison with the root string.\<close>

definition find_step :: "('d, 'e) ext2_env \<Rightarrow> 'd ext2_fs \<Rightarrow> rstr \<Rightarrow> nat \<times> inode
    \<Rightarrow> (ext2_error option, nat \<times> inode) outcome option" where
  "find_step env fs component current =
    (if component = ROOT then Some Panic
     else if component = [46] then Some (Ok current)
     else if component = [46, 46] then Some Panic
     else if inode_typ (tr env) (snd current) \<noteq> TYPE_DIRECTORY then Some Panic
     else map_option (\<lambda>r. obind (map_err Some r) (\<lambda>entries.
       case List.find (\<lambda>e. from_utf8 (de_name_bytes e) = Some component) entries of
         None \<Rightarrow> Err None
       | Some found_entry \<Rightarrow> map_err Some (resolve_dir_entry env fs found_entry)))
       (list_dir env fs (snd current)))"

definition find_inode_from :: "('d, 'e) ext2_env \<Rightarrow> 'd ext2_fs \<Rightarrow> rstr \<Rightarrow> nat \<times> inode
    \<Rightarrow> (ext2_error, (nat \<times> inode) option) outcome option" where
  "find_inode_from env fs path starting_point =
    map_option (\<lambda>r. case r of
        Ok found \<Rightarrow> Ok (Some found)
      | Err None \<Rightarrow> Ok None
      | Err (Some e) \<Rightarrow> Err e
      | Panic \<Rightarrow> Panic)
    (for_names_opt (find_step env fs) (filenames_new path) starting_point)"

definition find_inode :: "('d, 'e) ext2_env \<Rightarrow> 'd ext2_fs \<Rightarrow> rstr \<Rightarrow> (ext2_error, (nat \<times> inode) option) outcome option" where
  "find_inode env fs path =
    (case read_root_inode env fs of
       Ok root \<Rightarrow> find_inode_from env fs path root
     | Err e \<Rightarrow> Some (Err e)
     | Panic \<Rightarrow> Some Panic)"

section \<open>The file system\<close>

text \<open>The \<open>BTreeMap\<close> of handles is the list of its entries in the order of the keys.\<close>

primrec handle_number :: "fs_handle \<Rightarrow> u64" where
  "handle_number (FsHandle k) = k"

type_synonym handle_table = "(fs_handle \<times> rstr \<times> virtual_inode) list"

record 'd virtual_ext2 =
  vx_fs :: "'d ext2_fs"
  vx_handles :: handle_table
  vx_counter :: u64

definition virtual_ext2_from :: "'d ext2_fs \<Rightarrow> 'd virtual_ext2" where
  "virtual_ext2_from fs = \<lparr>vx_fs = fs, vx_handles = [], vx_counter = 0\<rparr>"

definition table_insert :: "fs_handle \<Rightarrow> rstr \<times> virtual_inode \<Rightarrow> handle_table \<Rightarrow> handle_table" where
  "table_insert h v t = insort_key (handle_number \<circ> fst) (h, v) (filter (\<lambda>e. fst e \<noteq> h) t)"

text \<open>\<open>new_handle\<close>: \<open>FS_COUNTER.fetch_add(1)\<close>.\<close>

definition vx_open :: "('d, 'e) ext2_env \<Rightarrow> 'd virtual_ext2 \<Rightarrow> rstr \<Rightarrow> (open_error, fs_handle, 'd virtual_ext2) run option" where
  "vx_open env v path =
    (let handle = FsHandle (vx_counter v); v1 = v\<lparr>vx_counter := vx_counter v + 1\<rparr> in
     case List.find (\<lambda>e. fst (snd e) = path) (vx_handles v) of
       Some e \<Rightarrow> Some (Ok handle, v1\<lparr>vx_handles := table_insert handle (snd e) (vx_handles v)\<rparr>)
     | None \<Rightarrow>
         map_option (\<lambda>r. lift_pure (obind (map_err (\<lambda>_. NotFound) r) (\<lambda>found. ok_or found NotFound)) v (\<lambda>(num, found).
           lift_pure (unwrap (virtual_inode_try_new (tr env) num found)) v1 (\<lambda>i.
           (Ok handle, v1\<lparr>vx_handles := table_insert handle (path, i) (vx_handles v)\<rparr>))))
         (find_inode env (vx_fs v) path))"

definition vx_close :: "'d virtual_ext2 \<Rightarrow> fs_handle \<Rightarrow> (close_error, unit, 'd virtual_ext2) run" where
  "vx_close v h =
    (if map_of (vx_handles v) h = None then (Err NotOpen, v)
     else (Ok (), v\<lparr>vx_handles := filter (\<lambda>e. fst e \<noteq> h) (vx_handles v)\<rparr>))"

definition vx_read :: "('d, 'e) ext2_env \<Rightarrow> 'd virtual_ext2 \<Rightarrow> fs_handle \<Rightarrow> bytes \<Rightarrow> nat
    \<Rightarrow> (read_error, nat, bytes \<times> 'd virtual_ext2) run" where
  "vx_read env v h buf offset =
    (case map_of (vx_handles v) h of
       None \<Rightarrow> (Err (ReadFsError InvalidHandle), buf, v)
     | Some (_, i) \<Rightarrow>
         (case vi_inner i of
            DirectoryInner _ \<Rightarrow> (Err NotReadable, buf, v)
          | RegularFileInner f \<Rightarrow>
              (case read_from_file env (vx_fs v) f offset buf of
                 (Ok (n, buf'), fs) \<Rightarrow> (Ok n, buf', v\<lparr>vx_fs := fs\<rparr>)
               | (Err _, fs) \<Rightarrow> (Err ReadFailed, buf, v\<lparr>vx_fs := fs\<rparr>)
               | (Panic, fs) \<Rightarrow> (Panic, buf, v\<lparr>vx_fs := fs\<rparr>))))"

definition vx_write :: "'d virtual_ext2 \<Rightarrow> fs_handle \<Rightarrow> bytes \<Rightarrow> nat \<Rightarrow> (write_error, nat, 'd virtual_ext2) run" where
  "vx_write v h buf offset = (Panic, v)"

definition vx_stat :: "('d, 'e) ext2_env \<Rightarrow> 'd virtual_ext2 \<Rightarrow> fs_handle \<Rightarrow> vfs_stat
    \<Rightarrow> (stat_error, unit, vfs_stat \<times> 'd virtual_ext2) run" where
  "vx_stat env v h st =
    (case map_of (vx_handles v) h of
       None \<Rightarrow> (Err (StatFsError InvalidHandle), st, v)
     | Some (_, i) \<Rightarrow>
         (case vi_inner i of
            RegularFileInner f \<Rightarrow> (Ok (), st\<lparr>stat_size := inode_len (tr env) f\<rparr>, v)
          | DirectoryInner _ \<Rightarrow> (Panic, st, v)))"

definition vx_fsync :: "'d virtual_ext2 \<Rightarrow> fs_handle \<Rightarrow> (fsync_error, unit, 'd virtual_ext2) run" where
  "vx_fsync v h = (Ok (), v)"

definition virtual_ext2_methods :: "('d, 'e) ext2_env \<Rightarrow> 'd virtual_ext2 file_system" where
  "virtual_ext2_methods env = \<lparr>fs_open = vx_open env, fs_close = vx_close, fs_read = vx_read env, fs_write = vx_write,
     fs_stat = vx_stat env, fs_mmap = default_mmap, fs_ioctl = default_ioctl, fs_fsync = vx_fsync\<rparr>"

section \<open>Its handles\<close>

definition vx_handle_set :: "'d virtual_ext2 \<Rightarrow> fs_handle set" where
  "vx_handle_set v = fst ` set (vx_handles v)"

definition vx_valid :: "'d virtual_ext2 \<Rightarrow> bool" where
  "vx_valid v \<longleftrightarrow> (\<forall>h \<in> vx_handle_set v. handle_number h < vx_counter v)"

definition vx_exhausted :: "'d virtual_ext2 \<Rightarrow> bool" where
  "vx_exhausted v \<longleftrightarrow> vx_counter v = - 1"

lemma table_insert_keys: "fst ` set (table_insert h x t) = insert h (fst ` set t)"
  by (auto simp: table_insert_def set_insort_key)

lemma vx_handle_set_simps [simp]:
  "vx_handle_set (v\<lparr>vx_counter := k\<rparr>) = vx_handle_set v"
  "vx_handle_set (v\<lparr>vx_counter := k, vx_handles := table_insert h x (vx_handles v)\<rparr>) = insert h (vx_handle_set v)"
  "vx_handle_set (v\<lparr>vx_handles := filter (\<lambda>e. fst e \<noteq> h) (vx_handles v)\<rparr>) = vx_handle_set v - {h}"
  by (auto simp: vx_handle_set_def table_insert_keys)

lemma map_of_handle_set: "map_of (vx_handles v) h = None \<longleftrightarrow> h \<notin> vx_handle_set v"
  by (simp add: map_of_eq_None_iff vx_handle_set_def)

lemma counter_less: "(k :: u64) \<noteq> - 1 \<Longrightarrow> k < k + 1"
  using unatSuc [of k] by (simp add: word_less_nat_alt add.commute eq_neg_iff_add_eq_0)

lemma vx_open_table:
  assumes "vx_open env v p = Some (r, v')"
  shows "case r of
      Ok h \<Rightarrow> h = FsHandle (vx_counter v) \<and>
        (\<exists>x. v' = v\<lparr>vx_counter := vx_counter v + 1, vx_handles := table_insert h x (vx_handles v)\<rparr>)
    | _ \<Rightarrow> v' = v \<or> r = Panic \<and> v' = v\<lparr>vx_counter := vx_counter v + 1\<rparr>"
proof (cases "List.find (\<lambda>e. fst (snd e) = p) (vx_handles v)")
  case (Some e)
  then have "r = Ok (FsHandle (vx_counter v))"
      "v' = v\<lparr>vx_counter := vx_counter v + 1, vx_handles := table_insert (FsHandle (vx_counter v)) (snd e) (vx_handles v)\<rparr>"
    using assms by (simp_all add: vx_open_def Let_def)
  then show ?thesis by (simp only: outcome.case) blast
next
  case None
  then obtain found where found: "find_inode env (vx_fs v) p = Some found"
    using assms by (auto simp: vx_open_def Let_def)
  define res :: "(open_error, nat \<times> inode) outcome" where
    "res = obind (map_err (\<lambda>_. NotFound) found) (\<lambda>found. ok_or found NotFound)"
  have eq: "lift_pure res v (\<lambda>(num, found).
      lift_pure (unwrap (virtual_inode_try_new (tr env) num found)) (v\<lparr>vx_counter := vx_counter v + 1\<rparr>) (\<lambda>i.
      (Ok (FsHandle (vx_counter v)),
       v\<lparr>vx_counter := vx_counter v + 1, vx_handles := table_insert (FsHandle (vx_counter v)) (p, i) (vx_handles v)\<rparr>))) = (r, v')"
    using assms None found by (simp add: vx_open_def Let_def res_def)
  show ?thesis
  proof (cases res)
    case (Ok ni)
    show ?thesis
    proof (cases "virtual_inode_try_new (tr env) (fst ni) (snd ni)")
      case None
      then show ?thesis using eq Ok by (simp add: unwrap_def split: prod.splits)
    next
      case (Some i)
      then have "r = Ok (FsHandle (vx_counter v))"
          "v' = v\<lparr>vx_counter := vx_counter v + 1, vx_handles := table_insert (FsHandle (vx_counter v)) (p, i) (vx_handles v)\<rparr>"
        using eq Ok by (simp_all add: unwrap_def split: prod.splits)
      then show ?thesis by (simp only: outcome.case) blast
    qed
  qed (use eq in auto)
qed

lemma vx_open_ok:
  assumes "vx_valid v" "\<not> vx_exhausted v" "vx_open env v p = Some (Ok h, v')"
  shows "h \<notin> vx_handle_set v \<and> vx_handle_set v' = insert h (vx_handle_set v) \<and> vx_valid v'"
proof -
  obtain x where h: "h = FsHandle (vx_counter v)"
      "v' = v\<lparr>vx_counter := vx_counter v + 1, vx_handles := table_insert h x (vx_handles v)\<rparr>"
    using vx_open_table [OF assms(3)] by auto
  then show ?thesis
    using assms(1,2) counter_less [of "vx_counter v"]
    by (fastforce simp: vx_valid_def vx_exhausted_def dest: order.strict_trans)
qed

lemma vx_open_fail:
  assumes "vx_valid v" "\<not> vx_exhausted v" "vx_open env v p = Some (r, v')" "\<not> is_ok r"
  shows "vx_handle_set v' = vx_handle_set v \<and> vx_valid v'"
  using vx_open_table [OF assms(3)] assms(1,2,4) counter_less [of "vx_counter v"]
  by (cases r) (fastforce simp: vx_valid_def vx_exhausted_def dest: order.strict_trans)+

lemma vx_read_keeps:
  "vx_read env v h buf k = (r, buf', v') \<Longrightarrow> vx_handles v' = vx_handles v \<and> vx_counter v' = vx_counter v"
  by (auto simp: vx_read_def split: option.splits prod.splits vx_inner.splits outcome.splits)

interpretation vx: handle_provider "virtual_ext2_methods env" vx_handle_set vx_valid vx_exhausted
  for env :: "('d, 'e) ext2_env"
proof
  show "h \<notin> vx_handle_set f \<and> vx_handle_set f' = insert h (vx_handle_set f) \<and> vx_valid f'"
    if "vx_valid f" "\<not> vx_exhausted f" "fs_open (virtual_ext2_methods env) f p = Some (Ok h, f')" for f p h f'
    using vx_open_ok that by (simp add: virtual_ext2_methods_def)
  show "vx_handle_set f' = vx_handle_set f \<and> vx_valid f'"
    if "vx_valid f" "\<not> vx_exhausted f" "fs_open (virtual_ext2_methods env) f p = Some (ro, f')" "\<not> is_ok ro" for f p ro f'
    using vx_open_fail that by (simp add: virtual_ext2_methods_def)
  show "rc = (if h \<in> vx_handle_set f then Ok () else Err NotOpen) \<and> vx_handle_set f' = vx_handle_set f - {h} \<and>
      (vx_valid f \<longrightarrow> vx_valid f')"
    if "fs_close (virtual_ext2_methods env) f h = (rc, f')" for f h rc f'
    using that by (auto simp: virtual_ext2_methods_def vx_close_def map_of_handle_set vx_valid_def split: if_splits)
  show "vx_handle_set f' = vx_handle_set f \<and> (vx_valid f \<longrightarrow> vx_valid f')"
    if "fs_read (virtual_ext2_methods env) f h b k = (rr, b', f')" for f h b k rr b' f'
    using that vx_read_keeps [of env f h b k rr b' f'] by (simp add: virtual_ext2_methods_def vx_handle_set_def vx_valid_def)
qed (auto simp: virtual_ext2_methods_def vx_write_def vx_stat_def vx_fsync_def default_mmap_def default_ioctl_def
    split: option.splits prod.splits vx_inner.splits)

section \<open>The file systems of the kernel\<close>

text \<open>\<open>dyn FileSystem\<close>: a mounted file system is one of two implementations, and a method call goes to the
  methods of the one it is.\<close>

definition tag_state :: "('f \<Rightarrow> 'g) \<Rightarrow> 'r \<times> 'f \<Rightarrow> 'r \<times> 'g" where
  "tag_state k m = (case m of (r, f) \<Rightarrow> (r, k f))"

definition tag_buffer :: "('f \<Rightarrow> 'g) \<Rightarrow> 'r \<times> 'b \<times> 'f \<Rightarrow> 'r \<times> 'b \<times> 'g" where
  "tag_buffer k m = (case m of (r, b, f) \<Rightarrow> (r, b, k f))"

definition dyn_methods :: "'f file_system \<Rightarrow> 'g file_system \<Rightarrow> ('f + 'g) file_system" where
  "dyn_methods l r = \<lparr>
     fs_open = (\<lambda>s p. case s of Inl f \<Rightarrow> map_option (tag_state Inl) (fs_open l f p)
                             | Inr f \<Rightarrow> map_option (tag_state Inr) (fs_open r f p)),
     fs_close = (\<lambda>s h. case s of Inl f \<Rightarrow> tag_state Inl (fs_close l f h) | Inr f \<Rightarrow> tag_state Inr (fs_close r f h)),
     fs_read = (\<lambda>s h b k. case s of Inl f \<Rightarrow> tag_buffer Inl (fs_read l f h b k) | Inr f \<Rightarrow> tag_buffer Inr (fs_read r f h b k)),
     fs_write = (\<lambda>s h b k. case s of Inl f \<Rightarrow> tag_state Inl (fs_write l f h b k) | Inr f \<Rightarrow> tag_state Inr (fs_write r f h b k)),
     fs_stat = (\<lambda>s h st. case s of Inl f \<Rightarrow> tag_buffer Inl (fs_stat l f h st) | Inr f \<Rightarrow> tag_buffer Inr (fs_stat r f h st)),
     fs_mmap = (\<lambda>s h. case s of Inl f \<Rightarrow> tag_state Inl (fs_mmap l f h) | Inr f \<Rightarrow> tag_state Inr (fs_mmap r f h)),
     fs_ioctl = (\<lambda>s h q b. case s of Inl f \<Rightarrow> tag_buffer Inl (fs_ioctl l f h q b) | Inr f \<Rightarrow> tag_buffer Inr (fs_ioctl r f h q b)),
     fs_fsync = (\<lambda>s h. case s of Inl f \<Rightarrow> tag_state Inl (fs_fsync l f h) | Inr f \<Rightarrow> tag_state Inr (fs_fsync r f h))\<rparr>"

lemma tag_iff:
  "tag_state k m = (r, g) \<longleftrightarrow> (\<exists>f. m = (r, f) \<and> g = k f)"
  "tag_buffer k m' = (r, b, g) \<longleftrightarrow> (\<exists>f. m' = (r, b, f) \<and> g = k f)"
  by (auto simp: tag_state_def tag_buffer_def split: prod.splits)

text \<open>The promise about handles carries over to the choice of two implementations that keep it.\<close>

lemma handle_provider_dyn:
  assumes "handle_provider l hl vl el" and "handle_provider r hr vr er"
  shows "handle_provider (dyn_methods l r) (case_sum hl hr) (case_sum vl vr) (case_sum el er)"
proof (unfold_locales, goal_cases)
  case (1 f p h f')
  then show ?case
    using handle_provider.open_ok [OF assms(1)] handle_provider.open_ok [OF assms(2)]
    by (cases f) (auto simp: dyn_methods_def tag_iff)
next
  case (2 f p ro f')
  then show ?case
    using handle_provider.open_fail [OF assms(1)] handle_provider.open_fail [OF assms(2)]
    by (cases f) (auto simp: dyn_methods_def tag_iff)
next
  case (3 f h rc f')
  then show ?case
    by (cases f) (auto simp: dyn_methods_def tag_iff
        dest: handle_provider.close_ok [OF assms(1)] handle_provider.close_ok [OF assms(2)])
next
  case (4 f h b k rr b' f')
  then show ?case
    using handle_provider.read_keeps [OF assms(1)] handle_provider.read_keeps [OF assms(2)]
    by (cases f) (auto simp: dyn_methods_def tag_iff)
next
  case (5 f h b k rw f')
  then show ?case
    using handle_provider.write_keeps [OF assms(1)] handle_provider.write_keeps [OF assms(2)]
    by (cases f) (auto simp: dyn_methods_def tag_iff)
next
  case (6 f h st rs st' f')
  then show ?case
    using handle_provider.stat_keeps [OF assms(1)] handle_provider.stat_keeps [OF assms(2)]
    by (cases f) (auto simp: dyn_methods_def tag_iff)
next
  case (7 f h rm f')
  then show ?case
    using handle_provider.mmap_keeps [OF assms(1)] handle_provider.mmap_keeps [OF assms(2)]
    by (cases f) (auto simp: dyn_methods_def tag_iff)
next
  case (8 f h request b ri b' f')
  then show ?case
    using handle_provider.ioctl_keeps [OF assms(1)] handle_provider.ioctl_keeps [OF assms(2)]
    by (cases f) (auto simp: dyn_methods_def tag_iff)
next
  case (9 f h rf f')
  then show ?case
    using handle_provider.fsync_keeps [OF assms(1)] handle_provider.fsync_keeps [OF assms(2)]
    by (cases f) (auto simp: dyn_methods_def tag_iff)
qed

text \<open>The kernel mounts ext2 and the device file system.\<close>

type_synonym ('d, 'o) kernel_fs = "'d virtual_ext2 + ('o, 'd) dev_file dev_fs"

definition kernel_methods ::
  "('d, 'e) ext2_env \<Rightarrow> ('o \<Rightarrow> rstr \<Rightarrow> (unit, unit, 'o) run) \<Rightarrow> ('d, 'o) kernel_fs file_system" where
  "kernel_methods env ws = dyn_methods (virtual_ext2_methods env) (dev_fs_methods (dev_file_methods ws (dev env)))"

definition kernel_handles :: "('d, 'o) kernel_fs \<Rightarrow> fs_handle set" where
  "kernel_handles = case_sum vx_handle_set dev_handles"

definition kernel_valid :: "('d, 'o) kernel_fs \<Rightarrow> bool" where
  "kernel_valid = case_sum vx_valid dev_valid"

definition kernel_exhausted :: "('d, 'o) kernel_fs \<Rightarrow> bool" where
  "kernel_exhausted = case_sum vx_exhausted dev_exhausted"

interpretation kernel: handle_provider "kernel_methods env ws" kernel_handles kernel_valid kernel_exhausted
  for env :: "('d, 'e) ext2_env" and ws :: "'o \<Rightarrow> rstr \<Rightarrow> (unit, unit, 'o) run"
  unfolding kernel_methods_def kernel_handles_def kernel_valid_def kernel_exhausted_def
  by (rule handle_provider_dyn [OF vx.handle_provider_axioms dev.handle_provider_axioms])

section \<open>Open nodes and handles\<close>

text \<open>C34: Over every history of mounts, unmounts, opens, node operations and drops with the file systems of the
  kernel, every mount point is an absolute path with a live file system, the handles open in a mounted
  file system are exactly those of its open nodes, each once, so none leaks and none is closed early,
  and a node whose file system was unmounted fails with an error and changes nothing.\<close>

theorem kernel_handles_exact:
  assumes "vfs_history (kernel_methods env ws) (\<lambda>f. kernel_valid f \<and> kernel_handles f = {}) kernel_exhausted v ns"
  shows "(\<forall>p a. file_systems v p = Some a \<longrightarrow> is_absolute p \<and> (\<exists>f. fs_heap v a = Some f)) \<and>
    (\<forall>a f. fs_heap v a = Some f \<longrightarrow> kernel_handles f = set (handles_at a ns) \<and> distinct (handles_at a ns)) \<and>
    (\<forall>n \<in> set ns. fs_heap v (node_fs n) = None \<longrightarrow>
       node_read (kernel_methods env ws) n buf k v = ((Err (ReadFsError FileSystemNotOpen), buf), v) \<and>
       node_write (kernel_methods env ws) n buf k v = (Err (WriteFsError FileSystemNotOpen), v) \<and>
       node_drop (kernel_methods env ws) n v = (Ok (), v))"
proof -
  note exact = kernel.exact_history [OF assms]
  show ?thesis
  proof (intro conjI allI ballI impI)
    show "is_absolute p" "\<exists>f. fs_heap v a = Some f" if "file_systems v p = Some a" for p a
      using that vfs_wfD(1,2) [OF nodes_exactD(1) [OF exact], of p a] by simp_all
    show "kernel_handles f = set (handles_at a ns)" "distinct (handles_at a ns)" if "fs_heap v a = Some f" for a f
      using nodes_exactD(3) [OF exact that] by simp_all
  qed (simp_all add: node_read_def node_write_def node_drop_def with_upgraded_def)
qed

text \<open>The device file system at \<open>/dev\<close>: opening \<open>/dev/null\<close>, and opening \<open>/dev\<close> itself.\<close>

definition dev_point :: rstr where
  "dev_point = [47, 100, 101, 118]"

definition dev_null :: rstr where
  "dev_null = [47, 100, 101, 118, 47, 110]"

definition demo_dev :: "(nat, unit) dev_file dev_fs" where
  "demo_dev = \<lparr>dev_root = DevNode [47] (DirectoryNode [DevNode [110] (FileNode (Ok Null))]),
     open_files = Map.empty, fs_counter = 0\<rparr>"

definition demo_vfs :: "(unit, nat) kernel_fs vfs" where
  "demo_vfs = \<lparr>file_systems = [dev_point \<mapsto> 0], fs_heap = [0 \<mapsto> Inr demo_dev], next_arc = 1\<rparr>"

lemma demo_mounts:
  "find_mount [dev_point \<mapsto> (0 :: nat)] dev_point = Some (Ok (dev_point, 0))"
  "find_mount [dev_point \<mapsto> (0 :: nat)] dev_null = Some (Ok (dev_point, 0))"
proof -
  have "parent dev_null = Ok dev_point"
    by (simp add: parent_def dev_null_def dev_point_def FILEPATH_SEPARATOR_def utf8_len_def eval_nat_numeral)
  moreover have "dev_null \<noteq> dev_point" by (simp add: dev_null_def dev_point_def)
  ultimately show "find_mount [dev_point \<mapsto> (0 :: nat)] dev_null = Some (Ok (dev_point, 0))"
    by (simp add: find_mount_def) (subst find_mount_loop.simps, simp)
qed (simp add: find_mount_def)

lemma demo_resolve_node:
  "resolve_node (dev_root demo_dev) [47, 110] = Ok (DevNode [110] (FileNode (Ok Null)))"
  "resolve_node (dev_root demo_dev) [] = Ok (dev_root demo_dev)"
  by (simp_all add: resolve_components components_def FILEPATH_SEPARATOR_def resolve_step_def demo_dev_def
      lookup_child_def ok_or_def)

text \<open>Opening the mount point of the device file system panics: the rest of the path is empty, which is the
  root directory, and a directory cannot be opened.\<close>

lemma open_device_root_panics:
  "vfs_open (kernel_methods env ws) dev_point demo_vfs = Some (Panic, demo_vfs)"
  using demo_resolve_node(2)
  by (simp add: vfs_open_def demo_vfs_def demo_mounts strip_prefix_def kernel_methods_def dyn_methods_def
      dev_fs_methods_def dev_open_def tag_state_def)
    (simp add: demo_dev_def dev_point_def ROOT_def)

definition demo_ext2_env :: "(unit, unit) ext2_env" where
  "demo_ext2_env = \<lparr>dev = \<lparr>sector_size = (\<lambda>_. 512), sector_count = (\<lambda>_. 0), read_sector = (\<lambda>d i n. Err ()),
     write_sector = (\<lambda>d i b. (Err (), d))\<rparr>, tr = (\<lambda>m x. m AND x)\<rparr>"

abbreviation demo_methods :: "(unit, nat) kernel_fs file_system" where
  "demo_methods \<equiv> kernel_methods demo_ext2_env (\<lambda>out s. (Ok (), out))"

theorem kernel_handles_exact_witness:
  "\<exists>v f. vfs_open demo_methods dev_null demo_vfs =
      Some (Ok \<lparr>node_path = dev_null, node_handle = FsHandle 0, node_fs = 0\<rparr>, v) \<and>
    vfs_history demo_methods (\<lambda>f. kernel_valid f \<and> kernel_handles f = {}) kernel_exhausted v
      [\<lparr>node_path = dev_null, node_handle = FsHandle 0, node_fs = 0\<rparr>] \<and>
    fs_heap v 0 = Some f \<and> kernel_handles f = {FsHandle 0}"
proof -
  let ?H = "vfs_history demo_methods (\<lambda>f. kernel_valid f \<and> kernel_handles f = {}) kernel_exhausted"
  let ?n = "\<lparr>node_path = dev_null, node_handle = FsHandle 0, node_fs = 0\<rparr>"
  have "?H (snd (mount dev_point (Inr demo_dev) vfs_new)) []"
    by (rule vfs_history.do_mount [OF vfs_history.start])
      (simp_all add: dev_point_def is_absolute_def FILEPATH_SEPARATOR_def kernel_valid_def kernel_handles_def
        dev_valid_def dev_handles_def demo_dev_def)
  then have H: "?H demo_vfs []" by (simp add: demo_vfs_def mount_def vfs_new_def)
  obtain d where d: "fs_open demo_methods (Inr demo_dev) [47, 110] = Some (Ok (FsHandle 0), Inr d)"
    using demo_resolve_node(1)
    by (simp add: kernel_methods_def dyn_methods_def dev_fs_methods_def dev_open_def tag_state_def Let_def)
      (simp add: demo_dev_def)
  have strip: "strip_prefix dev_null dev_point = Some [47, 110]" "dev_point \<noteq> ROOT"
    by (simp_all add: strip_prefix_def dev_null_def dev_point_def ROOT_def)
  obtain v where v: "vfs_open demo_methods dev_null demo_vfs = Some (Ok ?n, v)" "\<exists>f. fs_heap v 0 = Some f"
    by (simp add: vfs_open_def demo_vfs_def demo_mounts strip d)
  have "?H v (case Ok ?n :: (open_error, vfs_node) outcome of Ok n \<Rightarrow> [n] | _ \<Rightarrow> [])"
    by (rule vfs_history.do_open [OF H _ v(1)])
      (auto simp: demo_vfs_def kernel_exhausted_def dev_exhausted_def demo_dev_def split: if_splits)
  then have hist: "?H v [?n]" by simp
  from kernel_handles_exact [OF this] v hist show ?thesis by (auto simp: handles_at_def)
qed

end
