(* ===== verification/Exec_Stack.thy ===== *)
theory Exec_Stack
  imports Muffin_Prelude
begin

text \<open>
  The stack a new program starts on (\<open>kernel/syscall/src/exec.rs\<close>): the argument count, the pointers to the
  argument and environment strings and the strings themselves, written into the top of a byte slice.

  Shown here: the exact result and contents for every input, and that nothing is written when they do
  not fit.
\<close>

section \<open>The initial stack\<close>

definition WORD :: nat where
  "WORD = 8"

definition STACK_ALIGN :: nat where
  "STACK_ALIGN = 16"

text \<open>\<open>stack.get_mut(a..b)?.copy_from_slice(ys)\<close>, with ranges of the length of \<open>ys\<close>.\<close>

definition copy_get :: "nat \<Rightarrow> nat \<Rightarrow> bytes \<Rightarrow> bytes \<Rightarrow> bytes opt_outcome" where
  "copy_get a b ys stack =
    (if \<not> (a \<le> b \<and> b \<le> length stack) then Err ()
     else if b - a \<noteq> length ys then Panic else Ok (overwrite a ys stack))"

definition put_word :: "nat \<Rightarrow> nat \<Rightarrow> nat \<Rightarrow> bytes \<Rightarrow> (unit, unit, bytes) run" where
  "put_word base addr v stack =
    lift_pure (ok_or (checked_sub addr base) ()) stack (\<lambda>at.
    lift_pure (ok_or (checked_add at WORD) ()) stack (\<lambda>fin.
    lift_pure (copy_get at fin (le_bytes WORD v) stack) stack (\<lambda>stack. (Ok (), stack))))"

primrec strings_total :: "bytes list \<Rightarrow> nat \<Rightarrow> nat option" where
  "strings_total [] n = Some n"
| "strings_total (s # ss) n =
    Option.bind (checked_add n (length s)) (\<lambda>n. Option.bind (checked_add n 1) (strings_total ss))"

text \<open>The inner loop over one group: the addresses of the next word and of the next string.\<close>

primrec put_strings :: "nat \<Rightarrow> bytes list \<Rightarrow> nat \<Rightarrow> nat \<Rightarrow> bytes \<Rightarrow> (unit, nat \<times> nat, bytes) run" where
  "put_strings base [] word_addr string_addr stack = (Ok (word_addr, string_addr), stack)"
| "put_strings base (s # ss) word_addr string_addr stack =
    sbind (put_word base word_addr string_addr stack) (\<lambda>_ stack.
    lift_pure (unwrap (checked_add word_addr WORD)) stack (\<lambda>word_addr.
    lift_pure (unwrap (checked_sub string_addr base)) stack (\<lambda>at.
    lift_pure (unwrap (checked_add at (length s))) stack (\<lambda>fin.
    lift_pure (copy_get at fin s stack) stack (\<lambda>stack.
    lift_pure (if fin < length stack then Ok (stack[fin := 0]) else Err ()) stack (\<lambda>stack.
    lift_pure (unwrap (checked_add string_addr (length s + 1))) stack (\<lambda>string_addr.
    put_strings base ss word_addr string_addr stack)))))))"

definition put_group :: "nat \<Rightarrow> bytes list \<Rightarrow> nat \<Rightarrow> nat \<Rightarrow> bytes \<Rightarrow> (unit, nat \<times> nat, bytes) run" where
  "put_group base strings word_addr string_addr stack =
    sbind (put_strings base strings word_addr string_addr stack) (\<lambda>(word_addr, string_addr) stack.
    sbind (put_word base word_addr 0 stack) (\<lambda>_ stack.
    lift_pure (unwrap (checked_add word_addr WORD)) stack (\<lambda>word_addr. (Ok (word_addr, string_addr), stack))))"

text \<open>The checks before the first write: the length of the strings, the lowest address of the stack and
  the new stack pointer; clearing the low bits is rounding down to the alignment.\<close>

definition stack_plan :: "bytes \<Rightarrow> nat \<Rightarrow> bytes list \<Rightarrow> bytes list \<Rightarrow> (nat \<times> nat \<times> nat) option" where
  "stack_plan stack stack_top argv envp =
    Option.bind (strings_total (argv @ envp) 0) (\<lambda>strings_len.
    Option.bind (checked_add (length argv) (length envp)) (\<lambda>n.
    Option.bind (checked_add n 5) (\<lambda>words.
    Option.bind (checked_mul words WORD) (\<lambda>pointers_len.
    Option.bind (checked_sub stack_top (length stack)) (\<lambda>base.
    Option.bind (checked_sub stack_top strings_len) (\<lambda>a.
    Option.bind (checked_sub a pointers_len) (\<lambda>b.
    let rsp = b div STACK_ALIGN * STACK_ALIGN in
    if rsp < base then None else Some (strings_len, base, rsp))))))))"

definition build_initial_stack :: "bytes \<Rightarrow> nat \<Rightarrow> bytes list \<Rightarrow> bytes list \<Rightarrow> (unit, nat, bytes) run" where
  "build_initial_stack stack stack_top argv envp =
    lift_pure (ok_or (stack_plan stack stack_top argv envp) ()) stack (\<lambda>(strings_len, base, rsp).
    lift_pure (unwrap (checked_sub stack_top strings_len)) stack (\<lambda>string_addr.
    sbind (put_word base rsp (length argv) stack) (\<lambda>_ stack.
    lift_pure (unwrap (checked_add rsp WORD)) stack (\<lambda>word_addr.
    sbind (put_group base argv word_addr string_addr stack) (\<lambda>(word_addr, string_addr) stack.
    sbind (put_group base envp word_addr string_addr stack) (\<lambda>(word_addr, string_addr) stack.
    sbind (put_word base word_addr 0 stack) (\<lambda>_ stack.
    lift_pure (unwrap (checked_add word_addr WORD)) stack (\<lambda>word_addr.
    sbind (put_word base word_addr 0 stack) (\<lambda>_ stack. (Ok rsp, stack))))))))))"

section \<open>The layout\<close>

text \<open>The bytes of the strings, each with its terminating zero, and the addresses at which they start.\<close>

definition string_bytes :: "bytes list \<Rightarrow> bytes" where
  "string_bytes ss = concat (map (\<lambda>s. s @ [0]) ss)"

primrec string_addrs :: "nat \<Rightarrow> bytes list \<Rightarrow> nat list" where
  "string_addrs a [] = []"
| "string_addrs a (s # ss) = a # string_addrs (a + length s + 1) ss"

definition word_bytes :: "nat list \<Rightarrow> bytes" where
  "word_bytes ws = concat (map (le_bytes WORD) ws)"

declare WORD_def [simp]

lemma string_bytes_simps [simp]:
  "string_bytes [] = []" "string_bytes (s # ss) = s @ [0] @ string_bytes ss"
  "string_bytes (ss @ ts) = string_bytes ss @ string_bytes ts"
  by (simp_all add: string_bytes_def)

lemma word_bytes_simps [simp]:
  "word_bytes [] = []" "word_bytes (w # ws) = le_bytes WORD w @ word_bytes ws"
  "word_bytes (ws @ vs) = word_bytes ws @ word_bytes vs"
  by (simp_all add: word_bytes_def)

lemma length_word_bytes [simp]: "length (word_bytes ws) = 8 * length ws"
  by (induction ws) (simp_all add: WORD_def)

lemma length_string_addrs [simp]: "length (string_addrs a ss) = length ss"
  by (induction ss arbitrary: a) simp_all

lemma strings_total_Some:
  "n < U64_LIMIT \<Longrightarrow> strings_total ss n = (if n + length (string_bytes ss) < U64_LIMIT then Some (n + length (string_bytes ss)) else None)"
proof (induction ss arbitrary: n)
  case (Cons s ss)
  then show ?case by (auto simp: checked_add_def)
qed simp

lemma overwrite_commute:
  assumes "a + length xs \<le> b" and "b + length ys \<le> length zs"
  shows "overwrite b ys (overwrite a xs zs) = overwrite a xs (overwrite b ys zs)"
  using assms by (intro nth_equalityI) (auto simp: nth_overwrite)

lemma put_word_ok:
  assumes "i + 8 \<le> length stack" and "length stack < U64_LIMIT"
  shows "put_word base (base + i) v stack = (Ok (), overwrite i (le_bytes WORD v) stack)"
  using assms by (simp add: put_word_def copy_get_def ok_or_def checked_add_def checked_sub_def WORD_def)

lemma put_string_eq:
  assumes "j + length s + 1 \<le> length stack"
  shows "(overwrite j s stack)[j + length s := 0] = overwrite j (s @ [0]) stack"
  using assms by (intro nth_equalityI) (auto simp: nth_overwrite nth_list_update nth_append less_Suc_eq)

lemma put_strings_ok:
  assumes "i + 8 * length ss \<le> j" and "j + length (string_bytes ss) \<le> length stack"
    and "base + length stack < U64_LIMIT"
  shows "put_strings base ss (base + i) (base + j) stack =
    (Ok (base + (i + 8 * length ss), base + (j + length (string_bytes ss))),
     overwrite i (word_bytes (string_addrs (base + j) ss)) (overwrite j (string_bytes ss) stack))"
  using assms
proof (induction ss arbitrary: i j stack)
  case (Cons s ss)
  define stack1 where "stack1 = overwrite j (s @ [0]) (overwrite i (le_bytes WORD (base + j)) stack)"
  have len: "length stack1 = length stack" using Cons.prems by (simp add: stack1_def WORD_def)
  have "put_strings base (s # ss) (base + i) (base + j) stack =
      put_strings base ss (base + (i + 8)) (base + (j + length s + 1)) stack1"
    using Cons.prems put_word_ok [of i stack base "base + j"]
      put_string_eq [of j s "overwrite i (le_bytes WORD (base + j)) stack"]
    by (simp add: copy_get_def unwrap_def checked_add_def checked_sub_def WORD_def stack1_def add.assoc)
  also have "\<dots> = (Ok (base + (i + 8 + 8 * length ss), base + (j + length s + 1 + length (string_bytes ss))),
      overwrite (i + 8) (word_bytes (string_addrs (base + (j + length s + 1)) ss))
        (overwrite (j + length s + 1) (string_bytes ss) stack1))"
    using Cons.prems len by (intro Cons.IH) simp_all
  also have "overwrite (j + length s + 1) (string_bytes ss) stack1 =
      overwrite j (string_bytes (s # ss)) (overwrite i (le_bytes WORD (base + j)) stack)"
    using Cons.prems overwrite_overwrite_append [of j "s @ [0]" "string_bytes ss" "overwrite i (le_bytes WORD (base + j)) stack"]
    by (simp add: stack1_def WORD_def add.assoc)
  also have "\<dots> = overwrite i (le_bytes WORD (base + j)) (overwrite j (string_bytes (s # ss)) stack)"
    using Cons.prems by (intro overwrite_commute) (simp_all add: WORD_def)
  also have "overwrite (i + 8) (word_bytes (string_addrs (base + (j + length s + 1)) ss)) \<dots> =
      overwrite i (word_bytes (string_addrs (base + j) (s # ss))) (overwrite j (string_bytes (s # ss)) stack)"
    using Cons.prems overwrite_overwrite_append [of i "le_bytes WORD (base + j)"
        "word_bytes (string_addrs (base + (j + length s + 1)) ss)" "overwrite j (string_bytes (s # ss)) stack"]
    by (simp add: WORD_def add.assoc)
  finally show ?case by (simp add: add.assoc)
qed simp

lemma put_group_ok:
  assumes "i + 8 * (length ss + 1) \<le> j" and "j + length (string_bytes ss) \<le> length stack"
    and "base + length stack < U64_LIMIT"
  shows "put_group base ss (base + i) (base + j) stack =
    (Ok (base + (i + 8 * (length ss + 1)), base + (j + length (string_bytes ss))),
     overwrite i (word_bytes (string_addrs (base + j) ss @ [0])) (overwrite j (string_bytes ss) stack))"
proof -
  let ?S = "overwrite j (string_bytes ss) stack" and ?W = "word_bytes (string_addrs (base + j) ss)"
  have len: "length (overwrite i ?W ?S) = length stack" using assms by simp
  have "put_strings base ss (base + i) (base + j) stack =
      (Ok (base + (i + 8 * length ss), base + (j + length (string_bytes ss))), overwrite i ?W ?S)"
    using assms by (intro put_strings_ok) simp_all
  moreover have "put_word base (base + (i + 8 * length ss)) 0 (overwrite i ?W ?S) =
      (Ok (), overwrite (i + 8 * length ss) (le_bytes WORD 0) (overwrite i ?W ?S))"
    using assms len by (intro put_word_ok) simp_all
  moreover have "overwrite (i + 8 * length ss) (le_bytes WORD 0) (overwrite i ?W ?S) =
      overwrite i (?W @ le_bytes WORD 0) ?S"
    using assms overwrite_overwrite_append [of i ?W "le_bytes WORD 0" ?S] by (simp add: WORD_def)
  ultimately show ?thesis
    using assms by (simp add: put_group_def unwrap_def checked_add_def WORD_def add.assoc)
qed

text \<open>Writing the next words and the next strings extends both blocks.\<close>

lemma overwrite_extend:
  assumes "i + length (W @ V) \<le> j" and "j + length (S @ T) \<le> length stack"
  shows "overwrite (i + length W) V (overwrite (j + length S) T (overwrite i W (overwrite j S stack))) =
    overwrite i (W @ V) (overwrite j (S @ T) stack)"
proof -
  have "overwrite (j + length S) T (overwrite i W (overwrite j S stack)) =
      overwrite i W (overwrite (j + length S) T (overwrite j S stack))"
    using assms by (intro overwrite_commute) simp_all
  also have "overwrite (j + length S) T (overwrite j S stack) = overwrite j (S @ T) stack"
    using assms by (intro overwrite_overwrite_append) simp
  finally show ?thesis
    using assms overwrite_overwrite_append [of i W V "overwrite j (S @ T) stack"] by simp
qed

definition entry_words :: "nat \<Rightarrow> bytes list \<Rightarrow> bytes list \<Rightarrow> nat list" where
  "entry_words a argv envp = length argv # string_addrs a argv @ [0] @
     string_addrs (a + length (string_bytes argv)) envp @ [0, 0, 0]"

lemma length_entry_words [simp]: "length (entry_words a argv envp) = length argv + length envp + 5"
  by (simp add: entry_words_def)

lemma put_all_ok:
  assumes "i + 8 * (length argv + length envp + 5) \<le> j"
    and "j + length (string_bytes (argv @ envp)) \<le> length stack" and "base + length stack < U64_LIMIT"
    and "length argv < U64_LIMIT"
  shows "sbind (put_word base (base + i) (length argv) stack) (\<lambda>_ stack.
    lift_pure (unwrap (checked_add (base + i) WORD)) stack (\<lambda>word_addr.
    sbind (put_group base argv word_addr (base + j) stack) (\<lambda>(word_addr, string_addr) stack.
    sbind (put_group base envp word_addr string_addr stack) (\<lambda>(word_addr, string_addr) stack.
    sbind (put_word base word_addr 0 stack) (\<lambda>_ stack.
    lift_pure (unwrap (checked_add word_addr WORD)) stack (\<lambda>word_addr.
    sbind (put_word base word_addr 0 stack) (\<lambda>_ stack. (Ok (base + i), stack)))))))) =
    (Ok (base + i), overwrite i (word_bytes (entry_words (base + j) argv envp))
       (overwrite j (string_bytes (argv @ envp)) stack))"
proof -
  define W0 where "W0 = le_bytes WORD (length argv)"
  define W1 where "W1 = word_bytes (string_addrs (base + j) argv @ [0])"
  define W2 where "W2 = word_bytes (string_addrs (base + (j + length (string_bytes argv))) envp @ [0])"
  define Z where "Z = le_bytes WORD 0"
  define S1 where "S1 = string_bytes argv"
  define S2 where "S2 = string_bytes envp"
  define mk where "mk = (\<lambda>W S. overwrite i W (overwrite j S stack))"
  note lens = W0_def W1_def W2_def Z_def WORD_def
  have [simp]: "length W0 = 8" "length W1 = 8 * (length argv + 1)" "length W2 = 8 * (length envp + 1)" "length Z = 8"
    by (simp_all add: lens)
  have fit: "j + length (S1 @ S2) \<le> length stack" using assms(2) by (simp add: S1_def S2_def)
  have lenmk [simp]: "i + length W \<le> j \<Longrightarrow> j + length S \<le> length stack \<Longrightarrow> length (mk W S) = length stack" for W S
    by (simp add: mk_def)
  have p0: "put_word base (base + i) (length argv) stack = (Ok (), mk W0 [])"
    using assms put_word_ok [of i stack base "length argv"] by (simp add: mk_def W0_def)
  have p1: "put_group base argv (base + (i + 8)) (base + j) (mk W0 []) =
      (Ok (base + (i + 8 + 8 * (length argv + 1)), base + (j + length S1)), mk (W0 @ W1) S1)"
    using assms fit put_group_ok [of "i + 8" argv j "mk W0 []" base] overwrite_extend [of i W0 W1 j "[]" S1 stack]
    by (simp add: S1_def W1_def mk_def)
  have p2: "put_group base envp (base + (i + 8 + 8 * (length argv + 1))) (base + (j + length S1)) (mk (W0 @ W1) S1) =
      (Ok (base + (i + 8 + 8 * (length argv + 1) + 8 * (length envp + 1)), base + (j + length S1 + length S2)),
       mk ((W0 @ W1) @ W2) (S1 @ S2))"
    using assms fit put_group_ok [of "i + 8 + 8 * (length argv + 1)" envp "j + length S1" "mk (W0 @ W1) S1" base]
      overwrite_extend [of i "W0 @ W1" W2 j S1 S2 stack]
    by (simp add: S1_def S2_def W2_def mk_def add.assoc)
  have zero: "put_word base (base + (i + length W)) 0 (mk W (S1 @ S2)) = (Ok (), mk (W @ Z) (S1 @ S2))"
    if "i + length W + 8 \<le> j" for W
    using that assms fit put_word_ok [of "i + length W" "mk W (S1 @ S2)" base 0]
      overwrite_overwrite_append [of i W Z "overwrite j (S1 @ S2) stack"]
    by (simp add: Z_def mk_def)
  have W: "((W0 @ W1) @ W2 @ Z) @ Z = word_bytes (entry_words (base + j) argv envp)"
    by (simp add: W0_def W1_def W2_def Z_def entry_words_def add.assoc)
  show ?thesis
    using assms p0 p1 p2 zero [of "(W0 @ W1) @ W2"] zero [of "(W0 @ W1) @ W2 @ Z"]
    by (simp add: unwrap_def checked_add_def WORD_def add.assoc mk_def W [simplified, symmetric] S1_def [symmetric] S2_def [symmetric])
qed

lemma stack_plan_eq:
  assumes "length stack \<le> stack_top" and "stack_top < U64_LIMIT"
  shows "stack_plan stack stack_top argv envp =
    (let n = length (string_bytes (argv @ envp)); k = 8 * (length argv + length envp + 5);
         rsp = (stack_top - n - k) div 16 * 16; base = stack_top - length stack in
     if n + k \<le> stack_top \<and> base \<le> rsp then Some (n, base, rsp) else None)"
proof -
  have "strings_total (argv @ envp) 0 = (if length (string_bytes (argv @ envp)) < U64_LIMIT
      then Some (length (string_bytes (argv @ envp))) else None)"
    using strings_total_Some [of 0 "argv @ envp"] by (simp add: U64_LIMIT_def)
  then show ?thesis
    using assms by (auto simp: stack_plan_def checked_add_def checked_mul_def checked_sub_def STACK_ALIGN_def Let_def mult.commute)
qed

lemma overwrite_blocks:
  assumes "r + length W \<le> q" and "q + length S = length stack"
  shows "overwrite r W (overwrite q S stack) = take r stack @ W @ slice (r + length W) q stack @ S"
  using assms by (simp add: overwrite_def slice_def min_absorb1 drop_take)

text \<open>C35: \<open>build_initial_stack\<close> on every input: when the strings with their terminators and the words fit below
  \<open>stack_top\<close> within the given slice, the result is the 16-byte aligned address of the argument count, and the
  slice holds from there the count, the pointers to the arguments, a null, the pointers to the environment, a
  null and the empty auxiliary vector, with the strings at the very top, each at the address its pointer
  names; every other byte keeps its value. Otherwise it returns none and writes nothing; it never panics.\<close>

theorem build_initial_stack_layout:
  assumes "length stack \<le> stack_top" and "stack_top < U64_LIMIT"
  shows "let n = length (string_bytes (argv @ envp)); k = 8 * (length argv + length envp + 5);
             strings_at = stack_top - n; rsp = (strings_at - k) div 16 * 16; base = stack_top - length stack in
    build_initial_stack stack stack_top argv envp =
     (if n + k \<le> stack_top \<and> base \<le> rsp
      then (Ok rsp, take (rsp - base) stack @ word_bytes (entry_words strings_at argv envp) @
              slice (rsp - base + k) (strings_at - base) stack @ string_bytes (argv @ envp))
      else (Err (), stack))"
proof -
  define n where "n = length (string_bytes (argv @ envp))"
  define k where "k = 8 * (length argv + length envp + 5)"
  define base where "base = stack_top - length stack"
  define rsp where "rsp = (stack_top - n - k) div 16 * 16"
  have plan: "stack_plan stack stack_top argv envp =
      (if n + k \<le> stack_top \<and> base \<le> rsp then Some (n, base, rsp) else None)"
    using stack_plan_eq [OF assms] by (simp add: n_def k_def base_def rsp_def Let_def)
  show ?thesis
  proof (cases "n + k \<le> stack_top \<and> base \<le> rsp")
    case True
    define i where "i = rsp - base"
    define j where "j = stack_top - n - base"
    have le: "rsp \<le> stack_top - n - k" by (simp add: rsp_def)
    have ij: "i + k \<le> j" "j + n = length stack" "base + i = rsp" "base + j = stack_top - n"
      using True le assms by (auto simp: i_def j_def base_def)
    have at: "(unwrap (checked_sub stack_top n) :: nat opt_outcome) = Ok (base + j)"
      using True ij by (simp add: unwrap_def checked_sub_def)
    have argc: "length argv < U64_LIMIT" using True assms(2) by (simp add: k_def)
    have "i + 8 * (length argv + length envp + 5) \<le> j" "j + length (string_bytes (argv @ envp)) \<le> length stack"
      "base + length stack < U64_LIMIT"
      using ij assms unfolding n_def k_def base_def by linarith+
    note all = put_all_ok [OF this argc, unfolded ij(3)]
    have put: "build_initial_stack stack stack_top argv envp =
        (Ok rsp, overwrite i (word_bytes (entry_words (base + j) argv envp))
           (overwrite j (string_bytes (argv @ envp)) stack))"
      unfolding build_initial_stack_def plan if_P [OF True] ok_or_def option.case lift_pure_simps prod.case at
      by (rule all)
    have "overwrite i (word_bytes (entry_words (base + j) argv envp)) (overwrite j (string_bytes (argv @ envp)) stack) =
        take i stack @ word_bytes (entry_words (base + j) argv envp) @ slice (i + k) j stack @ string_bytes (argv @ envp)"
      using overwrite_blocks [of i "word_bytes (entry_words (base + j) argv envp)" j "string_bytes (argv @ envp)" stack] ij(1,2)
      unfolding n_def k_def by simp
    then show ?thesis
      unfolding Let_def n_def [symmetric] k_def [symmetric] base_def [symmetric] rsp_def [symmetric] if_P [OF True] put
      by (simp only: ij(4) i_def [symmetric] j_def [symmetric])
  next
    case False
    have "build_initial_stack stack stack_top argv envp = (Err (), stack)"
      unfolding build_initial_stack_def plan if_not_P [OF False] by (simp add: ok_or_def)
    then show ?thesis
      unfolding Let_def n_def [symmetric] k_def [symmetric] base_def [symmetric] rsp_def [symmetric] if_not_P [OF False] .
  qed
qed

text \<open>Two arguments and one environment string on a stack of 128 bytes ending at 65536.\<close>

theorem build_initial_stack_layout_witness:
  "length (replicate 128 0xAA :: bytes) \<le> 65536 \<and> (65536 :: nat) < U64_LIMIT \<and>
   build_initial_stack (replicate 128 0xAA) 65536 [[97, 98], []] [[120, 61]] =
     (Ok 65456, replicate 48 0xAA @ word_bytes [2, 65529, 65532, 0, 65533, 0, 0, 0] @ replicate 9 0xAA @
        [97, 98, 0, 0, 120, 61, 0])"
proof -
  have "length (replicate 128 0xAA :: bytes) \<le> 65536" "(65536 :: nat) < U64_LIMIT"
    by (simp_all add: U64_LIMIT_def)
  from this build_initial_stack_layout [OF this, of "[[97, 98], []]" "[[120, 61]]"] show ?thesis
    by (simp add: Let_def entry_words_def slice_def string_bytes_def flip: numeral_2_eq_2)
qed

end
