(* ===== verification/Boot_Phys.thy ===== *)
theory Boot_Phys
  imports Phys_Mem_Free
begin

text \<open>
  The two stages of physical memory management at boot (\<open>kernel/boot/src/mem/phys.rs\<close>): a bump allocator over
  the memory map of the boot loader, and its replacement by the frame manager once there is a heap.

  Shown here: over the whole boot, across the change of stages, no frame is handed out twice while it
  is held.
\<close>

section \<open>The bump allocator\<close>

datatype entry_type = USABLE | Other_Entry nat

record map_entry =
  entry_base :: nat
  entry_length :: nat
  entry_kind :: entry_type

record bump_allocator =
  bump_regions :: "map_entry list"
  next_frame :: nat

definition bump_new :: "map_entry list \<Rightarrow> bump_allocator" where
  "bump_new rs = \<lparr>bump_regions = rs, next_frame = 0\<rparr>"

text \<open>\<open>(a..b).step_by(k)\<close>.\<close>

definition step_range :: "nat \<Rightarrow> nat \<Rightarrow> nat \<Rightarrow> nat list" where
  "step_range a b k = map (\<lambda>i. a + i * k) [0..<(b - a + k - 1) div k]"

text \<open>
  The addresses the iterator \<open>usable_frames\<close> goes through. The frame of an address is built by
  \<open>PhysFrame::containing_address(PhysAddr::new(addr))\<close> of the \<open>x86_64\<close> crate, the parameter \<open>containing\<close>; as
  documented, an address of at most 52 bits is accepted and rounded down to its page.
\<close>

definition usable_addrs :: "map_entry list \<Rightarrow> nat list" where
  "usable_addrs rs = concat (map (\<lambda>e. step_range (entry_base e) (entry_length e) (page_bytes Size4KiB))
     (filter (\<lambda>e. entry_kind e = USABLE) rs))"

definition containing_ok :: "(nat \<Rightarrow> nat opt_outcome) \<Rightarrow> bool" where
  "containing_ok containing \<longleftrightarrow> (\<forall>a < 2 ^ 52. containing a = Ok (a div 4096 * 4096))"

text \<open>\<open>nth\<close> and \<open>take(n)\<close> of the iterator, which build the frame of every address they pass.\<close>

fun frames_nth :: "(nat \<Rightarrow> nat opt_outcome) \<Rightarrow> nat list \<Rightarrow> nat \<Rightarrow> nat option opt_outcome" where
  "frames_nth containing [] n = Ok None"
| "frames_nth containing (a # as) 0 = obind (containing a) (\<lambda>f. Ok (Some f))"
| "frames_nth containing (a # as) (Suc n) = obind (containing a) (\<lambda>_. frames_nth containing as n)"

definition bump_allocate_frame ::
  "(nat \<Rightarrow> nat opt_outcome) \<Rightarrow> bump_allocator \<Rightarrow> (nat option \<times> bump_allocator) opt_outcome" where
  "bump_allocate_frame containing b =
    obind (frames_nth containing (usable_addrs (bump_regions b)) (next_frame b)) (\<lambda>f.
      Ok (f, if f \<noteq> None then b\<lparr>next_frame := next_frame b + 1\<rparr> else b))"

section \<open>The two stages\<close>

datatype multi_stage_allocator = Stage1 bump_allocator | Stage2 physical_memory_manager

fun ms_allocate_frame ::
  "(nat \<Rightarrow> nat opt_outcome) \<Rightarrow> frame_constructor \<Rightarrow> page_size \<Rightarrow> multi_stage_allocator \<Rightarrow>
   (nat option \<times> multi_stage_allocator) opt_outcome" where
  "ms_allocate_frame containing pf sz (Stage1 b) =
    (if page_bytes sz = page_bytes Size4KiB
     then obind (bump_allocate_frame containing b) (\<lambda>(f, b). case f of
            None \<Rightarrow> Ok (None, Stage1 b)
          | Some a \<Rightarrow> obind (pf sz a) (\<lambda>a. Ok (Some a, Stage1 b)))
     else Panic)"
| "ms_allocate_frame containing pf sz (Stage2 m) =
    obind (allocate_frame pf sz m) (\<lambda>(f, m). Ok (f, Stage2 m))"

fun ms_allocate_frames ::
  "frame_constructor \<Rightarrow> page_size \<Rightarrow> nat \<Rightarrow> multi_stage_allocator \<Rightarrow>
   ((nat \<times> nat) option \<times> multi_stage_allocator) opt_outcome" where
  "ms_allocate_frames pf sz n (Stage1 b) = Panic"
| "ms_allocate_frames pf sz n (Stage2 m) =
    obind (allocate_frames_impl pf sz n m) (\<lambda>(rng, m). Ok (rng, Stage2 m))"

fun ms_deallocate_frame :: "page_size \<Rightarrow> nat \<Rightarrow> multi_stage_allocator \<Rightarrow> multi_stage_allocator opt_outcome" where
  "ms_deallocate_frame sz a (Stage1 b) = Panic"
| "ms_deallocate_frame sz a (Stage2 m) = Ok (Stage2 (snd (deallocate_frame sz a m)))"

fun ms_deallocate_frames ::
  "page_size \<Rightarrow> nat \<times> nat \<Rightarrow> multi_stage_allocator \<Rightarrow> multi_stage_allocator opt_outcome" where
  "ms_deallocate_frames sz rng (Stage1 b) = Panic"
| "ms_deallocate_frames sz rng (Stage2 m) = Ok (Stage2 (snd (deallocate_frames sz rng m)))"

text \<open>The change of stages: the regions of the usable entries, and the frames given out so far marked in the
  first region that has them.\<close>

definition usable_regions :: "map_entry list \<Rightarrow> memory_region list" where
  "usable_regions rs = map (\<lambda>e. region_new (entry_base e) (entry_length e div page_bytes Size4KiB) Free)
     (filter (\<lambda>e. entry_kind e = USABLE) rs)"

primrec mark_frame :: "nat \<Rightarrow> memory_region list \<Rightarrow> memory_region list" where
  "mark_frame a [] = []"
| "mark_frame a (r # rs) =
    (case frame_index r a of
       Some i \<Rightarrow> r\<lparr>frames := (frames r)[i := Allocated]\<rparr> # rs
     | None \<Rightarrow> r # mark_frame a rs)"

fun mark_first ::
  "(nat \<Rightarrow> nat opt_outcome) \<Rightarrow> nat list \<Rightarrow> nat \<Rightarrow> memory_region list \<Rightarrow> memory_region list opt_outcome" where
  "mark_first containing (a # as) (Suc n) rs =
    obind (containing a) (\<lambda>f. mark_first containing as n (mark_frame f rs))"
| "mark_first containing _ _ rs = Ok rs"

fun init_stage2 ::
  "(nat \<Rightarrow> nat opt_outcome) \<Rightarrow> bool \<Rightarrow> multi_stage_allocator \<Rightarrow> multi_stage_allocator opt_outcome" where
  "init_stage2 containing heap_initialized (Stage1 b) =
    assert_that heap_initialized (
    obind (mark_first containing (usable_addrs (bump_regions b)) (next_frame b) (usable_regions (bump_regions b))) (\<lambda>rs.
      Ok (Stage2 (pmm_new rs))))"
| "init_stage2 containing heap_initialized (Stage2 m) = Panic"

section \<open>The allocated frames\<close>

definition alloc_set :: "memory_region list \<Rightarrow> nat set" where
  "alloc_set rs = {base_addr (rs ! k) + i * 4096 | k i.
     k < length rs \<and> i < length (frames (rs ! k)) \<and> frames (rs ! k) ! i = Allocated}"

lemma alloc_setI:
  "k < length rs \<Longrightarrow> i < length (frames (rs ! k)) \<Longrightarrow> frames (rs ! k) ! i = Allocated \<Longrightarrow>
   base_addr (rs ! k) + i * 4096 \<in> alloc_set rs"
  by (auto simp: alloc_set_def)

lemma alloc_setE:
  assumes "a \<in> alloc_set rs"
  obtains k i where "k < length rs" "i < length (frames (rs ! k))" "a = base_addr (rs ! k) + i * 4096"
    "frames (rs ! k) ! i = Allocated"
  using assms by (auto simp: alloc_set_def)

lemma alloc_set_mark_run:
  assumes "k < length rs" and "cur + n \<le> length (frames (rs ! k))"
  shows "alloc_set (mark_run rs Allocated n k cur) =
    alloc_set rs \<union> (\<lambda>i. base_addr (rs ! k) + (cur + i) * 4096) ` {..<n}" (is "?A = ?B \<union> ?C")
proof (intro equalityI subsetI)
  fix a assume "a \<in> ?A"
  then obtain j i where ji: "j < length rs" "i < length (frames (rs ! j))" "a = base_addr (rs ! j) + i * 4096"
      "frames (mark_run rs Allocated n k cur ! j) ! i = Allocated"
    by (rule alloc_setE) (simp add: frames_mark_run(1,2) [OF assms])
  show "a \<in> ?B \<union> ?C"
  proof (cases "j = k \<and> cur \<le> i \<and> i < cur + n")
    case True
    then have "a = base_addr (rs ! k) + (cur + (i - cur)) * 4096" "i - cur < n" using ji by auto
    then show ?thesis by blast
  next
    case False
    then have "frames (rs ! j) ! i = Allocated" using ji frames_mark_run(3) [OF assms ji(1,2), where st = Allocated] by auto
    then show ?thesis using ji(1-3) by (simp add: alloc_setI)
  qed
next
  fix a assume "a \<in> ?B \<union> ?C"
  then show "a \<in> ?A"
  proof
    assume "a \<in> ?B"
    then obtain j i where ji: "j < length rs" "i < length (frames (rs ! j))" "a = base_addr (rs ! j) + i * 4096"
        "frames (rs ! j) ! i = Allocated"
      by (rule alloc_setE)
    then have "frames (mark_run rs Allocated n k cur ! j) ! i = Allocated"
      using frames_mark_run(3) [OF assms ji(1,2), where st = Allocated] by simp
    then show ?thesis
      using ji frames_mark_run(1,2) [OF assms ji(1), where st = Allocated]
        alloc_setI [of j "mark_run rs Allocated n k cur" i] by simp
  next
    assume "a \<in> ?C"
    then obtain i where "i < n" "a = base_addr (rs ! k) + (cur + i) * 4096" by blast
    then show ?thesis
      using assms frames_mark_run [OF assms assms(1), where st = Allocated]
        alloc_setI [of k "mark_run rs Allocated n k cur" "cur + i"] by simp
  qed
qed

lemma run_not_allocated:
  assumes "regions_disjoint rs" and "k < length rs" and "run_free (frames (rs ! k)) n cur" and "i < n"
  shows "base_addr (rs ! k) + (cur + i) * 4096 \<notin> alloc_set rs"
proof
  assume "base_addr (rs ! k) + (cur + i) * 4096 \<in> alloc_set rs"
  then obtain j l where jl: "j < length rs" "l < length (frames (rs ! j))"
      "base_addr (rs ! k) + (cur + i) * 4096 = base_addr (rs ! j) + l * 4096" "frames (rs ! j) ! l = Allocated"
    by (rule alloc_setE)
  have lt: "cur + i < length (frames (rs ! k))" and free: "frames (rs ! k) ! (cur + i) = Free"
    using assms(3,4) by (simp_all add: run_free_def)
  from find_frame_location_frame [OF assms(1,2) lt] find_frame_location_frame [OF assms(1) jl(1,2)]
  have "k = j \<and> cur + i = l" unfolding jl(3) by simp
  then show False using jl(4) free by simp
qed

text \<open>Freeing a frame takes it out of the set.\<close>

lemma alloc_set_update_free:
  assumes "regions_disjoint rs" and "k < length rs" and "i < length (frames (rs ! k))"
  shows "alloc_set (rs[k := (rs ! k)\<lparr>frames := (frames (rs ! k))[i := Free]\<rparr>]) =
    alloc_set rs - {base_addr (rs ! k) + i * 4096}" (is "alloc_set ?rs = _")
proof -
  have nth: "base_addr (?rs ! j) = base_addr (rs ! j)" "length (frames (?rs ! j)) = length (frames (rs ! j))"
      "frames (?rs ! j) ! l = (if j = k \<and> l = i then Free else frames (rs ! j) ! l)"
    if "j < length rs" "l < length (frames (rs ! j))" for j l
    using that assms by (auto simp: nth_list_update)
  have same: "base_addr (rs ! j) + l * 4096 = base_addr (rs ! k) + i * 4096 \<longleftrightarrow> j = k \<and> l = i"
    if "j < length rs" "l < length (frames (rs ! j))" for j l
  proof
    assume eq: "base_addr (rs ! j) + l * 4096 = base_addr (rs ! k) + i * 4096"
    from find_frame_location_frame [OF assms(1) that] find_frame_location_frame [OF assms]
    show "j = k \<and> l = i" unfolding eq by simp
  qed simp
  show ?thesis
  proof (intro equalityI subsetI)
    fix a assume "a \<in> alloc_set ?rs"
    then obtain j l where jl: "j < length ?rs" "l < length (frames (?rs ! j))" "a = base_addr (?rs ! j) + l * 4096"
        "frames (?rs ! j) ! l = Allocated"
      by (rule alloc_setE)
    then have jl': "j < length rs" "l < length (frames (rs ! j))"
      using assms by (auto simp: nth_list_update split: if_splits)
    then show "a \<in> alloc_set rs - {base_addr (rs ! k) + i * 4096}"
      using jl nth [OF jl'] same [OF jl'] alloc_setI [OF jl'] by (simp split: if_splits)
  next
    fix a assume "a \<in> alloc_set rs - {base_addr (rs ! k) + i * 4096}"
    then obtain j l where jl: "j < length rs" "l < length (frames (rs ! j))" "a = base_addr (rs ! j) + l * 4096"
        "frames (rs ! j) ! l = Allocated" "a \<noteq> base_addr (rs ! k) + i * 4096"
      by (auto elim: alloc_setE)
    then show "a \<in> alloc_set ?rs"
      using nth [OF jl(1,2)] same [OF jl(1,2)] alloc_setI [of j ?rs l] by simp
  qed
qed

lemma deallocate_alloc_set:
  assumes "regions_disjoint (regions m)" and "a \<in> alloc_set (regions m)"
  shows "alloc_set (regions (snd (deallocate_frame_4k a m))) = alloc_set (regions m) - {a}"
proof -
  obtain k i where ki: "k < length (regions m)" "i < length (frames (regions m ! k))"
      "a = base_addr (regions m ! k) + i * 4096" "frames (regions m ! k) ! i = Allocated"
    using assms(2) by (rule alloc_setE)
  have "find_frame_location (regions m) a = Some \<lparr>region_idx = k, frame_idx = i\<rparr>"
    unfolding ki(3) by (rule find_frame_location_frame [OF assms(1) ki(1,2)])
  then have "regions (snd (deallocate_frame_4k a m)) =
      (regions m)[k := (regions m ! k)\<lparr>frames := (frames (regions m ! k))[i := Free]\<rparr>]"
    using ki(4) by (simp add: deallocate_frame_4k_def Let_def)
  then show ?thesis using alloc_set_update_free [OF assms(1) ki(1,2)] ki(3) by simp
qed

lemma deallocate_loop_alloc_set:
  assumes "regions_disjoint (regions m)" and "distinct fs" and "set fs \<subseteq> alloc_set (regions m)"
  shows "alloc_set (regions (snd (deallocate_frames_loop Size4KiB fs res m))) = alloc_set (regions m) - set fs"
  using assms
proof (induction fs arbitrary: m res)
  case (Cons f fs)
  let ?m = "snd (deallocate_frame_4k f m)"
  have set: "alloc_set (regions ?m) = alloc_set (regions m) - {f}"
    using Cons.prems by (intro deallocate_alloc_set) auto
  have "regions_disjoint (regions ?m)"
    using Cons.prems(1) region_shape_disjoint [OF deallocate_frame_shape [of Size4KiB f m]] by simp
  then have "alloc_set (regions (snd (deallocate_frames_loop Size4KiB fs res ?m))) = alloc_set (regions ?m) - set fs" for res
    using Cons.IH [of ?m res] Cons.prems set by auto
  moreover obtain k i where "k < length (regions m)" "i < length (frames (regions m ! k))"
      "f = base_addr (regions m ! k) + i * 4096" "frames (regions m ! k) ! i = Allocated"
    using Cons.prems(3) by (auto elim: alloc_setE)
  then have "fst (deallocate_frame_4k f m) = Some f"
    using find_frame_location_frame [OF Cons.prems(1)] by (simp add: deallocate_frame_4k_def Let_def)
  ultimately show ?case using set by (auto split: prod.split option.split)
qed simp

section \<open>The memory map\<close>

text \<open>What the boot loader promises of the usable entries: sorted, disjoint and aligned to pages, at most 52
  address bits.\<close>

definition memory_map_ok :: "map_entry list \<Rightarrow> bool" where
  "memory_map_ok es \<longleftrightarrow>
    sorted_wrt (\<lambda>e f. entry_base e + entry_length e \<le> entry_base f) (filter (\<lambda>e. entry_kind e = USABLE) es) \<and>
    (\<forall>e \<in> set es. entry_kind e = USABLE \<longrightarrow>
       4096 dvd entry_base e \<and> 4096 dvd entry_length e \<and> entry_base e + entry_length e \<le> 2 ^ 52)"

definition usable_frame :: "map_entry list \<Rightarrow> nat \<Rightarrow> bool" where
  "usable_frame es a \<longleftrightarrow> 4096 dvd a \<and>
    (\<exists>e \<in> set es. entry_kind e = USABLE \<and> entry_base e \<le> a \<and> a < entry_base e + entry_length e)"

lemma step_range_mem:
  assumes "x \<in> set (step_range a b 4096)"
  shows "a \<le> x \<and> x < b \<and> 4096 dvd x - a"
  using assms by (auto simp: step_range_def)

lemma step_range_distinct: "distinct (step_range a b 4096)"
  by (simp add: step_range_def distinct_map inj_on_def)

lemma usable_addrs_frame:
  assumes "memory_map_ok es" and "a \<in> set (usable_addrs es)"
  shows "usable_frame es a" and "a < 2 ^ 52"
proof -
  obtain e where e: "e \<in> set es" "entry_kind e = USABLE" "a \<in> set (step_range (entry_base e) (entry_length e) 4096)"
    using assms(2) by (auto simp: usable_addrs_def)
  have m: "entry_base e \<le> a" "a < entry_length e" "4096 dvd a - entry_base e"
    using step_range_mem [OF e(3)] by auto
  have ok: "4096 dvd entry_base e" "entry_base e + entry_length e \<le> 2 ^ 52"
    using assms(1) e(1,2) by (auto simp: memory_map_ok_def)
  show "a < 2 ^ 52" using m(2) ok(2) by linarith
  have "4096 dvd a" using m(1,3) ok(1) by (metis dvd_diffD1 dvd_diffD)
  then show "usable_frame es a" using e(1,2) m by (auto simp: usable_frame_def)
qed

lemma usable_addrs_distinct:
  assumes "memory_map_ok es"
  shows "distinct (usable_addrs es)"
proof -
  have "distinct (concat (map (\<lambda>e. step_range (entry_base e) (entry_length e) 4096) us))"
    if "sorted_wrt (\<lambda>e f. entry_base e + entry_length e \<le> entry_base f) us" for us
    using that
  proof (induction us)
    case (Cons u us)
    have "x \<notin> set (step_range (entry_base v) (entry_length v) 4096)"
      if "x \<in> set (step_range (entry_base u) (entry_length u) 4096)" "v \<in> set us" for x v
    proof
      assume "x \<in> set (step_range (entry_base v) (entry_length v) 4096)"
      moreover have "entry_base u + entry_length u \<le> entry_base v" using Cons.prems that(2) by simp
      ultimately show False using step_range_mem [OF that(1)] step_range_mem [of x "entry_base v" "entry_length v"] by linarith
    qed
    then show ?case using Cons step_range_distinct by auto
  qed simp
  from this [of "filter (\<lambda>e. entry_kind e = USABLE) es"] show ?thesis
    using assms by (simp add: usable_addrs_def memory_map_ok_def)
qed

lemma usable_regions_ok:
  assumes "memory_map_ok es"
  shows "regions_physical (usable_regions es)" and "regions_disjoint (usable_regions es)"
    and "alloc_set (usable_regions es) = {}"
    and "usable_frame es a \<Longrightarrow> \<exists>r \<in> set (usable_regions es). in_region r a"
    and "r \<in> set (usable_regions es) \<Longrightarrow> in_region r a \<Longrightarrow> 4096 dvd a \<Longrightarrow> usable_frame es a"
proof -
  let ?us = "filter (\<lambda>e. entry_kind e = USABLE) es"
  have len: "entry_length e div 4096 * 4096 = entry_length e" if "e \<in> set ?us" for e
    using assms that by (auto simp: memory_map_ok_def)
  show "regions_physical (usable_regions es)"
    using assms len by (auto simp: regions_physical_def usable_regions_def region_new_def memory_map_ok_def)
  have sorted: "entry_base (?us ! i) + entry_length (?us ! i) \<le> entry_base (?us ! j)" if "i < j" "j < length ?us" for i j
    using assms that by (simp add: memory_map_ok_def sorted_wrt_iff_nth_less)
  have inr: "in_region (usable_regions es ! i) a \<longleftrightarrow>
      entry_base (?us ! i) \<le> a \<and> a < entry_base (?us ! i) + entry_length (?us ! i)" if "i < length ?us" for i a
    using len [OF nth_mem [OF that]] that by (simp add: usable_regions_def region_new_def in_region_def)
  show "regions_disjoint (usable_regions es)"
    unfolding regions_disjoint_def
  proof (intro allI impI)
    fix i j a assume *: "i < length (usable_regions es)" "j < length (usable_regions es)"
      "in_region (usable_regions es ! i) a \<and> in_region (usable_regions es ! j) a"
    then have "i < length ?us" "j < length ?us" by (simp_all add: usable_regions_def)
    then show "i = j" using inr [of i a] inr [of j a] *(3) sorted [of i j] sorted [of j i]
      by (cases i j rule: linorder_cases) auto
  qed
  show "alloc_set (usable_regions es) = {}"
    by (auto simp: alloc_set_def usable_regions_def region_new_def)
  show "usable_frame es a \<Longrightarrow> \<exists>r \<in> set (usable_regions es). in_region r a"
    using len by (auto simp: usable_frame_def usable_regions_def region_new_def in_region_def)
  show "r \<in> set (usable_regions es) \<Longrightarrow> in_region r a \<Longrightarrow> 4096 dvd a \<Longrightarrow> usable_frame es a"
    using len by (auto simp: usable_frame_def usable_regions_def region_new_def in_region_def)
qed

section \<open>Marking\<close>

lemma mark_frame_from:
  "find_frame_location_from k rs a = Some loc \<Longrightarrow>
   mark_frame a rs = rs[region_idx loc - k := (rs ! (region_idx loc - k))
     \<lparr>frames := (frames (rs ! (region_idx loc - k)))[frame_idx loc := Allocated]\<rparr>]"
proof (induction rs arbitrary: k)
  case (Cons r rs)
  show ?case
  proof (cases "frame_index r a")
    case None
    then have f: "find_frame_location_from (Suc k) rs a = Some loc" using Cons.prems by simp
    have "Suc k \<le> region_idx loc" using find_frame_location_from_Some [OF f] by simp
    then have "region_idx loc - k = Suc (region_idx loc - Suc k)" by simp
    then show ?thesis using Cons.IH [OF f] None by simp
  next
    case (Some i)
    then show ?thesis using Cons.prems by auto
  qed
qed simp

lemma mark_frame_alloc_set:
  assumes "regions_disjoint rs" and "regions_physical rs" and "r \<in> set rs" and "in_region r a" and "4096 dvd a"
  shows "alloc_set (mark_frame a rs) = insert a (alloc_set rs)" and "region_shape (mark_frame a rs) = region_shape rs"
proof -
  obtain loc where loc: "find_frame_location rs a = Some loc"
    using assms(3,4) by (cases "find_frame_location rs a") (auto simp: find_frame_location_def find_frame_location_from_None)
  let ?k = "region_idx loc" and ?i = "frame_idx loc"
  note at = find_frame_location_SomeD [OF loc]
  have "mark_frame a rs = rs[?k := (rs ! ?k)\<lparr>frames := (frames (rs ! ?k))[?i := Allocated]\<rparr>]"
    using mark_frame_from [of 0 rs a loc] loc by (simp add: find_frame_location_def)
  also have "(frames (rs ! ?k))[?i := Allocated] = overwrite ?i [Allocated] (frames (rs ! ?k))"
    using at(4) by (simp add: overwrite_def upd_conv_take_nth_drop)
  finally have mark: "mark_frame a rs = mark_run rs Allocated 1 ?k ?i" by (simp add: mark_run_def)
  have "4096 dvd base_addr (rs ! ?k)" using assms(2) at(1) by (simp add: regions_physical_def)
  then have "4096 dvd a - base_addr (rs ! ?k)" using assms(5) by (simp add: dvd_diff_nat)
  then have a: "base_addr (rs ! ?k) + ?i * 4096 = a" using at(2,3) by (simp add: in_region_def)
  have "{..<1 :: nat} = {0}" by auto
  then show "alloc_set (mark_frame a rs) = insert a (alloc_set rs)"
    using alloc_set_mark_run [OF at(1), of ?i 1] at(4) a by (simp add: mark)
  show "region_shape (mark_frame a rs) = region_shape rs"
    using at(4) by (simp add: mark mark_run_def)
qed

lemma mark_frames_alloc_set:
  assumes "regions_disjoint rs" and "regions_physical rs"
    and "\<And>a. a \<in> set as \<Longrightarrow> 4096 dvd a \<and> (\<exists>r \<in> set rs. in_region r a)"
  shows "alloc_set (fold mark_frame as rs) = alloc_set rs \<union> set as \<and> region_shape (fold mark_frame as rs) = region_shape rs"
  using assms
proof (induction as arbitrary: rs)
  case (Cons a as)
  obtain r where r: "r \<in> set rs" "in_region r a" "4096 dvd a" using Cons.prems(3) [of a] by auto
  note m = mark_frame_alloc_set [OF Cons.prems(1,2) r]
  have shape: "(\<exists>r \<in> set rs'. in_region r b) \<longleftrightarrow> (\<exists>p \<in> set (region_shape rs'). fst p \<le> b \<and> b < fst p + snd p * 4096)" for rs' b
    by (auto simp: region_shape_def in_region_def)
  have "alloc_set (fold mark_frame as (mark_frame a rs)) = alloc_set (mark_frame a rs) \<union> set as \<and>
      region_shape (fold mark_frame as (mark_frame a rs)) = region_shape (mark_frame a rs)"
    using Cons.prems m(2) region_shape_disjoint [OF m(2)] region_shape_physical [OF m(2)]
    by (intro Cons.IH) (simp_all add: shape)
  then show ?case using m by simp
qed simp

lemma frames_nth_eq:
  assumes "containing_ok containing" and "\<forall>a \<in> set as. 4096 dvd a \<and> a < 2 ^ 52"
  shows "frames_nth containing as n = Ok (if n < length as then Some (as ! n) else None)"
  using assms(2)
proof (induction as arbitrary: n)
  case (Cons a as)
  then have "containing a = Ok a" using assms(1) by (simp add: containing_ok_def)
  then show ?case using Cons by (cases n) simp_all
qed simp

lemma mark_first_eq:
  assumes "containing_ok containing" and "\<forall>a \<in> set as. 4096 dvd a \<and> a < 2 ^ 52"
  shows "mark_first containing as n rs = Ok (fold mark_frame (take n as) rs)"
  using assms(2)
proof (induction as arbitrary: n rs)
  case (Cons a as)
  then have "containing a = Ok a" using assms(1) by (simp add: containing_ok_def)
  then show ?case using Cons by (cases n) simp_all
qed simp

section \<open>The boot history\<close>

text \<open>The frames an allocation of \<open>n\<close> pages starting at \<open>a\<close> gives out.\<close>

definition page_frames :: "page_size \<Rightarrow> nat \<Rightarrow> nat \<Rightarrow> nat set" where
  "page_frames sz n a = (\<lambda>i. a + i * 4096) ` {..<n * small_frames_per_frame sz}"

text \<open>The allocator together with the set of frames that are held: given out and not given back.\<close>

inductive boot_step ::
  "(nat \<Rightarrow> nat opt_outcome) \<Rightarrow> frame_constructor \<Rightarrow> multi_stage_allocator \<times> nat set \<Rightarrow> multi_stage_allocator \<times> nat set \<Rightarrow> bool"
  for containing pf where
  one: "ms_allocate_frame containing pf sz st = Ok (Some a, st') \<Longrightarrow>
    boot_step containing pf (st, H) (st', H \<union> page_frames sz 1 a)"
| many: "ms_allocate_frames pf sz n st = Ok (Some rng, st') \<Longrightarrow>
    boot_step containing pf (st, H) (st', H \<union> page_frames sz n (fst rng))"
| exhausted: "ms_allocate_frame containing pf sz st = Ok (None, st') \<Longrightarrow> boot_step containing pf (st, H) (st', H)"
| refused: "ms_allocate_frames pf sz n st = Ok (None, st') \<Longrightarrow> boot_step containing pf (st, H) (st', H)"
| free: "ms_deallocate_frame Size4KiB a st = Ok st' \<Longrightarrow> a \<in> H \<Longrightarrow> boot_step containing pf (st, H) (st', H - {a})"
| free_range: "ms_deallocate_frames Size4KiB rng st = Ok st' \<Longrightarrow> set (range_frames Size4KiB rng) \<subseteq> H \<Longrightarrow>
    boot_step containing pf (st, H) (st', H - set (range_frames Size4KiB rng))"
| stage2: "init_stage2 containing heap st = Ok st' \<Longrightarrow> boot_step containing pf (st, H) (st', H)"

inductive boot_reachable ::
  "(nat \<Rightarrow> nat opt_outcome) \<Rightarrow> frame_constructor \<Rightarrow> map_entry list \<Rightarrow> multi_stage_allocator \<times> nat set \<Rightarrow> bool"
  for containing pf es where
  start: "boot_reachable containing pf es (Stage1 (bump_new es), {})"
| step: "boot_reachable containing pf es s \<Longrightarrow> boot_step containing pf s s' \<Longrightarrow> boot_reachable containing pf es s'"

fun boot_inv :: "map_entry list \<Rightarrow> multi_stage_allocator \<times> nat set \<Rightarrow> bool" where
  "boot_inv es (Stage1 b, H) \<longleftrightarrow> bump_regions b = es \<and> H = set (take (next_frame b) (usable_addrs es))"
| "boot_inv es (Stage2 m, H) \<longleftrightarrow> pmm_inv m \<and> region_shape (regions m) = region_shape (usable_regions es) \<and>
    H = alloc_set (regions m)"

text \<open>What a successful allocation adds to the held frames.\<close>

definition fresh_frames :: "map_entry list \<Rightarrow> nat set \<Rightarrow> nat set \<Rightarrow> bool" where
  "fresh_frames es H F \<longleftrightarrow> F \<inter> H = {} \<and> (\<forall>f \<in> F. usable_frame es f)"

lemma impl_size:
  assumes "allocate_frames_impl pf sz n m = Ok (Some rng, m')"
  shows "1 \<le> n" and "n * small_frames_per_frame sz < U64_LIMIT"
proof -
  show "1 \<le> n" using allocate_zero [of pf sz m "Some rng" m'] assms by (cases n) auto
  show "n * small_frames_per_frame sz < U64_LIMIT"
    using assms by (auto simp: allocate_frames_impl_def outcome_simps)
qed

lemma allocate_stage2:
  assumes ok: "memory_map_ok es" "frame_constructor_ok pf" and inv: "boot_inv es (Stage2 m, H)"
    and alloc: "allocate_frames_impl pf sz n m = Ok (Some rng, m')"
  shows "boot_inv es (Stage2 m', H \<union> page_frames sz n (fst rng))" and "fresh_frames es H (page_frames sz n (fst rng))"
proof -
  have shape: "region_shape (regions m) = region_shape (usable_regions es)" using inv by simp
  have phys: "regions_physical (regions m)" and disj: "regions_disjoint (regions m)"
    using usable_regions_ok(1,2) [OF ok(1)] region_shape_physical [OF shape] region_shape_disjoint [OF shape] by simp_all
  have "allocated sz n m rng m' \<and> pmm_inv m'"
    using allocate_frames_cases [of m n sz pf] inv phys impl_size [OF alloc] ok(2) alloc by auto
  then obtain k cur where kc: "free_pages (regions m) sz n k cur" "fst rng = base_addr (regions m ! k) + cur * 4096"
      "regions m' = mark_run (regions m) Allocated (n * small_frames_per_frame sz) k cur" and "pmm_inv m'"
    by (auto simp: allocated_def)
  have k: "k < length (regions m)" and run: "run_free (frames (regions m ! k)) (n * small_frames_per_frame sz) cur"
    using kc(1) by (auto simp: free_pages_def)
  have pages: "page_frames sz n (fst rng) =
      (\<lambda>i. base_addr (regions m ! k) + (cur + i) * 4096) ` {..<n * small_frames_per_frame sz}"
    by (simp add: page_frames_def kc(2) algebra_simps)
  show "boot_inv es (Stage2 m', H \<union> page_frames sz n (fst rng))"
    using inv \<open>pmm_inv m'\<close> allocate_shape [OF alloc] run
    by (simp add: kc(3) pages alloc_set_mark_run [OF k] run_free_def)
  have "usable_frame es (base_addr (regions m ! k) + (cur + i) * 4096)" if "i < n * small_frames_per_frame sz" for i
  proof -
    let ?a = "base_addr (regions m ! k) + (cur + i) * 4096"
    have len: "length (usable_regions es) = length (regions m)" using arg_cong [OF shape, of length] by (simp add: region_shape_def)
    have "region_shape (regions m) ! k = region_shape (usable_regions es) ! k" using shape by simp
    then have "in_region (usable_regions es ! k) ?a"
      using k len run that by (simp add: region_shape_def in_region_def run_free_def)
    moreover have "4096 dvd ?a" using phys k by (simp add: regions_physical_def)
    ultimately show ?thesis using usable_regions_ok(5) [OF ok(1)] k len by (metis nth_mem)
  qed
  then show "fresh_frames es H (page_frames sz n (fst rng))"
    using inv run_not_allocated [OF disj k run] by (auto simp: fresh_frames_def pages)
qed

lemma allocate_stage2_None:
  assumes "memory_map_ok es" "frame_constructor_ok pf" and "boot_inv es (Stage2 m, H)"
    and "allocate_frames_impl pf sz n m = Ok (None, m')"
  shows "m' = m"
proof (cases "n = 0")
  case True
  then show ?thesis using allocate_zero [of pf sz m None m'] assms(4) by simp
next
  case False
  have size: "n * small_frames_per_frame sz < U64_LIMIT"
    using assms(4) by (auto simp: allocate_frames_impl_def outcome_simps)
  have shape: "region_shape (regions m) = region_shape (usable_regions es)" using assms(3) by simp
  have "regions_physical (regions m)"
    using usable_regions_ok(1) [OF assms(1)] region_shape_physical [OF shape] by simp
  then show ?thesis using allocate_frames_cases [of m n sz pf] assms size False by auto
qed

lemma usable_addrs_all:
  "memory_map_ok es \<Longrightarrow> \<forall>a \<in> set (usable_addrs es). 4096 dvd a \<and> a < 2 ^ 52"
  using usable_addrs_frame by (auto simp: usable_frame_def)

lemma allocate_stage1:
  assumes ok: "memory_map_ok es" "frame_constructor_ok pf" "containing_ok containing"
    and inv: "boot_inv es (Stage1 b, H)" and alloc: "ms_allocate_frame containing pf sz (Stage1 b) = Ok (res, st')"
  shows "case res of None \<Rightarrow> st' = Stage1 b
    | Some a \<Rightarrow> boot_inv es (st', H \<union> page_frames sz 1 a) \<and> fresh_frames es H (page_frames sz 1 a)"
proof -
  let ?L = "usable_addrs es" and ?n = "next_frame b"
  have sz: "sz = Size4KiB" using alloc by (cases sz) auto
  have b: "bump_regions b = es" "H = set (take ?n ?L)" using inv by auto
  have nth: "frames_nth containing ?L ?n = Ok (if ?n < length ?L then Some (?L ! ?n) else None)"
    by (rule frames_nth_eq [OF ok(3) usable_addrs_all [OF ok(1)]])
  show ?thesis
  proof (cases "?n < length ?L")
    case True
    have a: "usable_frame es (?L ! ?n)" "?L ! ?n < 2 ^ 52" using usable_addrs_frame [OF ok(1)] True by auto
    have "pf Size4KiB (?L ! ?n) = Ok (?L ! ?n)" using ok(2) a by (simp add: frame_constructor_ok_def usable_frame_def)
    then have res: "res = Some (?L ! ?n)" "st' = Stage1 (b\<lparr>next_frame := ?n + 1\<rparr>)"
      using alloc True nth by (auto simp: sz bump_allocate_frame_def b(1))
    have pages: "page_frames sz 1 (?L ! ?n) = {?L ! ?n}" by (auto simp: page_frames_def sz)
    have "?L ! ?n \<notin> set (take ?n ?L)"
      using usable_addrs_distinct [OF ok(1)] True by (auto simp: in_set_conv_nth nth_eq_iff_index_eq)
    then show ?thesis
      using res pages a(1) True b by (simp add: fresh_frames_def take_Suc_conv_app_nth)
  next
    case False
    then show ?thesis using alloc nth by (auto simp: sz bump_allocate_frame_def b(1))
  qed
qed

lemma init_stage2_ok:
  assumes ok: "memory_map_ok es" "containing_ok containing" and inv: "boot_inv es (Stage1 b, H)"
  shows "\<exists>m. init_stage2 containing True (Stage1 b) = Ok (Stage2 m) \<and> boot_inv es (Stage2 m, H)"
proof -
  let ?as = "take (next_frame b) (usable_addrs es)" and ?rs = "usable_regions es"
  have b: "bump_regions b = es" "H = set ?as" using inv by auto
  have "4096 dvd a \<and> (\<exists>r \<in> set ?rs. in_region r a)" if "a \<in> set ?as" for a
    using usable_addrs_frame(1) [OF ok(1) in_set_takeD [OF that]] usable_regions_ok(4) [OF ok(1)]
    by (auto simp: usable_frame_def)
  note marked = mark_frames_alloc_set [OF usable_regions_ok(2,1) [OF ok(1)] this]
  have "init_stage2 containing True (Stage1 b) = Ok (Stage2 (pmm_new (fold mark_frame ?as ?rs)))"
    using mark_first_eq [OF ok(2) usable_addrs_all [OF ok(1)]] b by (simp add: assert_that_def)
  then show ?thesis using marked b usable_regions_ok(3) [OF ok(1)] by (simp add: pmm_new_inv)
qed

lemma ms_allocate_frame_stage2:
  "ms_allocate_frame containing pf sz (Stage2 m) = Ok (res, st') \<Longrightarrow>
   \<exists>rng m'. allocate_frames_impl pf sz 1 m = Ok (rng, m') \<and> res = map_option fst rng \<and> st' = Stage2 m'"
  by (auto simp: allocate_frame_def outcome_simps)

lemma ms_allocate_frame_inv:
  assumes ok: "memory_map_ok es" "frame_constructor_ok pf" "containing_ok containing"
    and inv: "boot_inv es (st, H)" and alloc: "ms_allocate_frame containing pf sz st = Ok (res, st')"
  shows "case res of None \<Rightarrow> st' = st
    | Some a \<Rightarrow> boot_inv es (st', H \<union> page_frames sz 1 a) \<and> fresh_frames es H (page_frames sz 1 a)"
proof (cases st)
  case (Stage1 b)
  then show ?thesis using allocate_stage1 [OF ok] inv alloc by blast
next
  case (Stage2 m)
  then obtain rng m' where m': "allocate_frames_impl pf sz 1 m = Ok (rng, m')" "res = map_option fst rng" "st' = Stage2 m'"
    using ms_allocate_frame_stage2 alloc by blast
  have inv2: "boot_inv es (Stage2 m, H)" using inv Stage2 by simp
  show ?thesis
  proof (cases rng)
    case None
    then show ?thesis using allocate_stage2_None [OF ok(1,2) inv2] m' Stage2 by simp
  next
    case (Some r)
    then have "allocate_frames_impl pf sz 1 m = Ok (Some r, m')" using m'(1) by simp
    from allocate_stage2 [OF ok(1,2) inv2 this] show ?thesis using Some m'(2,3) by simp
  qed
qed

lemma ms_allocate_frames_inv:
  assumes ok: "memory_map_ok es" "frame_constructor_ok pf"
    and inv: "boot_inv es (st, H)" and alloc: "ms_allocate_frames pf sz n st = Ok (res, st')"
  shows "case res of None \<Rightarrow> st' = st
    | Some rng \<Rightarrow> boot_inv es (st', H \<union> page_frames sz n (fst rng)) \<and> fresh_frames es H (page_frames sz n (fst rng))"
proof -
  obtain m m' where m: "st = Stage2 m" "st' = Stage2 m'" "allocate_frames_impl pf sz n m = Ok (res, m')"
    using alloc by (cases st) (auto simp: outcome_simps)
  have inv2: "boot_inv es (Stage2 m, H)" using inv m(1) by simp
  show ?thesis
  proof (cases res)
    case None
    then show ?thesis using allocate_stage2_None [OF ok inv2] m by simp
  next
    case (Some r)
    then have "allocate_frames_impl pf sz n m = Ok (Some r, m')" using m(3) by simp
    from allocate_stage2 [OF ok inv2 this] show ?thesis using Some m(2) by simp
  qed
qed

lemma boot_step_inv:
  assumes "boot_step containing pf s s'" and "boot_inv es s"
    and ok: "memory_map_ok es" "frame_constructor_ok pf" "containing_ok containing"
  shows "boot_inv es s'"
  using assms(1,2)
proof cases
  case (one sz st a st' H)
  then show ?thesis using ms_allocate_frame_inv [OF ok _ one(3)] assms(2) by simp
next
  case (many sz n st rng st' H)
  then show ?thesis using ms_allocate_frames_inv [OF ok(1,2) _ many(3)] assms(2) by simp
next
  case (exhausted sz st st' H)
  then show ?thesis using ms_allocate_frame_inv [OF ok _ exhausted(3)] assms(2) by simp
next
  case (refused sz n st st' H)
  then show ?thesis using ms_allocate_frames_inv [OF ok(1,2) _ refused(3)] assms(2) by simp
next
  case (free a st st' H)
  then obtain m where m: "st = Stage2 m" "st' = Stage2 (snd (deallocate_frame_4k a m))" by (cases st) auto
  have inv: "pmm_inv m" "region_shape (regions m) = region_shape (usable_regions es)" "H = alloc_set (regions m)"
    using assms(2) free(1) m(1) by simp_all
  have "regions_disjoint (regions m)" using usable_regions_ok(2) [OF ok(1)] region_shape_disjoint [OF inv(2)] by simp
  moreover have "a \<in> alloc_set (regions m)" using free(4) inv(3) by simp
  ultimately have "alloc_set (regions (snd (deallocate_frame_4k a m))) = H - {a}"
    using inv(3) by (simp add: deallocate_alloc_set)
  then show ?thesis
    using inv deallocate_frame_4k_inv [OF inv(1), of a] deallocate_frame_shape [of Size4KiB a m]
    unfolding free(2) m(2) boot_inv.simps by simp
next
  case (free_range rng st st' H)
  then obtain m where m: "st = Stage2 m" "st' = Stage2 (snd (deallocate_frames Size4KiB rng m))" by (cases st) auto
  have inv: "pmm_inv m" "region_shape (regions m) = region_shape (usable_regions es)" "H = alloc_set (regions m)"
    using assms(2) free_range(1) m(1) by simp_all
  have disj: "regions_disjoint (regions m)" using usable_regions_ok(2) [OF ok(1)] region_shape_disjoint [OF inv(2)] by simp
  have dist: "distinct (range_frames Size4KiB rng)" by (auto simp: range_frames_def sub_frames_def distinct_map inj_on_def)
  have "set (range_frames Size4KiB rng) \<subseteq> alloc_set (regions m)" using free_range(4) inv(3) by simp
  then have "alloc_set (regions (snd (deallocate_frames Size4KiB rng m))) = H - set (range_frames Size4KiB rng)"
    using deallocate_loop_alloc_set [OF disj dist] inv(3) by (simp add: deallocate_frames_def)
  then show ?thesis
    using inv deallocate_frames_inv [OF inv(1), of Size4KiB rng] deallocate_frames_shape [of Size4KiB rng m]
    unfolding free_range(2) m(2) boot_inv.simps by simp
next
  case (stage2 heap st st' H)
  then obtain b where b: "st = Stage1 b" by (cases st) auto
  have heap: "heap" using stage2(3) b by (cases heap) (auto simp: assert_that_def)
  have inv: "boot_inv es (Stage1 b, H)" using assms(2) stage2(1) b by simp
  obtain m where m: "init_stage2 containing True (Stage1 b) = Ok (Stage2 m)" "boot_inv es (Stage2 m, H)"
    using init_stage2_ok [OF ok(1,3) inv] by blast
  have "st' = Stage2 m" using stage2(3) m(1) b heap by (simp del: init_stage2.simps)
  then show ?thesis using stage2(2) m(2) by (simp only:)
qed

lemma boot_reachable_inv:
  assumes "boot_reachable containing pf es s" and "memory_map_ok es" "frame_constructor_ok pf" "containing_ok containing"
  shows "boot_inv es s"
  using assms(1)
proof induction
  case start
  then show ?case by (simp add: bump_new_def)
next
  case (step s s')
  then show ?case using boot_step_inv assms(2-4) by blast
qed

text \<open>C36: Over every history of the boot allocator - frames taken from the bump allocator, the change to the frame
  manager, then frames and contiguous runs of any page size taken and 4 KiB frames and ranges given back -
  a frame that is handed out is a page-aligned frame of usable memory that nobody holds, in particular not
  one given out before the change of stages; and the change of stages itself succeeds as soon as there is
  a heap.\<close>

theorem boot_frames_exclusive:
  assumes "memory_map_ok es" and "frame_constructor_ok pf" and "containing_ok containing"
    and "boot_reachable containing pf es (st, H)"
  shows "(ms_allocate_frame containing pf sz st = Ok (Some a, st') \<longrightarrow>
      page_frames sz 1 a \<inter> H = {} \<and> (\<forall>f \<in> page_frames sz 1 a. usable_frame es f)) \<and>
    (ms_allocate_frames pf sz n st = Ok (Some rng, st') \<longrightarrow>
      page_frames sz n (fst rng) \<inter> H = {} \<and> (\<forall>f \<in> page_frames sz n (fst rng). usable_frame es f)) \<and>
    (\<forall>b. st = Stage1 b \<longrightarrow> (\<exists>m. init_stage2 containing True st = Ok (Stage2 m)))"
proof -
  have inv: "boot_inv es (st, H)" using boot_reachable_inv [OF assms(4,1,2,3)] .
  have "\<exists>m. init_stage2 containing True st = Ok (Stage2 m)" if "st = Stage1 b" for b
    using init_stage2_ok [OF assms(1,3), of b H] inv that by blast
  then show ?thesis
    using ms_allocate_frame_inv [OF assms(1-3) inv, of sz "Some a" st']
      ms_allocate_frames_inv [OF assms(1,2) inv, of sz n "Some rng" st']
    unfolding fresh_frames_def option.case by blast
qed

text \<open>Two usable entries: the bump allocator gives out the two frames of the first one and is then exhausted,
  because the second entry starts above its length; after the change of stages the frame manager gives out
  the frame of the second entry.\<close>

definition demo_map :: "map_entry list" where
  "demo_map = [\<lparr>entry_base = 0, entry_length = 8192, entry_kind = USABLE\<rparr>,
     \<lparr>entry_base = 8192, entry_length = 4096, entry_kind = Other_Entry 1\<rparr>,
     \<lparr>entry_base = 12288, entry_length = 4096, entry_kind = USABLE\<rparr>]"

definition demo_containing :: "nat \<Rightarrow> nat opt_outcome" where
  "demo_containing a = (if a < 2 ^ 52 then Ok (a div 4096 * 4096) else Panic)"

definition demo_stage2 :: physical_memory_manager where
  "demo_stage2 = pmm_new [region_with_frames 0 [Allocated, Allocated], region_with_frames 12288 [Free]]"

lemma demo_map_ok: "memory_map_ok demo_map" "containing_ok demo_containing"
  by (simp_all add: memory_map_ok_def demo_map_def containing_ok_def demo_containing_def)

lemma demo_usable_addrs: "usable_addrs demo_map = [0, 4096]"
  by (simp add: usable_addrs_def demo_map_def step_range_def upt_rec)

lemma demo_usable_regions: "usable_regions demo_map = [region_new 0 2 Free, region_new 12288 1 Free]"
  by (simp add: usable_regions_def demo_map_def)

lemma demo_two:
  "frames_nth c as 2 = frames_nth c as (Suc (Suc 0))" "mark_first c as 2 rs = mark_first c as (Suc (Suc 0)) rs"
  "replicate 2 x = [x, x]"
  by (simp_all add: numeral_2_eq_2)

lemma demo_stage1:
  "ms_allocate_frame demo_containing demo_frame Size4KiB (Stage1 (bump_new demo_map)) =
     Ok (Some 0, Stage1 \<lparr>bump_regions = demo_map, next_frame = 1\<rparr>)"
  "ms_allocate_frame demo_containing demo_frame Size4KiB (Stage1 \<lparr>bump_regions = demo_map, next_frame = 1\<rparr>) =
     Ok (Some 4096, Stage1 \<lparr>bump_regions = demo_map, next_frame = 2\<rparr>)"
  "ms_allocate_frame demo_containing demo_frame Size4KiB (Stage1 \<lparr>bump_regions = demo_map, next_frame = 2\<rparr>) =
     Ok (None, Stage1 \<lparr>bump_regions = demo_map, next_frame = 2\<rparr>)"
  "init_stage2 demo_containing True (Stage1 \<lparr>bump_regions = demo_map, next_frame = 2\<rparr>) = Ok (Stage2 demo_stage2)"
  by (simp_all add: bump_allocate_frame_def bump_new_def demo_usable_addrs demo_containing_def demo_frame_def
      assert_that_def demo_stage2_def demo_usable_regions region_new_def region_with_frames_def
      frame_index_def demo_two)

theorem boot_frames_exclusive_witness:
  "memory_map_ok demo_map \<and> frame_constructor_ok demo_frame \<and> containing_ok demo_containing \<and>
   boot_reachable demo_containing demo_frame demo_map (Stage2 demo_stage2, {0, 4096}) \<and>
   (\<exists>st'. ms_allocate_frame demo_containing demo_frame Size4KiB (Stage2 demo_stage2) = Ok (Some 12288, st')) \<and>
   page_frames Size4KiB 1 12288 = {12288} \<and> page_frames Size4KiB 1 12288 \<inter> {0, 4096} = {} \<and> usable_frame demo_map 12288"
proof -
  let ?b = "\<lambda>n. Stage1 \<lparr>bump_regions = demo_map, next_frame = n\<rparr>"
  have pages: "page_frames Size4KiB (Suc 0) a = {a}" for a by (auto simp: page_frames_def)
  have "boot_reachable demo_containing demo_frame demo_map (?b 1, {0})"
    using boot_reachable.step [OF boot_reachable.start boot_step.one [OF demo_stage1(1)]] by (simp add: pages)
  from boot_reachable.step [OF this boot_step.one [OF demo_stage1(2)]]
  have "boot_reachable demo_containing demo_frame demo_map (?b 2, {0, 4096})" by (simp add: pages insert_commute)
  from boot_reachable.step [OF this boot_step.stage2 [OF demo_stage1(4)]]
  have reach: "boot_reachable demo_containing demo_frame demo_map (Stage2 demo_stage2, {0, 4096})" .
  moreover obtain st' where "ms_allocate_frame demo_containing demo_frame Size4KiB (Stage2 demo_stage2) = Ok (Some 12288, st')"
    by (simp add: allocate_frame_def demo_stage2_def demo_eval)
  ultimately show ?thesis
    using boot_frames_exclusive [OF demo_map_ok(1) demo_frame_ok demo_map_ok(2) reach, of Size4KiB 12288 st' 1 "(0, 0)"]
      demo_map_ok demo_frame_ok pages [of 12288] by simp
qed

end
