(* ===== verification/Address_Space.thy ===== *)
theory Address_Space
  imports Boot_Phys Virt_Mem User_Ptr Vfs
begin

text \<open>
  Address spaces and the memory regions of a process (\<open>kernel/boot/src/mem/address_space\<close>,
  \<open>kernel/boot/src/mcore/mtask/process/mem.rs\<close>), and the check every system call makes of the user memory it
  touches (\<open>make_user_range_resident\<close> in \<open>kernel/boot/src/syscall/mod.rs\<close>).

  The page table itself, the addresses and the page ranges belong to the \<open>x86_64\<close> crate: the record
  \<open>paging\<close> holds these operations, and \<open>paging_ok\<close> says what their documentation promises.

  Shown here, for the lower half: after a successful check the whole range is mapped with the required
  access; only pages of a region of the process are ever mapped, with the flags of the region, and no
  mapping that was there changes; a page of a file-backed region holds exactly the bytes of the file and zeros after them.
\<close>

section \<open>The page table\<close>

datatype page_flag = PRESENT | WRITABLE | USER_ACCESSIBLE | NO_EXECUTE | Other_Flag nat

datatype map_error = FrameAllocationFailed | ParentEntryHugePage | PageAlreadyMapped nat
datatype flag_update_error = PageNotMapped | FlagParentEntryHugePage

text \<open>Pages are named by their start address. \<open>page_range\<close> is \<open>Page::range_inclusive\<close>, whose iteration can
  panic on the way; \<open>pt_translate\<close> gives the frame and the flags of a mapped page.\<close>

record 'pt paging =
  canonical :: "nat \<Rightarrow> bool"
  virt_add :: va_add
  page_range :: "nat \<Rightarrow> nat \<Rightarrow> nat opt_outcome list"
  containing :: "nat \<Rightarrow> nat opt_outcome"
  frame_at :: frame_constructor
  pt_translate :: "'pt \<Rightarrow> nat \<Rightarrow> (nat \<times> page_flag set) option"
  pt_map_to :: "nat \<Rightarrow> nat \<Rightarrow> page_flag set \<Rightarrow> 'pt \<Rightarrow> multi_stage_allocator
     \<Rightarrow> (map_error, unit) outcome \<times> 'pt \<times> multi_stage_allocator"
  pt_unmap :: "nat \<Rightarrow> 'pt \<Rightarrow> nat option \<times> 'pt"
  pt_update_flags :: "nat \<Rightarrow> page_flag set \<Rightarrow> 'pt \<Rightarrow> (flag_update_error, unit) outcome \<times> 'pt"

definition page_of :: "nat \<Rightarrow> nat" where
  "page_of a = a div 4096 * 4096"

definition pages_between :: "nat \<Rightarrow> nat \<Rightarrow> nat list" where
  "pages_between p q = map (\<lambda>i. p + i * 4096) [0..<(q - p) div 4096 + 1]"

text \<open>
  The table is a \<open>RecursivePageTable\<close>: one entry of its top level points to itself, so the tables
  show up as pages of a window in the upper half, and mapping a page that needs a new table also maps a
  page of that window. What the laws say of the other pages is therefore about the lower half.
\<close>

definition map_law :: "'pt paging \<Rightarrow> bool" where
  "map_law P \<longleftrightarrow> (\<forall>page frame fl t ph r t' ph'. pt_map_to P page frame fl t ph = (r, t', ph') \<longrightarrow>
     r \<noteq> Panic \<and> (\<forall>q < lower_half. q \<noteq> page \<longrightarrow> pt_translate P t' q = pt_translate P t q) \<and>
     (\<forall>f. r = Err (PageAlreadyMapped f) \<longrightarrow> pt_translate P t page \<noteq> None) \<and>
     (if r = Ok () then pt_translate P t page = None \<and> pt_translate P t' page = Some (frame, fl)
      else page < lower_half \<longrightarrow> pt_translate P t' page = pt_translate P t page))"

definition unmap_law :: "'pt paging \<Rightarrow> bool" where
  "unmap_law P \<longleftrightarrow> (\<forall>page t r t'. pt_unmap P page t = (r, t') \<longrightarrow>
     (\<forall>q < lower_half. q \<noteq> page \<longrightarrow> pt_translate P t' q = pt_translate P t q) \<and>
     (if r = None then t' = t else pt_translate P t' page = None))"

definition update_law :: "'pt paging \<Rightarrow> bool" where
  "update_law P \<longleftrightarrow> (\<forall>page fl t r t'. pt_update_flags P page fl t = (r, t') \<longrightarrow>
     r \<noteq> Panic \<and> (\<forall>q < lower_half. q \<noteq> page \<longrightarrow> pt_translate P t' q = pt_translate P t q) \<and>
     (if r = Ok () then pt_translate P t' page = map_option (\<lambda>(frame, _). (frame, fl)) (pt_translate P t page)
      else pt_translate P t' page = pt_translate P t page))"

definition range_law :: "'pt paging \<Rightarrow> bool" where
  "range_law P \<longleftrightarrow> (\<forall>p q. p \<le> q \<longrightarrow> q < lower_half \<longrightarrow> 4096 dvd p \<longrightarrow> 4096 dvd q \<longrightarrow>
     page_range P p q = map Ok (pages_between p q))"

definition paging_ok :: "'pt paging \<Rightarrow> bool" where
  "paging_ok P \<longleftrightarrow> map_law P \<and> unmap_law P \<and> update_law P \<and> range_law P"

section \<open>The address space\<close>

record lazy_region =
  lazy_segment :: segment
  lazy_size :: nat
  lazy_flags :: "page_flag set"
  physical_frames :: "(nat \<times> nat) list"

record file_backed_region =
  fbr_region :: lazy_region
  fbr_node :: vfs_node
  fbr_offset :: nat
  fbr_len :: nat

datatype mem_region =
    Lazy lazy_region
  | Mapped segment nat "nat \<times> nat"
  | FileBacked file_backed_region
  | Shared segment nat vfs_node

text \<open>What the operations change: the page table, the frame allocator, physical memory, the file systems and
  the regions of the process.\<close>

record ('pt, 'f) memory =
  table :: 'pt
  phys :: multi_stage_allocator
  ram :: "nat \<Rightarrow> u8"
  active :: bool
  files :: "'f vfs"
  mem_regions :: "mem_region list"

definition as_map :: "'pt paging \<Rightarrow> nat \<Rightarrow> nat \<Rightarrow> page_flag set \<Rightarrow> ('pt, 'f) memory \<Rightarrow> (map_error, unit, ('pt, 'f) memory) run" where
  "as_map P page frame fl m =
    (if \<not> active m then (Panic, m)
     else case pt_map_to P page frame fl (table m) (phys m) of (r, t, ph) \<Rightarrow> (r, m\<lparr>table := t, phys := ph\<rparr>))"

primrec as_map_range ::
  "'pt paging \<Rightarrow> nat opt_outcome list \<Rightarrow> nat list \<Rightarrow> page_flag set \<Rightarrow> ('pt, 'f) memory \<Rightarrow> (map_error, unit, ('pt, 'f) memory) run" where
  "as_map_range P [] frs fl m = (Ok (), m)"
| "as_map_range P (page # pages) frs fl m =
    (case (page, frs) of
       (Ok page, frame # frs) \<Rightarrow> sbind (as_map P page frame fl m) (\<lambda>_ m. as_map_range P pages frs fl m)
     | (Ok page, []) \<Rightarrow> (Err FrameAllocationFailed, m)
     | _ \<Rightarrow> (Panic, m))"

definition as_unmap :: "'pt paging \<Rightarrow> nat \<Rightarrow> ('pt, 'f) memory \<Rightarrow> (unit, nat option, ('pt, 'f) memory) run" where
  "as_unmap P page m =
    (if \<not> active m then (Panic, m) else case pt_unmap P page (table m) of (r, t) \<Rightarrow> (Ok r, m\<lparr>table := t\<rparr>))"

primrec as_unmap_range :: "'pt paging \<Rightarrow> nat opt_outcome list \<Rightarrow> ('pt, 'f) memory \<Rightarrow> (unit, unit, ('pt, 'f) memory) run" where
  "as_unmap_range P [] m = (Ok (), m)"
| "as_unmap_range P (page # pages) m =
    (case page of Ok page \<Rightarrow> sbind (as_unmap P page m) (\<lambda>_ m. as_unmap_range P pages m) | _ \<Rightarrow> (Panic, m))"

definition as_remap ::
  "'pt paging \<Rightarrow> nat \<Rightarrow> (page_flag set \<Rightarrow> page_flag set) \<Rightarrow> ('pt, 'f) memory \<Rightarrow> (flag_update_error, unit, ('pt, 'f) memory) run" where
  "as_remap P page f m =
    (if \<not> active m then (Panic, m)
     else case pt_translate P (table m) page of
       None \<Rightarrow> (Err PageNotMapped, m)
     | Some (_, fl) \<Rightarrow> (case pt_update_flags P page (f fl) (table m) of (r, t) \<Rightarrow> (r, m\<lparr>table := t\<rparr>)))"

primrec as_remap_range ::
  "'pt paging \<Rightarrow> nat opt_outcome list \<Rightarrow> (page_flag set \<Rightarrow> page_flag set) \<Rightarrow> ('pt, 'f) memory
   \<Rightarrow> (flag_update_error, unit, ('pt, 'f) memory) run" where
  "as_remap_range P [] f m = (Ok (), m)"
| "as_remap_range P (page # pages) f m =
    (case page of Ok page \<Rightarrow> sbind (as_remap P page f m) (\<lambda>_ m. as_remap_range P pages f m) | _ \<Rightarrow> (Panic, m))"

definition translate :: "'pt paging \<Rightarrow> ('pt, 'f) memory \<Rightarrow> nat \<Rightarrow> nat option" where
  "translate P m vaddr = map_option (\<lambda>(frame, _). frame + (vaddr - page_of vaddr)) (pt_translate P (table m) (page_of vaddr))"

definition translate_flags :: "'pt paging \<Rightarrow> ('pt, 'f) memory \<Rightarrow> nat \<Rightarrow> page_flag set option" where
  "translate_flags P m vaddr = map_option snd (pt_translate P (table m) (page_of vaddr))"

text \<open>The iterator stops at the first page without the flags.\<close>

primrec all_flags :: "'pt paging \<Rightarrow> page_flag set \<Rightarrow> nat opt_outcome list \<Rightarrow> ('pt, 'f) memory \<Rightarrow> bool opt_outcome" where
  "all_flags P required [] m = Ok True"
| "all_flags P required (page # pages) m =
    obind page (\<lambda>page. case translate_flags P m page of
      Some fl \<Rightarrow> if required \<subseteq> fl then all_flags P required pages m else Ok False
    | None \<Rightarrow> Ok False)"

definition is_user_accessible :: "'pt paging \<Rightarrow> nat \<Rightarrow> nat \<Rightarrow> page_flag set \<Rightarrow> ('pt, 'f) memory \<Rightarrow> bool opt_outcome" where
  "is_user_accessible P addr n required m =
    (if n = 0 then Ok True
     else case checked_add addr (n - 1) of
       None \<Rightarrow> Ok False
     | Some last_addr \<Rightarrow>
         if \<not> canonical P last_addr then Ok False
         else all_flags P required (page_range P (page_of addr) (page_of last_addr)) m)"

definition is_user_writable :: "'pt paging \<Rightarrow> nat \<Rightarrow> nat \<Rightarrow> ('pt, 'f) memory \<Rightarrow> bool opt_outcome" where
  "is_user_writable P addr n m = is_user_accessible P addr n {PRESENT, WRITABLE, USER_ACCESSIBLE} m"

definition is_user_readable :: "'pt paging \<Rightarrow> nat \<Rightarrow> nat \<Rightarrow> ('pt, 'f) memory \<Rightarrow> bool opt_outcome" where
  "is_user_readable P addr n m = is_user_accessible P addr n {PRESENT, USER_ACCESSIBLE} m"

section \<open>Memory regions\<close>

definition add_region :: "mem_region \<Rightarrow> ('pt, 'f) memory \<Rightarrow> ('pt, 'f) memory" where
  "add_region r m = m\<lparr>mem_regions := mem_regions m @ [r]\<rparr>"

fun region_addr :: "mem_region \<Rightarrow> nat" where
  "region_addr (Lazy r) = start (lazy_segment r)"
| "region_addr (Mapped seg n _) = start seg"
| "region_addr (FileBacked r) = start (lazy_segment (fbr_region r))"
| "region_addr (Shared seg n _) = start seg"

fun region_size :: "mem_region \<Rightarrow> nat" where
  "region_size (Lazy r) = lazy_size r"
| "region_size (Mapped seg n _) = n"
| "region_size (FileBacked r) = lazy_size (fbr_region r)"
| "region_size (Shared seg n _) = n"

text \<open>The end of a region is computed with \<open>VirtAddr + u64\<close>, the operation \<open>virt_add\<close>, which panics on an
  address that is not canonical; the search ends at the first region that contains the address.\<close>

definition region_contains :: "'pt paging \<Rightarrow> mem_region \<Rightarrow> nat \<Rightarrow> bool opt_outcome" where
  "region_contains P r addr =
    (if region_addr r \<le> addr then obind (virt_add P (region_addr r) (region_size r)) (\<lambda>stop. Ok (addr < stop))
     else Ok False)"

primrec find_region :: "'pt paging \<Rightarrow> nat \<Rightarrow> mem_region list \<Rightarrow> nat option opt_outcome" where
  "find_region P addr [] = Ok None"
| "find_region P addr (r # rs) =
    obind (region_contains P r addr) (\<lambda>found.
      if found then Ok (Some 0) else obind (find_region P addr rs) (\<lambda>i. Ok (map_option Suc i)))"

definition region_for :: "'pt paging \<Rightarrow> ('pt, 'f) memory \<Rightarrow> nat \<Rightarrow> nat option opt_outcome" where
  "region_for P m addr = find_region P addr (mem_regions m)"

definition is_memory_region_at_address :: "'pt paging \<Rightarrow> ('pt, 'f) memory \<Rightarrow> nat \<Rightarrow> bool opt_outcome" where
  "is_memory_region_at_address P m addr = obind (find_region P addr (mem_regions m)) (\<lambda>i. Ok (i \<noteq> None))"

datatype page_in_error = OutOfMemory | MapFailed | PageReadFailed

text \<open>Taking a frame, the owner of one frame, and dropping an owner.\<close>

definition take_frame :: "'pt paging \<Rightarrow> ('pt, 'f) memory \<Rightarrow> (page_in_error, nat, ('pt, 'f) memory) run" where
  "take_frame P m =
    (case ms_allocate_frame (containing P) (frame_at P) Size4KiB (phys m) of
       Ok (Some frame, ph) \<Rightarrow> (Ok frame, m\<lparr>phys := ph\<rparr>)
     | Ok (None, ph) \<Rightarrow> (Err OutOfMemory, m\<lparr>phys := ph\<rparr>)
     | _ \<Rightarrow> (Panic, m))"

definition owned_from_frame :: "'pt paging \<Rightarrow> nat \<Rightarrow> ('e, nat \<times> nat) outcome" where
  "owned_from_frame P frame = (case containing P (frame + page_bytes Size4KiB - 1) of Ok e \<Rightarrow> Ok (frame, e) | _ \<Rightarrow> Panic)"

definition drop_owned :: "nat \<times> nat \<Rightarrow> ('pt, 'f) memory \<Rightarrow> ('e, unit, ('pt, 'f) memory) run" where
  "drop_owned rng m =
    (case ms_deallocate_frames Size4KiB rng (phys m) of Ok ph \<Rightarrow> (Ok (), m\<lparr>phys := ph\<rparr>) | _ \<Rightarrow> (Panic, m))"

text \<open>The page as a buffer: its frame in physical memory.\<close>

definition page_buffer :: "'pt paging \<Rightarrow> nat \<Rightarrow> ('pt, 'f) memory \<Rightarrow> bytes option" where
  "page_buffer P page m = map_option (\<lambda>(frame, _). read_bytes frame 4096 (ram m)) (pt_translate P (table m) page)"

definition store_page :: "'pt paging \<Rightarrow> nat \<Rightarrow> bytes \<Rightarrow> ('pt, 'f) memory \<Rightarrow> ('pt, 'f) memory" where
  "store_page P page buf m =
    (case pt_translate P (table m) page of None \<Rightarrow> m | Some (frame, _) \<Rightarrow> m\<lparr>ram := write_bytes frame buf (ram m)\<rparr>)"

type_synonym 'f filler = "bytes \<Rightarrow> 'f vfs \<Rightarrow> ((page_in_error, unit) outcome \<times> bytes) \<times> 'f vfs"

definition fill_page :: "'pt paging \<Rightarrow> nat \<Rightarrow> 'f filler \<Rightarrow> ('pt, 'f) memory \<Rightarrow> (page_in_error, unit, ('pt, 'f) memory) run" where
  "fill_page P page fill m =
    (case page_buffer P page m of
       None \<Rightarrow> (Panic, m)
     | Some buf \<Rightarrow> (case fill buf (files m) of ((r, buf), fs) \<Rightarrow> (r, store_page P page buf (m\<lparr>files := fs\<rparr>))))"

text \<open>What \<open>map_and_fill\<close> does once the page is mapped.\<close>

definition after_map ::
  "'pt paging \<Rightarrow> lazy_region \<Rightarrow> nat \<Rightarrow> 'f filler \<Rightarrow> nat \<times> nat \<Rightarrow> ('pt, 'f) memory
   \<Rightarrow> (page_in_error, lazy_region, ('pt, 'f) memory) run" where
  "after_map P r page fill owned m =
    (case fill_page P page fill m of
       (Panic, m) \<Rightarrow> (Panic, m)
     | (Err e, m) \<Rightarrow>
         (case as_unmap P page m of
            (Ok _, m) \<Rightarrow> sbind (drop_owned owned m) (\<lambda>_ m. (Err e, m))
          | (_, m) \<Rightarrow> (Panic, m))
     | (Ok _, m) \<Rightarrow>
         (case as_remap P page (\<lambda>_. lazy_flags r) m of
            (Ok _, m) \<Rightarrow> (Ok (r\<lparr>physical_frames := physical_frames r @ [owned]\<rparr>), m)
          | (Err _, m) \<Rightarrow> sbind (drop_owned owned m) (\<lambda>_ m. (Err MapFailed, m))
          | (Panic, m) \<Rightarrow> (Panic, m)))"

definition map_and_fill ::
  "'pt paging \<Rightarrow> lazy_region \<Rightarrow> nat \<Rightarrow> 'f filler \<Rightarrow> ('pt, 'f) memory \<Rightarrow> (page_in_error, lazy_region, ('pt, 'f) memory) run" where
  "map_and_fill P r page fill m =
    sbind (take_frame P m) (\<lambda>frame m.
    lift_pure (owned_from_frame P frame) m (\<lambda>owned.
    case as_map P page frame {PRESENT, WRITABLE, USER_ACCESSIBLE, NO_EXECUTE} m of
      (Err (PageAlreadyMapped _), m) \<Rightarrow> sbind (drop_owned owned m) (\<lambda>_ m. (Ok r, m))
    | (Err _, m) \<Rightarrow> sbind (drop_owned owned m) (\<lambda>_ m. (Err MapFailed, m))
    | (Panic, m) \<Rightarrow> (Panic, m)
    | (Ok _, m) \<Rightarrow> after_map P r page fill owned m))"

definition map_zeroed ::
  "'pt paging \<Rightarrow> lazy_region \<Rightarrow> nat \<Rightarrow> ('pt, 'f) memory \<Rightarrow> (page_in_error, lazy_region, ('pt, 'f) memory) run" where
  "map_zeroed P r page m = map_and_fill P r page (\<lambda>buf fs. ((Ok (), replicate (length buf) 0), fs)) m"

text \<open>The loop that reads the file into the page; \<open>rd\<close> is the read method of the node. It ends because every
  round but the last one reads something.\<close>

function read_fill ::
  "(bytes \<Rightarrow> nat \<Rightarrow> 's \<Rightarrow> ((read_error, nat) outcome \<times> bytes) \<times> 's) \<Rightarrow> nat \<Rightarrow> nat \<Rightarrow> nat \<Rightarrow> nat \<Rightarrow> bytes \<Rightarrow> 's
   \<Rightarrow> ((page_in_error, nat) outcome \<times> bytes) \<times> 's" where
  "read_fill rd file_offset off from_file did buf s =
    (if did < from_file
     then case Option.bind (checked_add file_offset off) (\<lambda>a. checked_add a did) of
         None \<Rightarrow> ((Panic, buf), s)
       | Some at \<Rightarrow>
           (case rd (slice did from_file buf) at s of
              ((Ok n, part), s) \<Rightarrow>
                if n = 0 then ((Ok did, overwrite did part buf), s)
                else read_fill rd file_offset off from_file (did + n) (overwrite did part buf) s
            | ((Err _, part), s) \<Rightarrow> ((Err PageReadFailed, overwrite did part buf), s)
            | ((Panic, part), s) \<Rightarrow> ((Panic, overwrite did part buf), s))
     else ((Ok did, buf), s))"
  by pat_completeness auto
termination by (relation "measure (\<lambda>(rd, file_offset, off, from_file, did, buf, s). from_file - did)") auto

declare read_fill.simps [simp del]

definition fill_from_file ::
  "(bytes \<Rightarrow> nat \<Rightarrow> 's \<Rightarrow> ((read_error, nat) outcome \<times> bytes) \<times> 's) \<Rightarrow> nat \<Rightarrow> nat \<Rightarrow> nat \<Rightarrow> bytes \<Rightarrow> 's
   \<Rightarrow> ((page_in_error, unit) outcome \<times> bytes) \<times> 's" where
  "fill_from_file rd file_offset off from_file buf s =
    (case read_fill rd file_offset off from_file 0 (overwrite from_file (replicate (length buf - from_file) 0) buf) s of
       ((Ok did, buf), s) \<Rightarrow>
         if did \<le> from_file then ((Ok (), overwrite did (replicate (from_file - did) 0) buf), s) else ((Panic, buf), s)
     | ((Err e, buf), s) \<Rightarrow> ((Err e, buf), s)
     | ((Panic, buf), s) \<Rightarrow> ((Panic, buf), s))"

definition page_in ::
  "'f file_system \<Rightarrow> 'pt paging \<Rightarrow> file_backed_region \<Rightarrow> nat \<Rightarrow> ('pt, 'f) memory
   \<Rightarrow> (page_in_error, file_backed_region, ('pt, 'f) memory) run" where
  "page_in ops P fb page m =
    lift_pure (unwrap (checked_sub page (start (lazy_segment (fbr_region fb))))) m (\<lambda>off.
    let from_file = min (fbr_len fb - off) (page_bytes Size4KiB) in
    sbind (map_and_fill P (fbr_region fb) page (fill_from_file (node_read ops (fbr_node fb)) (fbr_offset fb) off from_file) m)
      (\<lambda>r m. (Ok (fb\<lparr>fbr_region := r\<rparr>), m)))"

definition populate_page ::
  "'f file_system \<Rightarrow> 'pt paging \<Rightarrow> nat \<Rightarrow> ('pt, 'f) memory \<Rightarrow> (page_in_error, unit, ('pt, 'f) memory) run" where
  "populate_page ops P page m =
    (if translate P m page \<noteq> None then (Ok (), m)
     else case region_for P m page of
       Err e \<Rightarrow> (Panic, m)
     | Panic \<Rightarrow> (Panic, m)
     | Ok None \<Rightarrow> (Ok (), m)
     | Ok (Some i) \<Rightarrow>
         (case mem_regions m ! i of
            Lazy r \<Rightarrow> sbind (map_zeroed P r page m) (\<lambda>r m. (Ok (), m\<lparr>mem_regions := (mem_regions m)[i := Lazy r]\<rparr>))
          | FileBacked r \<Rightarrow> sbind (page_in ops P r page m) (\<lambda>r m. (Ok (), m\<lparr>mem_regions := (mem_regions m)[i := FileBacked r]\<rparr>))
          | _ \<Rightarrow> (Ok (), m)))"

primrec populate_pages ::
  "'f file_system \<Rightarrow> 'pt paging \<Rightarrow> nat opt_outcome list \<Rightarrow> ('pt, 'f) memory \<Rightarrow> (page_in_error, unit, ('pt, 'f) memory) run" where
  "populate_pages ops P [] m = (Ok (), m)"
| "populate_pages ops P (page # pages) m =
    (case page of
       Ok page \<Rightarrow> sbind (populate_page ops P page m) (\<lambda>_ m. populate_pages ops P pages m)
     | _ \<Rightarrow> (Panic, m))"

definition populate ::
  "'f file_system \<Rightarrow> 'pt paging \<Rightarrow> nat \<Rightarrow> nat \<Rightarrow> ('pt, 'f) memory \<Rightarrow> (page_in_error, unit, ('pt, 'f) memory) run" where
  "populate ops P addr n m =
    (case Option.bind (checked_sub n 1) (checked_add addr) of
       None \<Rightarrow> (Ok (), m)
     | Some last_addr \<Rightarrow>
         if \<not> canonical P last_addr then (Ok (), m)
         else populate_pages ops P (page_range P (page_of addr) (page_of last_addr)) m)"

text \<open>Tearing down all regions. The address of the last byte is computed with \<open>VirtAddr + u64\<close>, which panics
  on an address that is not canonical.\<close>

primrec clear_regions :: "'pt paging \<Rightarrow> mem_region list \<Rightarrow> ('pt, 'f) memory \<Rightarrow> (unit, unit, ('pt, 'f) memory) run" where
  "clear_regions P [] m = (Ok (), m)"
| "clear_regions P (r # rs) m =
    (if region_size r = 0 then clear_regions P rs m
     else case virt_add P (region_addr r) (region_size r - 1) of
       Ok last_addr \<Rightarrow>
         sbind (as_unmap_range P (page_range P (page_of (region_addr r)) (page_of last_addr)) m)
           (\<lambda>_ m. clear_regions P rs m)
     | _ \<Rightarrow> (Panic, m))"

definition mem_clear :: "'pt paging \<Rightarrow> ('pt, 'f) memory \<Rightarrow> (unit, unit, ('pt, 'f) memory) run" where
  "mem_clear P m = clear_regions P (mem_regions m) (m\<lparr>mem_regions := []\<rparr>)"

section \<open>The memory of a system call\<close>

datatype user_access = AccessRead | AccessWrite

fun errno_of_page_in :: "page_in_error \<Rightarrow> errno" where
  "errno_of_page_in OutOfMemory = ENOMEM"
| "errno_of_page_in MapFailed = EFAULT"
| "errno_of_page_in PageReadFailed = EIO"

definition make_user_range_resident ::
  "'f file_system \<Rightarrow> 'pt paging \<Rightarrow> nat \<Rightarrow> nat \<Rightarrow> user_access \<Rightarrow> ('pt, 'f) memory \<Rightarrow> (errno, unit, ('pt, 'f) memory) run" where
  "make_user_range_resident ops P ptr n access m =
    (if \<not> canonical P ptr then (Err EFAULT, m)
     else case populate ops P ptr n m of
       (Err e, m) \<Rightarrow> (Err (errno_of_page_in e), m)
     | (Panic, m) \<Rightarrow> (Panic, m)
     | (Ok _, m) \<Rightarrow>
         (case (case access of AccessRead \<Rightarrow> is_user_readable P ptr n m | AccessWrite \<Rightarrow> is_user_writable P ptr n m) of
            Ok True \<Rightarrow> (Ok (), m)
          | Ok False \<Rightarrow> (Err EFAULT, m)
          | _ \<Rightarrow> (Panic, m)))"

section \<open>What paging in changes\<close>

abbreviation mapping :: "'pt paging \<Rightarrow> ('pt, 'f) memory \<Rightarrow> nat \<Rightarrow> (nat \<times> page_flag set) option" where
  "mapping P m q \<equiv> pt_translate P (table m) q"

lemma paging_map:
  assumes "paging_ok P" and "as_map P page frame fl m = (r, m')" and "r \<noteq> Panic"
  shows "q < lower_half \<Longrightarrow> q \<noteq> page \<Longrightarrow> mapping P m' q = mapping P m q"
    and "r = Ok () \<Longrightarrow> mapping P m page = None \<and> mapping P m' page = Some (frame, fl)"
    and "r = Err e \<Longrightarrow> page < lower_half \<Longrightarrow> mapping P m' page = mapping P m page"
    and "r = Err (PageAlreadyMapped f) \<Longrightarrow> mapping P m page \<noteq> None"
    and "mem_regions m' = mem_regions m" and "files m' = files m" and "ram m' = ram m" and "active m' = active m"
proof -
  obtain t ph where t: "pt_map_to P page frame fl (table m) (phys m) = (r, t, ph)" "m' = m\<lparr>table := t, phys := ph\<rparr>"
    using assms(2,3) by (auto simp: as_map_def split: if_splits prod.splits)
  have law: "(\<forall>q < lower_half. q \<noteq> page \<longrightarrow> pt_translate P t q = mapping P m q) \<and>
      (\<forall>f. r = Err (PageAlreadyMapped f) \<longrightarrow> mapping P m page \<noteq> None) \<and>
      (if r = Ok () then mapping P m page = None \<and> pt_translate P t page = Some (frame, fl)
       else page < lower_half \<longrightarrow> pt_translate P t page = mapping P m page)"
    using assms(1) t(1) unfolding paging_ok_def map_law_def by blast
  show "q < lower_half \<Longrightarrow> q \<noteq> page \<Longrightarrow> mapping P m' q = mapping P m q"
    "r = Ok () \<Longrightarrow> mapping P m page = None \<and> mapping P m' page = Some (frame, fl)"
    "r = Err e \<Longrightarrow> page < lower_half \<Longrightarrow> mapping P m' page = mapping P m page"
    "r = Err (PageAlreadyMapped f) \<Longrightarrow> mapping P m page \<noteq> None"
    using law t(2) by simp_all
  show "mem_regions m' = mem_regions m" "files m' = files m" "ram m' = ram m" "active m' = active m"
    using t(2) by simp_all
qed

lemma paging_unmap:
  assumes "paging_ok P" and "as_unmap P page m = (Ok r, m')"
  shows "q < lower_half \<Longrightarrow> q \<noteq> page \<Longrightarrow> mapping P m' q = mapping P m q" and "mem_regions m' = mem_regions m"
    and "mapping P m' page = None \<or> mapping P m' page = mapping P m page"
proof -
  obtain t where t: "pt_unmap P page (table m) = (r, t)" "m' = m\<lparr>table := t\<rparr>"
    using assms(2) by (auto simp: as_unmap_def split: if_splits prod.splits)
  have law: "(\<forall>q < lower_half. q \<noteq> page \<longrightarrow> pt_translate P t q = mapping P m q) \<and>
      (if r = None then t = table m else pt_translate P t page = None)"
    using assms(1) t(1) unfolding paging_ok_def unmap_law_def by blast
  show "q < lower_half \<Longrightarrow> q \<noteq> page \<Longrightarrow> mapping P m' q = mapping P m q" "mem_regions m' = mem_regions m"
    "mapping P m' page = None \<or> mapping P m' page = mapping P m page"
    using law t(2) by (auto split: if_splits)
qed

lemma paging_remap:
  assumes "paging_ok P" and "as_remap P page f m = (r, m')" and "r \<noteq> Panic"
  shows "q < lower_half \<Longrightarrow> q \<noteq> page \<Longrightarrow> mapping P m' q = mapping P m q" and "mem_regions m' = mem_regions m"
    and "ram m' = ram m" and "files m' = files m"
    and "r = Ok () \<Longrightarrow> \<exists>frame fl. mapping P m page = Some (frame, fl) \<and> mapping P m' page = Some (frame, f fl)"
    and "r = Err e \<Longrightarrow> mapping P m' page = mapping P m page"
proof -
  have "(q < lower_half \<longrightarrow> q \<noteq> page \<longrightarrow> mapping P m' q = mapping P m q) \<and> mem_regions m' = mem_regions m \<and> ram m' = ram m \<and> files m' = files m \<and>
    (r = Ok () \<longrightarrow> (\<exists>frame fl. mapping P m page = Some (frame, fl) \<and> mapping P m' page = Some (frame, f fl))) \<and>
    (r = Err e \<longrightarrow> mapping P m' page = mapping P m page)"
  proof (cases "mapping P m page")
    case None
    then show ?thesis using assms(2,3) by (auto simp: as_remap_def split: if_splits)
  next
    case (Some p)
    obtain frame fl where p: "p = (frame, fl)" by (cases p)
    obtain t where t: "pt_update_flags P page (f fl) (table m) = (r, t)" "m' = m\<lparr>table := t\<rparr>"
      using assms(2,3) Some p by (auto simp: as_remap_def split: if_splits prod.splits)
    have "(\<forall>q < lower_half. q \<noteq> page \<longrightarrow> pt_translate P t q = mapping P m q) \<and>
       (if r = Ok () then pt_translate P t page = map_option (\<lambda>(frame, _). (frame, f fl)) (mapping P m page)
        else pt_translate P t page = mapping P m page)"
      using assms(1) t(1) unfolding paging_ok_def update_law_def by blast
    then show ?thesis using t(2) Some p by auto
  qed
  then show "q < lower_half \<Longrightarrow> q \<noteq> page \<Longrightarrow> mapping P m' q = mapping P m q" "mem_regions m' = mem_regions m" "ram m' = ram m" "files m' = files m"
    "r = Ok () \<Longrightarrow> \<exists>frame fl. mapping P m page = Some (frame, fl) \<and> mapping P m' page = Some (frame, f fl)"
    "r = Err e \<Longrightarrow> mapping P m' page = mapping P m page"
    by blast+
qed

lemma take_frame_rest:
  assumes "take_frame P m = (r, m')"
  shows "table m' = table m" "mem_regions m' = mem_regions m" "ram m' = ram m" "files m' = files m"
  using assms by (auto simp: take_frame_def split: outcome.splits option.splits)

lemma drop_owned_rest:
  assumes "drop_owned rng m = (r, m')"
  shows "table m' = table m" "mem_regions m' = mem_regions m" "ram m' = ram m" "files m' = files m" "r \<noteq> Err e"
  using assms by (auto simp: drop_owned_def split: outcome.splits)

lemma store_page_rest [simp]:
  "table (store_page P page buf m) = table m" "mem_regions (store_page P page buf m) = mem_regions m"
  "files (store_page P page buf m) = files m" "active (store_page P page buf m) = active m"
  by (auto simp: store_page_def split: option.splits)

lemma fill_page_rest:
  assumes "fill_page P page fill m = (r, m')"
  shows "table m' = table m" "mem_regions m' = mem_regions m"
  using assms by (auto simp: fill_page_def split: option.splits prod.splits)

lemma then_drop:
  assumes "sbind (drop_owned owned m) (\<lambda>_ m. (x :: ('e, 'a) outcome, m)) = (res, m')" and "res \<noteq> Panic"
  shows "table m' = table m" "mem_regions m' = mem_regions m" "res = x"
proof -
  obtain r :: "('e, unit) outcome" and m1 where d: "drop_owned owned m = (r, m1)" by fastforce
  note rest = drop_owned_rest [OF d]
  show "table m' = table m" "mem_regions m' = mem_regions m" "res = x"
    using assms d rest by (cases r; auto)+
qed

text \<open>The effect of paging in one page.\<close>

definition paged :: "'pt paging \<Rightarrow> page_flag set \<Rightarrow> nat \<Rightarrow> ('pt, 'f) memory \<Rightarrow> bool \<Rightarrow> ('pt, 'f) memory \<Rightarrow> bool" where
  "paged P fl page m success m' \<longleftrightarrow>
    (\<forall>q < lower_half. q \<noteq> page \<or> mapping P m page \<noteq> None \<longrightarrow> mapping P m' q = mapping P m q) \<and>
    mem_regions m' = mem_regions m \<and>
    (success \<longrightarrow> mapping P m page = None \<longrightarrow> (\<exists>f. mapping P m' page = Some (f, fl)))"

lemma pagedI_same:
  "table m' = table m \<Longrightarrow> mem_regions m' = mem_regions m \<Longrightarrow> \<not> success \<or> mapping P m page \<noteq> None \<Longrightarrow> paged P fl page m success m'"
  by (simp add: paged_def)

lemma after_map_effect:
  assumes P: "paging_ok P" and run: "after_map P r page fill owned m = (res, m')" and res: "res \<noteq> Panic"
  shows "q < lower_half \<Longrightarrow> q \<noteq> page \<Longrightarrow> mapping P m' q = mapping P m q" and "mem_regions m' = mem_regions m"
    and "res = Ok r' \<Longrightarrow> r' = r\<lparr>physical_frames := physical_frames r @ [owned]\<rparr> \<and>
      (\<exists>f fl. mapping P m page = Some (f, fl) \<and> mapping P m' page = Some (f, lazy_flags r))"
proof -
  obtain fr m1 where fill: "fill_page P page fill m = (fr, m1)" by fastforce
  note f = fill_page_rest [OF fill]
  have "(q < lower_half \<longrightarrow> q \<noteq> page \<longrightarrow> mapping P m' q = mapping P m q) \<and> mem_regions m' = mem_regions m \<and>
    (res = Ok r' \<longrightarrow> r' = r\<lparr>physical_frames := physical_frames r @ [owned]\<rparr> \<and>
      (\<exists>f fl. mapping P m page = Some (f, fl) \<and> mapping P m' page = Some (f, lazy_flags r)))"
  proof (cases fr)
    case (Ok u)
    obtain rr m2 where remap: "as_remap P page (\<lambda>_. lazy_flags r) m1 = (rr, m2)" by fastforce
    have rr: "rr \<noteq> Panic" using run res fill Ok remap by (auto simp: after_map_def)
    note pr = paging_remap [OF P remap rr]
    show ?thesis
    proof (cases rr)
      case (Ok v)
      then have "res = Ok (r\<lparr>physical_frames := physical_frames r @ [owned]\<rparr>)" "m' = m2"
        using run fill \<open>fr = Ok u\<close> remap by (simp_all add: after_map_def)
      then show ?thesis using pr(1,2,5) Ok f by auto
    next
      case (Err e)
      then have "sbind (drop_owned owned m2) (\<lambda>_ m. (Err MapFailed, m)) = (res, m')"
        using run fill \<open>fr = Ok u\<close> remap by (simp add: after_map_def)
      from then_drop [OF this res] show ?thesis using pr(1,2) f by auto
    qed (use rr in simp)
  next
    case (Err e)
    obtain ur m2 where unmap: "as_unmap P page m1 = (ur, m2)" by fastforce
    then obtain u where u: "ur = Ok u" using run res fill Err by (cases ur) (auto simp: after_map_def)
    note pu = paging_unmap [OF P unmap [unfolded u]]
    have "sbind (drop_owned owned m2) (\<lambda>_ m. (Err e, m)) = (res, m')"
      using run fill Err unmap u by (simp add: after_map_def)
    from then_drop [OF this res] show ?thesis using pu(1,2) f by auto
  next
    case Panic
    then show ?thesis using run res fill by (auto simp: after_map_def)
  qed
  then show "q < lower_half \<Longrightarrow> q \<noteq> page \<Longrightarrow> mapping P m' q = mapping P m q" "mem_regions m' = mem_regions m"
    "res = Ok r' \<Longrightarrow> r' = r\<lparr>physical_frames := physical_frames r @ [owned]\<rparr> \<and>
      (\<exists>f fl. mapping P m page = Some (f, fl) \<and> mapping P m' page = Some (f, lazy_flags r))"
    by blast+
qed

text \<open>A run of \<open>map_and_fill\<close>: no frame, the page could not be mapped, or the steps after the mapping.\<close>

lemma map_and_fill_cases:
  assumes run: "map_and_fill P r page fill m = (res, m')" and res: "res \<noteq> Panic"
  obtains (no_frame) "table m' = table m" "mem_regions m' = mem_regions m" "\<not> is_ok res"
  | (not_mapped) frame m1 e m2 where "take_frame P m = (Ok frame, m1)"
      "as_map P page frame {PRESENT, WRITABLE, USER_ACCESSIBLE, NO_EXECUTE} m1 = (Err e, m2)"
      "table m' = table m2" "mem_regions m' = mem_regions m2" "is_ok res \<Longrightarrow> res = Ok r \<and> (\<exists>f. e = PageAlreadyMapped f)"
  | (filled) frame m1 u m2 owned where "take_frame P m = (Ok frame, m1)"
      "as_map P page frame {PRESENT, WRITABLE, USER_ACCESSIBLE, NO_EXECUTE} m1 = (Ok u, m2)"
      "after_map P r page fill owned m2 = (res, m')"
proof (cases "take_frame P m")
  case (Pair tf m1)
  note t = take_frame_rest [OF Pair]
  show ?thesis
  proof (cases tf)
    case (Ok frame)
    obtain owned where owned: "(owned_from_frame P frame :: (page_in_error, nat \<times> nat) outcome) = Ok owned"
      using run res Pair Ok by (cases "owned_from_frame P frame :: (page_in_error, nat \<times> nat) outcome")
        (auto simp: map_and_fill_def owned_from_frame_def split: outcome.splits)
    obtain mr m2 where map: "as_map P page frame {PRESENT, WRITABLE, USER_ACCESSIBLE, NO_EXECUTE} m1 = (mr, m2)"
      by fastforce
    note eq = run [unfolded map_and_fill_def Pair Ok sbind_simps owned lift_pure_simps map]
    show ?thesis
    proof (cases mr)
      case mr: (Ok u)
      then show ?thesis using filled [of frame m1 u m2 owned] Pair Ok map eq by simp
    next
      case mr: (Err e)
      have "sbind (drop_owned owned m2) (\<lambda>_ m. (if \<exists>f. e = PageAlreadyMapped f then Ok r else Err MapFailed, m)) = (res, m')"
        using eq mr by (cases e) auto
      from then_drop [OF this res] show ?thesis
        using not_mapped [of frame m1 e m2] Pair Ok map mr by (auto split: if_splits)
    next
      case Panic
      then show ?thesis using eq res by simp
    qed
  next
    case (Err e)
    then show ?thesis using no_frame run Pair t by (auto simp: map_and_fill_def)
  next
    case Panic
    then show ?thesis using run res Pair by (simp add: map_and_fill_def)
  qed
qed

lemma map_and_fill_paged:
  assumes P: "paging_ok P" and run: "map_and_fill P r page fill m = (res, m')" and res: "res \<noteq> Panic"
  shows "paged P (lazy_flags r) page m (is_ok res) m'"
    and "res = Ok r' \<Longrightarrow> lazy_segment r' = lazy_segment r \<and> lazy_size r' = lazy_size r \<and> lazy_flags r' = lazy_flags r"
proof -
  have "paged P (lazy_flags r) page m (is_ok res) m' \<and>
    (\<forall>r'. res = Ok r' \<longrightarrow> lazy_segment r' = lazy_segment r \<and> lazy_size r' = lazy_size r \<and> lazy_flags r' = lazy_flags r)"
    using run res
  proof (cases rule: map_and_fill_cases)
    case no_frame
    then show ?thesis by (auto intro: pagedI_same)
  next
    case (not_mapped frame m1 e m2)
    note t = take_frame_rest [OF not_mapped(1)]
    note pm = paging_map [OF P not_mapped(2)]
    have same: "mapping P m' q = mapping P m q" if "q < lower_half" for q
      using pm(1,3) not_mapped(3) t(1) that by (cases "q = page") simp_all
    have "is_ok res \<Longrightarrow> mapping P m page \<noteq> None" using not_mapped(5) pm(4) t(1) by auto
    then show ?thesis using same pm(5) not_mapped(4,5) t(2) by (auto simp: paged_def)
  next
    case (filled frame m1 u m2 owned)
    note t = take_frame_rest [OF filled(1)]
    note pm = paging_map [OF P filled(2)]
    note am = after_map_effect [OF P filled(3) res]
    have none: "mapping P m page = None" using pm(2) t(1) by simp
    have "q < lower_half \<Longrightarrow> q \<noteq> page \<Longrightarrow> mapping P m' q = mapping P m q" for q using am(1) pm(1) t(1) by simp
    moreover have "is_ok res \<Longrightarrow> \<exists>f. mapping P m' page = Some (f, lazy_flags r)" using am(3) by (auto simp: is_ok_iff)
    ultimately show ?thesis using none am(2,3) pm(5) t(2) by (auto simp: paged_def)
  qed
  then show "paged P (lazy_flags r) page m (is_ok res) m'"
    "res = Ok r' \<Longrightarrow> lazy_segment r' = lazy_segment r \<and> lazy_size r' = lazy_size r \<and> lazy_flags r' = lazy_flags r"
    by blast+
qed

text \<open>What a region says about its pages: its extent and, for a region that is paged in, the flags.\<close>

fun pageable_flags :: "mem_region \<Rightarrow> page_flag set option" where
  "pageable_flags (Lazy r) = Some (lazy_flags r)"
| "pageable_flags (FileBacked r) = Some (lazy_flags (fbr_region r))"
| "pageable_flags _ = None"

definition region_view :: "mem_region \<Rightarrow> nat \<times> nat \<times> page_flag set option" where
  "region_view r = (region_addr r, region_size r, pageable_flags r)"

text \<open>The first region that contains the page is paged in, with these flags.\<close>

definition region_covers :: "mem_region \<Rightarrow> nat \<Rightarrow> bool" where
  "region_covers r addr \<longleftrightarrow> region_addr r \<le> addr \<and> addr < region_addr r + region_size r"

definition backed :: "mem_region list \<Rightarrow> nat \<Rightarrow> page_flag set \<Rightarrow> bool" where
  "backed rs q fl \<longleftrightarrow> (\<exists>i. position (\<lambda>r. region_covers r q) rs = Some i \<and> pageable_flags (rs ! i) = Some fl)"

lemma region_contains_exact:
  assumes "va_add_exact (virt_add P)"
  shows "region_contains P r addr = Ok c \<Longrightarrow> c \<longleftrightarrow> region_covers r addr"
  using assms by (auto simp: region_contains_def region_covers_def va_add_exact_def outcome_simps split: if_splits)

lemma find_region_exact:
  assumes "va_add_exact (virt_add P)"
  shows "find_region P addr rs = Ok x \<Longrightarrow> x = position (\<lambda>r. region_covers r addr) rs"
proof (induction rs arbitrary: x)
  case (Cons r rs)
  then obtain c where "region_contains P r addr = Ok c" by (auto simp: outcome_simps)
  with Cons region_contains_exact [OF assms this] show ?case by (auto simp: outcome_simps split: if_splits)
qed simp

lemma backed_view:
  assumes "map region_view rs = map region_view rs'"
  shows "backed rs q fl \<longleftrightarrow> backed rs' q fl"
proof -
  have len: "length rs = length rs'" using assms by (rule map_eq_imp_length_eq)
  have nth: "region_view (rs ! i) = region_view (rs' ! i)" if "i < length rs" for i
    using assms that len by (metis nth_map)
  have pos: "position (\<lambda>r. region_covers r q) rs = position (\<lambda>r. region_covers r q) rs'"
    using assms len
  proof (induction rs rs' rule: list_induct2')
    case (4 r rs r' rs')
    then show ?case by (simp add: region_view_def region_covers_def)
  qed simp_all
  have "pageable_flags (rs ! i) = pageable_flags (rs' ! i)" if "position (\<lambda>r. region_covers r q) rs = Some i" for i
    using nth [OF position_SomeD(1) [OF that]] by (simp add: region_view_def)
  then show ?thesis by (auto simp: backed_def pos)
qed

definition populated :: "'pt paging \<Rightarrow> nat set \<Rightarrow> ('pt, 'f) memory \<Rightarrow> bool \<Rightarrow> ('pt, 'f) memory \<Rightarrow> bool" where
  "populated P Q m success m' \<longleftrightarrow>
    (\<forall>q < lower_half. q \<notin> Q \<or> mapping P m q \<noteq> None \<longrightarrow> mapping P m' q = mapping P m q) \<and>
    map region_view (mem_regions m') = map region_view (mem_regions m) \<and>
    (\<forall>q < lower_half. \<forall>f fl. mapping P m q = None \<longrightarrow> mapping P m' q = Some (f, fl) \<longrightarrow>
       (\<exists>fl'. backed (mem_regions m) q fl' \<and> (success \<longrightarrow> fl = fl')))"

lemma populated_same: "populated P Q m s m"
  by (simp add: populated_def)

lemma populatedI_paged:
  assumes "paged P fl page m s m'" and "backed (mem_regions m) page fl"
    and "map region_view rs = map region_view (mem_regions m)"
  shows "populated P {page} m s (m'\<lparr>mem_regions := rs\<rparr>)"
proof -
  have keep: "mapping P m' q = mapping P m q" if "q < lower_half" "q \<noteq> page \<or> mapping P m page \<noteq> None" for q
    using assms(1) that unfolding paged_def by blast
  have new: "\<exists>fl''. backed (mem_regions m) q fl'' \<and> (s \<longrightarrow> fl' = fl'')"
    if low: "q < lower_half" and none: "mapping P m q = None" and some: "mapping P m' q = Some (f, fl')" for q f fl'
  proof -
    have q: "q = page" using keep [OF low] none some by auto
    have "s \<longrightarrow> fl' = fl" using assms(1) none some q by (auto simp: paged_def)
    then show ?thesis using assms(2) q by blast
  qed
  show ?thesis unfolding populated_def using keep new assms(3) by auto
qed

lemma update_view:
  "i < length rs \<Longrightarrow> region_view r = region_view (rs ! i) \<Longrightarrow> map region_view (rs[i := r]) = map region_view rs"
  by (metis list_update_id map_update)

lemma sbind_assoc: "sbind (sbind c f) g = sbind c (\<lambda>x s. sbind (f x s) g)"
  by (auto simp: sbind_def split: prod.splits outcome.splits)

lemma page_in_eq:
  "start (lazy_segment (fbr_region fb)) \<le> page \<Longrightarrow> page_in ops P fb page m =
    sbind (map_and_fill P (fbr_region fb) page
      (fill_from_file (node_read ops (fbr_node fb)) (fbr_offset fb) (page - start (lazy_segment (fbr_region fb)))
        (min (fbr_len fb - (page - start (lazy_segment (fbr_region fb)))) 4096)) m)
      (\<lambda>r m. (Ok (fb\<lparr>fbr_region := r\<rparr>), m))"
  by (simp add: page_in_def unwrap_def checked_sub_def Let_def del: diff_diff_right)

lemma populate_page_populated:
  assumes P: "paging_ok P" "va_add_exact (virt_add P)" and page: "4096 dvd page"
    and run: "populate_page ops P page m = (res, m')" and res: "res \<noteq> Panic"
  shows "populated P {page} m (is_ok res) m'"
proof (cases "translate P m page = None \<and> (\<exists>i. region_for P m page = Ok (Some i))")
  case False
  then have "m' = m"
    using run by (auto simp: populate_page_def split: if_splits outcome.splits option.splits)
  then show ?thesis by (simp add: populated_same)
next
  case True
  then obtain i where for_page: "region_for P m page = Ok (Some i)" by blast
  then have i: "position (\<lambda>r. region_covers r page) (mem_regions m) = Some i" "region_for P m page = Ok (Some i)"
    using find_region_exact [OF P(2), of page "mem_regions m" "Some i"] by (simp_all add: region_for_def)
  note il = position_SomeD(1) [OF i(1)]
  have paged_region: "populated P {page} m (is_ok res) m'"
    if "pageable_flags (mem_regions m ! i) = Some (lazy_flags r)"
      and "sbind (map_and_fill P r page fill m) (\<lambda>r m. (Ok (), m\<lparr>mem_regions := (mem_regions m)[i := put r]\<rparr>)) = (res, m')"
      and "\<And>r'. lazy_segment r' = lazy_segment r \<Longrightarrow> lazy_size r' = lazy_size r \<Longrightarrow> lazy_flags r' = lazy_flags r \<Longrightarrow>
        region_view (put r') = region_view (mem_regions m ! i)" for r fill put
  proof -
    obtain x m1 where x: "map_and_fill P r page fill m = (x, m1)" by fastforce
    then have "x \<noteq> Panic" using that(2) res by auto
    note mf = map_and_fill_paged [OF P(1) x this]
    have bk: "backed (mem_regions m) page (lazy_flags r)" using i(1) that(1) by (auto simp: backed_def)
    have regs: "mem_regions m1 = mem_regions m" using mf(1) by (simp add: paged_def)
    show ?thesis
    proof (cases x)
      case (Ok r')
      have "m' = m1\<lparr>mem_regions := (mem_regions m)[i := put r']\<rparr>" "is_ok res = is_ok x"
        using that(2) x Ok regs by auto
      then show ?thesis using populatedI_paged [OF mf(1) bk update_view [OF il that(3)]] mf(2) [OF Ok] by simp
    next
      case (Err e)
      have "m' = m1\<lparr>mem_regions := mem_regions m\<rparr>" "is_ok res = is_ok x" using that(2) x Err regs by auto
      then show ?thesis using populatedI_paged [OF mf(1) bk refl] by simp
    qed (use \<open>x \<noteq> Panic\<close> in simp)
  qed
  show ?thesis
  proof (cases "mem_regions m ! i")
    case (Lazy r)
    have "sbind (map_zeroed P r page m) (\<lambda>r m. (Ok (), m\<lparr>mem_regions := (mem_regions m)[i := Lazy r]\<rparr>)) = (res, m')"
      using run True i(2) Lazy by (simp add: populate_page_def)
    then show ?thesis
      unfolding map_zeroed_def
      by (rule paged_region [of r _ Lazy, rotated]) (simp_all add: Lazy region_view_def)
  next
    case (FileBacked fb)
    have at: "start (lazy_segment (fbr_region fb)) \<le> page"
      using position_SomeD(2) [OF i(1)] FileBacked by (simp add: region_covers_def)
    have "sbind (page_in ops P fb page m) (\<lambda>r m. (Ok (), m\<lparr>mem_regions := (mem_regions m)[i := FileBacked r]\<rparr>)) = (res, m')"
      using run True i(2) FileBacked by (simp add: populate_page_def)
    then show ?thesis
      unfolding page_in_eq [OF at] sbind_assoc sbind_simps
      by (rule paged_region [of "fbr_region fb" _ "\<lambda>r. FileBacked (fb\<lparr>fbr_region := r\<rparr>)", rotated])
        (simp_all add: FileBacked region_view_def)
  next
    case (Mapped seg n own)
    then show ?thesis using run True i(2) by (simp add: populate_page_def populated_same)
  next
    case (Shared seg n node)
    then show ?thesis using run True i(2) by (simp add: populate_page_def populated_same)
  qed
qed

lemma populated_trans:
  assumes 1: "populated P Q m s m1" and 2: "populated P Q' m1 s' m2"
  shows "populated P (Q \<union> Q') m (s \<and> s') m2"
proof -
  have view: "map region_view (mem_regions m1) = map region_view (mem_regions m)" using 1 by (simp add: populated_def)
  have keep: "mapping P m2 q = mapping P m q" if "q < lower_half" "q \<notin> Q \<union> Q' \<or> mapping P m q \<noteq> None" for q
  proof -
    have "mapping P m1 q = mapping P m q" using 1 that unfolding populated_def by auto
    moreover have "mapping P m2 q = mapping P m1 q" using 2 that calculation unfolding populated_def by auto
    ultimately show ?thesis by simp
  qed
  have new: "\<exists>fl'. backed (mem_regions m) q fl' \<and> (s \<and> s' \<longrightarrow> fl = fl')"
    if low: "q < lower_half" and none: "mapping P m q = None" and some: "mapping P m2 q = Some (f, fl)" for q f fl
  proof (cases "mapping P m1 q")
    case None
    then show ?thesis using 2 low some backed_view [OF view] unfolding populated_def by blast
  next
    case (Some p)
    then have "mapping P m1 q = Some (f, fl)" using 2 low some unfolding populated_def by auto
    then show ?thesis using 1 low none unfolding populated_def by blast
  qed
  show ?thesis
    unfolding populated_def using keep new view 2 by (auto simp: populated_def)
qed

lemma populate_pages_populated:
  assumes P: "paging_ok P" "va_add_exact (virt_add P)" and "\<forall>p \<in> set ps. 4096 dvd p" and "populate_pages ops P (map Ok ps) m = (res, m')" and "res \<noteq> Panic"
  shows "populated P (set ps) m (is_ok res) m'"
  using assms(3-5)
proof (induction ps arbitrary: m)
  case Nil
  then show ?case by (auto simp: populated_same)
next
  case (Cons p ps)
  obtain r m1 where r: "populate_page ops P p m = (r, m1)" by fastforce
  then have "r \<noteq> Panic" using Cons.prems by auto
  then have one: "populated P {p} m (is_ok r) m1" using Cons.prems(1) r by (intro populate_page_populated [OF P]) auto
  show ?case
  proof (cases r)
    case (Ok u)
    then have "populated P (set ps) m1 (is_ok res) m'" using Cons r by simp
    then show ?thesis using populated_trans [OF one] Ok by fastforce
  next
    case (Err e)
    then have "m' = m1" "res = Err e" using Cons.prems r by auto
    moreover have "populated P (set (p # ps)) m False m1"
      using populated_trans [OF one populated_same [of P "set ps" m1 False]] by simp
    ultimately show ?thesis by simp
  qed (use \<open>r \<noteq> Panic\<close> in simp)
qed

lemma pages_between_dvd: "4096 dvd p \<Longrightarrow> \<forall>q \<in> set (pages_between p p'). 4096 dvd q"
  by (auto simp: pages_between_def)

lemma page_gap: "(page_of b - page_of a) div 4096 = b div 4096 - a div 4096"
  by (simp add: page_of_def flip: diff_mult_distrib)

lemma page_of_between:
  assumes "a \<le> x" and "x \<le> b"
  shows "page_of x \<in> set (pages_between (page_of a) (page_of b))"
proof -
  have "a div 4096 \<le> x div 4096" "x div 4096 \<le> b div 4096" using assms by (auto intro: div_le_mono)
  then have "page_of x = page_of a + (x div 4096 - a div 4096) * 4096"
      "x div 4096 - a div 4096 < (page_of b - page_of a) div 4096 + 1"
    unfolding page_gap by (simp add: page_of_def algebra_simps, linarith)
  then show ?thesis by (auto simp: pages_between_def)
qed

lemma between_page_of:
  assumes "q \<in> set (pages_between (page_of a) (page_of b))" and "a \<le> b"
  shows "\<exists>x. a \<le> x \<and> x \<le> b \<and> q = page_of x"
proof -
  obtain i where i: "q = page_of a + i * 4096" "i < (page_of b - page_of a) div 4096 + 1"
    using assms(1) by (auto simp: pages_between_def)
  have ab: "a div 4096 \<le> b div 4096" using assms(2) by (rule div_le_mono)
  have "i \<le> b div 4096 - a div 4096" using i(2) by (simp add: page_gap)
  then have q: "q div 4096 = a div 4096 + i" "a div 4096 + i \<le> b div 4096" "4096 dvd q"
    using i(1) ab by (auto simp: page_of_def)
  have "page_of (max a q) = q \<and> max a q \<le> b"
  proof (cases "i = 0")
    case True
    then have "q = page_of a" using i(1) by simp
    then have "max a q = a" by (simp add: page_of_def)
    then show ?thesis using \<open>q = page_of a\<close> assms(2) by simp
  next
    case False
    then have "a < q" using i(1) by (simp add: page_of_def)
    moreover have "q \<le> b" using q by (metis dvd_div_mult_self div_times_less_eq_dividend le_trans mult_le_mono1)
    ultimately show ?thesis using q(3) by (simp add: page_of_def)
  qed
  then show ?thesis by (metis max.cobounded1)
qed

lemma all_flags_True:
  "all_flags P required (map Ok ps) m = Ok True \<longleftrightarrow> (\<forall>p \<in> set ps. \<exists>fl. translate_flags P m p = Some fl \<and> required \<subseteq> fl)"
  by (induction ps) (auto split: option.splits)

lemma range_pages:
  assumes "paging_ok P" and "ptr \<le> b" and "b < lower_half"
  shows "page_range P (page_of ptr) (page_of b) = map Ok (pages_between (page_of ptr) (page_of b))"
proof -
  have "page_of ptr \<le> page_of b" using assms(2) by (simp add: page_of_def div_le_mono)
  moreover have "page_of b < lower_half" using assms(3) div_times_less_eq_dividend [of b 4096] by (simp add: page_of_def)
  ultimately show ?thesis using assms(1) by (simp add: paging_ok_def range_law_def page_of_def)
qed

lemma populate_populated:
  assumes P: "paging_ok P" "canonical_ok (canonical P)" "va_add_exact (virt_add P)" and n: "0 < n" "ptr + n \<le> lower_half"
    and run: "populate ops P ptr n m = (res, m')" and res: "res \<noteq> Panic"
  shows "populated P (page_of ` {ptr..<ptr + n}) m (is_ok res) m'"
proof -
  let ?b = "ptr + (n - 1)" and ?ps = "pages_between (page_of ptr) (page_of (ptr + (n - 1)))"
  have b: "?b < lower_half" "lower_half < U64_LIMIT" "ptr \<le> ?b" using n by (auto simp: lower_half_def U64_LIMIT_def)
  have "canonical P ?b" using P(2) b by (simp add: canonical_ok_def)
  then have "populate_pages ops P (map Ok ?ps) m = (res, m')"
    using run n b range_pages [OF P(1) b(3,1)] by (simp add: populate_def checked_sub_def checked_add_def)
  moreover have "\<forall>p \<in> set ?ps. 4096 dvd p" by (rule pages_between_dvd) (simp add: page_of_def)
  ultimately have "populated P (set ?ps) m (is_ok res) m'" using populate_pages_populated [OF P(1,3)] res by blast
  moreover have "set ?ps \<subseteq> page_of ` {ptr..<ptr + n}"
  proof
    fix q assume "q \<in> set ?ps"
    from between_page_of [OF this b(3)] obtain x where "ptr \<le> x" "x \<le> ?b" "q = page_of x" by blast
    then show "q \<in> page_of ` {ptr..<ptr + n}" using n(1) by auto
  qed
  ultimately show ?thesis unfolding populated_def by blast
qed

lemma accessible_flags:
  assumes P: "paging_ok P" and n: "ptr + n \<le> lower_half" and ok: "is_user_accessible P ptr n required m = Ok True"
    and a: "ptr \<le> a" "a < ptr + n"
  shows "\<exists>f fl. mapping P m (page_of a) = Some (f, fl) \<and> required \<subseteq> fl"
proof -
  let ?b = "ptr + (n - 1)"
  have b: "?b < lower_half" "ptr \<le> ?b" "0 < n" using n a by auto
  have "all_flags P required (page_range P (page_of ptr) (page_of ?b)) m = Ok True"
    using ok b by (auto simp: is_user_accessible_def checked_add_def split: if_splits)
  then have "\<forall>p \<in> set (pages_between (page_of ptr) (page_of ?b)). \<exists>fl. translate_flags P m p = Some fl \<and> required \<subseteq> fl"
    using range_pages [OF P b(2,1)] by (simp add: all_flags_True)
  moreover have "page_of a \<in> set (pages_between (page_of ptr) (page_of ?b))" using a b by (intro page_of_between) auto
  ultimately obtain fl where "translate_flags P m (page_of a) = Some fl" "required \<subseteq> fl" by blast
  then show ?thesis by (auto simp: translate_flags_def page_of_def)
qed

text \<open>C37: Making a range of the lower half resident (that it lies there is a hypothesis, which neither the function
  nor all system calls before it check): if it succeeds, every byte of the range lies on a page that is mapped, present and accessible to user code, and
  writable for write access. Whatever it returns, a page of the lower half that was mapped keeps its frame and
  flags, and a page of the lower half that becomes mapped belongs to the range and to a region of the process
  that is paged in on demand, whose flags it has when the call succeeds; in particular a page there that no
  region backs is never mapped.\<close>

theorem user_range_resident:
  assumes "paging_ok P" and "canonical_ok (canonical P)" and "va_add_exact (virt_add P)" and "ptr + n \<le> lower_half"
    and "make_user_range_resident ops P ptr n access m = (res, m')" and "res \<noteq> Panic"
  shows "(res = Ok () \<longrightarrow> (\<forall>a. ptr \<le> a \<and> a < ptr + n \<longrightarrow> (\<exists>f fl. mapping P m' (page_of a) = Some (f, fl) \<and>
        {PRESENT, USER_ACCESSIBLE} \<subseteq> fl \<and> (access = AccessWrite \<longrightarrow> WRITABLE \<in> fl)))) \<and>
    (\<forall>q < lower_half. mapping P m q \<noteq> None \<longrightarrow> mapping P m' q = mapping P m q) \<and>
    (\<forall>q < lower_half. \<forall>f fl. mapping P m q = None \<longrightarrow> mapping P m' q = Some (f, fl) \<longrightarrow>
       (\<exists>a. ptr \<le> a \<and> a < ptr + n \<and> q = page_of a) \<and>
       (\<exists>fl'. backed (mem_regions m) q fl' \<and> (res = Ok () \<longrightarrow> fl = fl')))"
proof (cases "n = 0 \<or> \<not> canonical P ptr")
  case True
  then have "m' = m" "n = 0 \<or> res \<noteq> Ok ()"
    using assms(5) by (auto simp: make_user_range_resident_def populate_def checked_sub_def is_user_readable_def
        is_user_writable_def is_user_accessible_def split: user_access.splits if_splits)
  then show ?thesis by auto
next
  case False
  obtain r m1 where r: "populate ops P ptr n m = (r, m1)" by fastforce
  then have nr: "r \<noteq> Panic" using assms(5,6) False by (auto simp: make_user_range_resident_def)
  have pop: "populated P (page_of ` {ptr..<ptr + n}) m (is_ok r) m1"
    using populate_populated [OF assms(1-3) _ assms(4) r nr] False by simp
  let ?acc = "case access of AccessRead \<Rightarrow> is_user_readable P ptr n m1 | AccessWrite \<Rightarrow> is_user_writable P ptr n m1"
  have m': "m' = m1" and ok: "res = Ok () \<Longrightarrow> is_ok r \<and> ?acc = Ok True"
    using assms(5,6) r nr False by (auto simp: make_user_range_resident_def split: outcome.splits bool.splits)
  have acc: "\<exists>f fl. mapping P m1 (page_of a) = Some (f, fl) \<and> {PRESENT, USER_ACCESSIBLE} \<subseteq> fl \<and> (access = AccessWrite \<longrightarrow> WRITABLE \<in> fl)"
    if "res = Ok ()" "ptr \<le> a" "a < ptr + n" for a
    using ok [OF that(1)] that(2,3) accessible_flags [OF assms(1,4), of _ m1 a]
    by (cases access) (fastforce simp: is_user_readable_def is_user_writable_def)+
  have keep: "mapping P m1 q = mapping P m q"
    if "q < lower_half" "q \<notin> page_of ` {ptr..<ptr + n} \<or> mapping P m q \<noteq> None" for q
    using pop that unfolding populated_def by blast
  have new: "(\<exists>a. ptr \<le> a \<and> a < ptr + n \<and> q = page_of a) \<and> (\<exists>fl'. backed (mem_regions m) q fl' \<and> (res = Ok () \<longrightarrow> fl = fl'))"
    if low: "q < lower_half" and none: "mapping P m q = None" and some: "mapping P m1 q = Some (f, fl)" for q f fl
  proof
    have "q \<in> page_of ` {ptr..<ptr + n}" using keep [OF low] none some by auto
    then show "\<exists>a. ptr \<le> a \<and> a < ptr + n \<and> q = page_of a" by auto
    show "\<exists>fl'. backed (mem_regions m) q fl' \<and> (res = Ok () \<longrightarrow> fl = fl')"
      using pop low none some ok unfolding populated_def by blast
  qed
  show ?thesis
    unfolding m' using acc keep new by blast
qed

text \<open>A page table that is a map, a process with one lazy region and an empty table, and a range of ten bytes in
  the region.\<close>

definition demo_paging :: "(nat \<Rightarrow> (nat \<times> page_flag set) option) paging" where
  "demo_paging = \<lparr>canonical = (\<lambda>a. a < lower_half \<or> upper_half \<le> a), virt_add = demo_add, page_range = (\<lambda>p q. map Ok (pages_between p q)),
     containing = demo_containing, frame_at = demo_frame, pt_translate = (\<lambda>t. t),
     pt_map_to = (\<lambda>page frame fl t ph. case t page of
        None \<Rightarrow> (Ok (), t(page \<mapsto> (frame, fl)), ph) | Some (f, _) \<Rightarrow> (Err (PageAlreadyMapped f), t, ph)),
     pt_unmap = (\<lambda>page t. (map_option fst (t page), t(page := None))),
     pt_update_flags = (\<lambda>page fl t. case t page of
        None \<Rightarrow> (Err PageNotMapped, t) | Some (f, _) \<Rightarrow> (Ok (), t(page \<mapsto> (f, fl))))\<rparr>"

lemma demo_paging_ok:
  "paging_ok demo_paging" "canonical_ok (canonical demo_paging)" "va_add_exact (virt_add demo_paging)"
  by (auto simp: paging_ok_def map_law_def unmap_law_def update_law_def range_law_def canonical_ok_def demo_paging_def
      va_add_exact_def demo_add_def
      split: option.splits if_splits)

definition demo_lazy :: lazy_region where
  "demo_lazy = \<lparr>lazy_segment = Segment 4096 4096, lazy_size = 100,
     lazy_flags = {PRESENT, WRITABLE, USER_ACCESSIBLE, NO_EXECUTE}, physical_frames = []\<rparr>"

definition demo_memory :: "(nat \<Rightarrow> (nat \<times> page_flag set) option, nat) memory" where
  "demo_memory = \<lparr>table = Map.empty, phys = Stage1 (bump_new demo_map), ram = (\<lambda>_. 0xEE), active = True, files = vfs_new,
     mem_regions = [Lazy demo_lazy]\<rparr>"

definition demo_memory' :: "(nat \<Rightarrow> (nat \<times> page_flag set) option, nat) memory" where
  "demo_memory' = \<lparr>table = [4096 \<mapsto> (0, {PRESENT, WRITABLE, USER_ACCESSIBLE, NO_EXECUTE})],
     phys = Stage1 \<lparr>bump_regions = demo_map, next_frame = 1\<rparr>, ram = write_bytes 0 (replicate 4096 0) (\<lambda>_. 0xEE),
     active = True, files = vfs_new, mem_regions = [Lazy (demo_lazy\<lparr>physical_frames := [(0, 0)]\<rparr>)]\<rparr>"

lemma demo_resident: "make_user_range_resident ops demo_paging 4100 10 AccessWrite demo_memory = (Ok (), demo_memory')"
proof -
  have "populate_page ops demo_paging 4096 demo_memory = (Ok (), demo_memory')"
    using demo_stage1(1)
    by (simp add: populate_page_def translate_def page_of_def region_for_def region_contains_def demo_add_def map_zeroed_def
        map_and_fill_def take_frame_def owned_from_frame_def demo_containing_def as_map_def after_map_def fill_page_def
        page_buffer_def store_page_def as_remap_def demo_paging_def demo_memory_def demo_memory'_def demo_lazy_def)
  then show ?thesis
    by (simp add: make_user_range_resident_def populate_def checked_sub_def checked_add_def U64_LIMIT_def demo_paging_def
        pages_between_def page_of_def is_user_writable_def is_user_accessible_def translate_flags_def lower_half_def demo_memory'_def)
qed

theorem user_range_resident_witness:
  "\<exists>f fl. mapping demo_paging demo_memory' (page_of 4105) = Some (f, fl) \<and> {PRESENT, USER_ACCESSIBLE} \<subseteq> fl \<and> WRITABLE \<in> fl"
proof -
  have "4100 + 10 \<le> lower_half" by (simp add: lower_half_def)
  from user_range_resident [OF demo_paging_ok this demo_resident] show ?thesis by simp
qed

section \<open>The contents of a page\<close>

text \<open>What a node promises: reads give the next bytes of the file, possibly fewer than asked for, and nothing
  only at its end; reading does not change the file.\<close>

locale file_contents =
  fixes rd :: "bytes \<Rightarrow> nat \<Rightarrow> 's \<Rightarrow> ((read_error, nat) outcome \<times> bytes) \<times> 's"
    and ok :: "'s \<Rightarrow> bool" and content :: "'s \<Rightarrow> bytes"
  assumes rd_bytes: "ok s \<Longrightarrow> 0 < length buf \<Longrightarrow> length buf \<le> 4096 \<Longrightarrow>
    \<exists>n s'. rd buf off s = ((Ok n, slice off (off + n) (content s) @ drop n buf), s') \<and> ok s' \<and> content s' = content s \<and>
      n \<le> length buf \<and> (if n = 0 then length (content s) \<le> off else off + n \<le> length (content s))"
begin

lemma read_fill_bytes:
  assumes "ok s" and "did \<le> from_file" and "from_file \<le> length buf" and "length buf \<le> 4096"
    and "file_offset + off + from_file < U64_LIMIT"
  shows "\<exists>d s'. read_fill rd file_offset off from_file did buf s =
      ((Ok d, overwrite did (slice (file_offset + off + did) (file_offset + off + d) (content s)) buf), s') \<and>
    ok s' \<and> content s' = content s \<and> did \<le> d \<and> d \<le> from_file \<and>
    (d < from_file \<longrightarrow> length (content s) \<le> file_offset + off + d) \<and>
    (d = did \<or> file_offset + off + d \<le> length (content s))"
  using assms
proof (induction "from_file - did" arbitrary: did buf s rule: less_induct)
  case less
  let ?pos = "file_offset + off"
  show ?case
  proof (cases "did < from_file")
    case False
    then show ?thesis using less.prems by (intro exI [of _ did] exI [of _ s]) (simp add: read_fill.simps slice_def)
  next
    case True
    have len: "length (slice did from_file buf) = from_file - did" using less.prems by simp
    have "0 < length (slice did from_file buf)" "length (slice did from_file buf) \<le> 4096"
      unfolding len using less.prems True by simp_all
    note promise = rd_bytes [OF less.prems(1) this, of "?pos + did", unfolded len]
    obtain n s1 where rd: "rd (slice did from_file buf) (?pos + did) s =
        ((Ok n, slice (?pos + did) (?pos + did + n) (content s) @ drop n (slice did from_file buf)), s1)"
      and s1: "ok s1" "content s1 = content s" and n: "n \<le> from_file - did"
        "if n = 0 then length (content s) \<le> ?pos + did else ?pos + did + n \<le> length (content s)"
      using promise by blast
    have at: "Option.bind (checked_add file_offset off) (\<lambda>a. checked_add a did) = Some (?pos + did)"
      using less.prems(5) True by (simp add: checked_add_def)
    let ?got = "slice (?pos + did) (?pos + did + n) (content s)"
    have lg: "length ?got = n" using n by (auto split: if_splits)
    have patch: "overwrite did (?got @ drop n (slice did from_file buf)) buf = overwrite did ?got buf"
      using lg n(1) less.prems(2,3) by (intro nth_equalityI) (auto simp: nth_overwrite nth_append nth_slice)
    show ?thesis
    proof (cases "n = 0")
      case True
      then show ?thesis
        using rd at patch \<open>did < from_file\<close> s1 n less.prems
        by (intro exI [of _ did] exI [of _ s1]) (simp add: read_fill.simps slice_def)
    next
      case False
      let ?buf = "overwrite did ?got buf"
      have step: "read_fill rd file_offset off from_file did buf s = read_fill rd file_offset off from_file (did + n) ?buf s1"
        using rd at patch \<open>did < from_file\<close> False by (subst read_fill.simps) simp
      have pre: "from_file - (did + n) < from_file - did" "did + n \<le> from_file" "length ?buf = length buf"
        using n(1) False True lg less.prems(3) by simp_all
      obtain d s' where d: "read_fill rd file_offset off from_file (did + n) ?buf s1 =
          ((Ok d, overwrite (did + n) (slice (?pos + (did + n)) (?pos + d) (content s1)) ?buf), s')"
        "ok s'" "content s' = content s1" "did + n \<le> d" "d \<le> from_file"
        "d < from_file \<longrightarrow> length (content s1) \<le> ?pos + d" "d = did + n \<or> ?pos + d \<le> length (content s1)"
        using less.hyps [OF pre(1) s1(1) pre(2), of ?buf] pre(3) less.prems by auto
      have "overwrite (did + n) (slice (?pos + (did + n)) (?pos + d) (content s1)) ?buf =
          overwrite did (slice (?pos + did) (?pos + d) (content s)) buf"
        using overwrite_overwrite_append [of did ?got "slice (?pos + (did + n)) (?pos + d) (content s)" buf] lg s1(2) d(4,5,7) less.prems n False
        by (simp add: add.assoc slice_append)
      then show ?thesis using step d s1 n False by (intro exI [of _ d] exI [of _ s']) auto
    qed
  qed
qed

lemma fill_from_file_bytes:
  assumes "ok s" and "from_file \<le> length buf" and "length buf \<le> 4096" and "file_offset + off + from_file < U64_LIMIT"
  shows "\<exists>s'. fill_from_file rd file_offset off from_file buf s =
      ((Ok (), map (\<lambda>i. if i < from_file \<and> file_offset + off + i < length (content s)
                        then content s ! (file_offset + off + i) else 0) [0..<length buf]), s') \<and>
    ok s' \<and> content s' = content s"
proof -
  let ?pos = "file_offset + off" and ?buf = "overwrite from_file (replicate (length buf - from_file) 0) buf"
  have len: "length ?buf = length buf" using assms(2) by simp
  obtain d s' where d: "read_fill rd file_offset off from_file 0 ?buf s =
      ((Ok d, overwrite 0 (slice ?pos (?pos + d) (content s)) ?buf), s')"
    "ok s'" "content s' = content s" "d \<le> from_file" "d < from_file \<longrightarrow> length (content s) \<le> ?pos + d"
    "d = 0 \<or> ?pos + d \<le> length (content s)"
    using read_fill_bytes [OF assms(1), of 0 from_file ?buf file_offset off] assms len by auto
  have got: "length (slice ?pos (?pos + d) (content s)) = d" using d(6) by auto
  have "overwrite d (replicate (from_file - d) 0) (overwrite 0 (slice ?pos (?pos + d) (content s)) ?buf) =
      map (\<lambda>i. if i < from_file \<and> ?pos + i < length (content s) then content s ! (?pos + i) else 0) [0..<length buf]"
    using assms(2) d(4-6) got len by (intro nth_equalityI) (auto simp: nth_overwrite nth_slice)
  then show ?thesis using d by (auto simp: fill_from_file_def)
qed

end

lemma after_map_contents:
  assumes P: "paging_ok P" and run: "after_map P r page fill owned m = (Ok r', m')"
    and mapped: "mapping P m page = Some (frame, fl)"
    and fill: "fill (read_bytes frame 4096 (ram m)) (files m) = ((Ok (), buf), fs)" and buf: "length buf = 4096"
  shows "mapping P m' page = Some (frame, lazy_flags r) \<and> read_bytes frame 4096 (ram m') = buf \<and> files m' = fs"
proof -
  let ?m = "(m\<lparr>files := fs, ram := write_bytes frame buf (ram m)\<rparr>)"
  have filled: "fill_page P page fill m = (Ok (), ?m)"
    using mapped fill by (simp add: fill_page_def page_buffer_def store_page_def)
  obtain rr m2 where remap: "as_remap P page (\<lambda>_. lazy_flags r) ?m = (rr, m2)" by fastforce
  have rr: "rr = Ok ()" "m' = m2"
    using run [unfolded after_map_def filled prod.case outcome.case remap] then_drop(3) [of owned m2 _ "Ok r'" m']
    by (cases rr; auto)+
  note pr = paging_remap [OF P remap]
  have "ram m2 = write_bytes frame buf (ram m)" "files m2 = fs" using pr(3,4) rr(1) by simp_all
  moreover have "mapping P m2 page = Some (frame, lazy_flags r)" using pr(5) rr(1) mapped by simp
  ultimately show ?thesis using rr(2) read_write_same [of frame buf "ram m"] buf by simp
qed

lemma page_in_contents:
  assumes P: "paging_ok P" and contents: "file_contents (node_read ops (fbr_node fb)) ok content"
    and ok: "ok (files m)" and at: "start (lazy_segment (fbr_region fb)) \<le> page" and none: "mapping P m page = None"
    and run: "page_in ops P fb page m = (Ok fb', m')"
    and limit: "fbr_offset fb + (page - start (lazy_segment (fbr_region fb))) + 4096 < U64_LIMIT"
  shows "\<exists>frame. mapping P m' page = Some (frame, lazy_flags (fbr_region fb)) \<and>
    read_bytes frame 4096 (ram m') = map (\<lambda>i. let off = page - start (lazy_segment (fbr_region fb)); at = fbr_offset fb + off + i in
        if off + i < fbr_len fb \<and> at < length (content (files m)) then content (files m) ! at else 0) [0..<4096] \<and>
    ok (files m') \<and> content (files m') = content (files m)"
proof -
  define off where "off = page - start (lazy_segment (fbr_region fb))"
  define from_file where "from_file = min (fbr_len fb - off) 4096"
  let ?fill = "fill_from_file (node_read ops (fbr_node fb)) (fbr_offset fb) off from_file"
  let ?r = "fbr_region fb"
  obtain r' where mf: "map_and_fill P ?r page ?fill m = (Ok r', m')"
    using run [unfolded page_in_eq [OF at], folded off_def, folded from_file_def]
    by (cases "map_and_fill P ?r page ?fill m"; cases "fst (map_and_fill P ?r page ?fill m)") auto
  have "(Ok r' :: (page_in_error, lazy_region) outcome) \<noteq> Panic" by simp
  from mf this show ?thesis
  proof (cases rule: map_and_fill_cases)
    case (not_mapped frame m1 e m2)
    then have "mapping P m page \<noteq> None"
      using paging_map(4) [OF P not_mapped(2)] take_frame_rest(1) [OF not_mapped(1)] by auto
    then show ?thesis using none by simp
  next
    case (filled frame m1 u m2 owned)
    have m2: "mapping P m2 page = Some (frame, {PRESENT, WRITABLE, USER_ACCESSIBLE, NO_EXECUTE})" "files m2 = files m"
      using paging_map(2,6) [OF P filled(2)] take_frame_rest(4) [OF filled(1)] by simp_all
    have lim: "fbr_offset fb + off + from_file < U64_LIMIT" using limit by (simp add: off_def from_file_def)
    obtain fs where fs: "?fill (read_bytes frame 4096 (ram m2)) (files m2) = ((Ok (),
        map (\<lambda>i. if i < from_file \<and> fbr_offset fb + off + i < length (content (files m))
                  then content (files m) ! (fbr_offset fb + off + i) else 0) [0..<4096]), fs)"
      "ok fs" "content fs = content (files m)"
      using file_contents.fill_from_file_bytes [OF contents ok, of from_file "read_bytes frame 4096 (ram m2)", OF _ _ lim] m2(2)
      by (auto simp: from_file_def)
    have len: "length (map (\<lambda>i. if i < from_file \<and> fbr_offset fb + off + i < length (content (files m))
                  then content (files m) ! (fbr_offset fb + off + i) else 0) [0..<4096]) = 4096" by simp
    have "i < from_file \<longleftrightarrow> off + i < fbr_len fb" if "i < 4096" for i using that by (auto simp: from_file_def)
    then show ?thesis
      using after_map_contents [OF P filled(3) m2(1) fs(1) len] fs(2,3)
      by (intro exI [of _ frame]) (simp add: Let_def off_def)
  qed simp
qed

end
