(* ===== verification/Paging_Ext2.thy ===== *)
theory Paging_Ext2
  imports Address_Space Ext2_File
begin

text \<open>
  Demand paging of files: the regions of a process over the files of a mounted ext2 file system.

  Shown here: a page of a file-backed region holds exactly the bytes of the file on the disk, and zeros where
  the file or the mapped part of it ends.
\<close>

text \<open>The open regular file behind a node.\<close>

definition file_at :: "('d, 'o) kernel_fs vfs \<Rightarrow> vfs_node \<Rightarrow> ('d virtual_ext2 \<times> inode) option" where
  "file_at v n =
    (case fs_heap v (node_fs n) of
       Some (Inl x) \<Rightarrow>
         (case map_of (vx_handles x) (node_handle n) of
            Some (_, i) \<Rightarrow> (case vi_inner i of RegularFileInner f \<Rightarrow> Some (x, f) | DirectoryInner _ \<Rightarrow> None)
          | None \<Rightarrow> None)
     | _ \<Rightarrow> None)"

text \<open>A file all of whose blocks can be read: the device works, the cache is coherent, and the block pointers of
  the file, with those of one page after its end, lead to blocks of the device.\<close>

definition readable_file ::
  "('d, 'e) ext2_env \<Rightarrow> ('d \<Rightarrow> bool) \<Rightarrow> ('d \<Rightarrow> bytes) \<Rightarrow> vfs_node \<Rightarrow> ('d, 'o) kernel_fs vfs \<Rightarrow> bool" where
  "readable_file env valid contents n v \<longleftrightarrow> sector_device (dev env) valid contents \<and>
    (\<exists>x f bs. file_at v n = Some (x, f) \<and> valid (disk (vx_fs x)) \<and> cache_ok env (vx_fs x) \<and>
       block_size (superblock (vx_fs x)) = (Ok bs :: (ext2_error, nat) outcome) \<and> 0 < bs \<and>
       inode_len (tr env) f + 4096 < 2 ^ 32 \<and>
       (\<forall>i \<le> (inode_len (tr env) f + 4095) div bs. \<exists>p. block_index_ref env (vx_fs x) f i = Ok p \<and>
          (\<forall>c. p = Some c \<longrightarrow> block_inside bs (contents (disk (vx_fs x))) c)))"

text \<open>The bytes of the file.\<close>

definition block_of :: "('d, 'e) ext2_env \<Rightarrow> 'd ext2_fs \<Rightarrow> inode \<Rightarrow> nat \<Rightarrow> nat option" where
  "block_of env fs f i = (case block_index_ref env fs f i of Ok p \<Rightarrow> p | _ \<Rightarrow> None)"

definition fs_block_bytes :: "'d ext2_fs \<Rightarrow> nat" where
  "fs_block_bytes fs = (case block_size (superblock fs) :: (ext2_error, nat) outcome of Ok bs \<Rightarrow> bs | _ \<Rightarrow> 0)"

definition ext2_content ::
  "('d, 'e) ext2_env \<Rightarrow> ('d \<Rightarrow> bytes) \<Rightarrow> vfs_node \<Rightarrow> ('d, 'o) kernel_fs vfs \<Rightarrow> bytes" where
  "ext2_content env contents n v =
    (case file_at v n of
       Some (x, f) \<Rightarrow> map (file_byte (fs_block_bytes (vx_fs x)) (contents (disk (vx_fs x))) (block_of env (vx_fs x) f))
         [0..<inode_len (tr env) f]
     | None \<Rightarrow> [])"

lemma file_at_SomeD:
  assumes "file_at v n = Some (x, f)"
  shows "\<exists>k i. fs_heap v (node_fs n) = Some (Inl x) \<and> map_of (vx_handles x) (node_handle n) = Some (k, i) \<and>
    vi_inner i = RegularFileInner f"
  using assms by (auto simp: file_at_def split: option.splits sum.splits vx_inner.splits)

lemma node_read_ext2:
  assumes "file_at v n = Some (x, f)" and "read_from_file env (vx_fs x) f off buf = (Ok (k, out), fs)"
  shows "node_read (kernel_methods env ws) n buf off v =
    ((Ok k, out), v\<lparr>fs_heap := (fs_heap v)(node_fs n \<mapsto> Inl (x\<lparr>vx_fs := fs\<rparr>))\<rparr>)"
  using file_at_SomeD [OF assms(1)] assms(2)
  by (auto simp: node_read_def with_upgraded_def with_buffer_def kernel_methods_def dyn_methods_def
      virtual_ext2_methods_def vx_read_def tag_buffer_def)

lemma file_at_update:
  assumes "file_at v n = Some (x, f)"
  shows "file_at (v\<lparr>fs_heap := (fs_heap v)(node_fs n \<mapsto> Inl (x\<lparr>vx_fs := fs\<rparr>))\<rparr>) n = Some (x\<lparr>vx_fs := fs\<rparr>, f)"
  using file_at_SomeD [OF assms] by (auto simp: file_at_def)

lemma same_content:
  assumes "same_fs fs fs'"
  shows "fs_block_bytes fs' = fs_block_bytes fs" "block_of env fs' f = block_of env fs f"
  using same_fsD(1) [OF assms] same_fs_ref(4) [OF assms, of env] by (simp_all add: fs_block_bytes_def block_of_def fun_eq_iff)

lemma slice_upt_map: "a \<le> b \<Longrightarrow> b \<le> n \<Longrightarrow> slice a b (map g [0..<n]) = map g [a..<b]"
  by (intro nth_equalityI) (auto simp: nth_slice)

lemma read_regular_file:
  assumes ok: "readable_file env valid contents n v" and buf: "0 < length buf" "length buf \<le> 4096"
  shows "\<exists>k v'. node_read (kernel_methods env ws) n buf off v =
      ((Ok k, slice off (off + k) (ext2_content env contents n v) @ drop k buf), v') \<and>
    readable_file env valid contents n v' \<and> ext2_content env contents n v' = ext2_content env contents n v \<and>
    k \<le> length buf \<and> (if k = 0 then length (ext2_content env contents n v) \<le> off else off + k \<le> length (ext2_content env contents n v))"
proof -
  obtain x f bs where x: "file_at v n = Some (x, f)" "valid (disk (vx_fs x))" "cache_ok env (vx_fs x)"
      "block_size (superblock (vx_fs x)) = (Ok bs :: (ext2_error, nat) outcome)" "0 < bs" "inode_len (tr env) f + 4096 < 2 ^ 32"
      "\<And>i. i \<le> (inode_len (tr env) f + 4095) div bs \<Longrightarrow> \<exists>p. block_index_ref env (vx_fs x) f i = Ok p \<and>
          (\<forall>c. p = Some c \<longrightarrow> block_inside bs (contents (disk (vx_fs x))) c)"
    and dev: "sector_device (dev env) valid contents"
    using ok unfolding readable_file_def by blast
  let ?p = "block_of env (vx_fs x) f" and ?len = "inode_len (tr env) f"
  let ?byte = "file_byte bs (contents (disk (vx_fs x))) ?p"
  have p: "block_index_ref env (vx_fs x) f i = Ok (?p i)" "?p i = Some c \<Longrightarrow> block_inside bs (contents (disk (vx_fs x))) c"
    if "i \<le> (?len + 4095) div bs" for i c
    using x(7) [OF that] by (auto simp: block_of_def)
  have content: "ext2_content env contents n v = map ?byte [0..<?len]"
    using x(1,4) by (simp add: ext2_content_def fs_block_bytes_def)
  show ?thesis
  proof (cases "?len \<le> off")
    case True
    then have "read_from_file env (vx_fs x) f off buf = (Ok (0, buf), vx_fs x)" by (simp add: read_from_file_def)
    from node_read_ext2 [OF x(1) this, of ws] show ?thesis
      using True content file_at_SomeD [OF x(1)] ok
      by (intro exI [of _ 0] exI [of _ v]) (auto simp: slice_def fun_upd_idem)
  next
    case False
    define k where "k = min (?len - off) (length buf)"
    have le: "i \<le> (?len + 4095) div bs" if "i \<le> (off + length buf - 1) div bs" for i
    proof -
      have "off + length buf - 1 \<le> ?len + 4095" using False buf by simp
      from le_trans [OF that div_le_mono [OF this, of bs]] show ?thesis .
    qed
    have "\<exists>fs' out. read_from_file env (vx_fs x) f off buf = (Ok (k, out), fs') \<and> same_fs (vx_fs x) fs' \<and> cache_ok env fs' \<and>
        out = map ?byte [off..<off + k] @ drop k buf"
    proof (rule read_from_file_run [OF dev x(2) x(4,5,3) _ _ buf(1)])
      show "block_index_ref env (vx_fs x) f i = Ok (?p i)" if "i \<le> (off + length buf - 1) div bs" for i
        using p(1) [OF le [OF that]] .
      show "block_inside bs (contents (disk (vx_fs x))) c" if "i \<le> (off + length buf - 1) div bs" "?p i = Some c" for i c
        using p(2) [OF le [OF that(1)] that(2)] .
    qed (use False x(6) buf(2) in \<open>simp_all add: k_def\<close>)
    then obtain fs' where fs': "read_from_file env (vx_fs x) f off buf = (Ok (k, map ?byte [off..<off + k] @ drop k buf), fs')"
        "same_fs (vx_fs x) fs'" "cache_ok env fs'"
      by blast
    let ?v = "v\<lparr>fs_heap := (fs_heap v)(node_fs n \<mapsto> Inl (x\<lparr>vx_fs := fs'\<rparr>))\<rparr>"
    note at = file_at_update [OF x(1), of fs']
    note same = same_fsD(1,2) [OF fs'(2)] same_content(1) [OF fs'(2)] same_content(2) [OF fs'(2), of env f] same_fs_ref(4) [OF fs'(2), of env]
    have "readable_file env valid contents n ?v"
      unfolding readable_file_def using dev x(2,4,5,6,7) fs'(3) at same by auto
    moreover have "ext2_content env contents n ?v = ext2_content env contents n v"
      using x(1) at same by (simp add: ext2_content_def)
    moreover have "map ?byte [off..<off + k] = slice off (off + k) (map ?byte [0..<?len])"
      using False by (intro slice_upt_map [symmetric]) (auto simp: k_def)
    ultimately show ?thesis
      using node_read_ext2 [OF x(1) fs'(1), of ws] content False buf
      by (intro exI [of _ k] exI [of _ ?v]) (auto simp: k_def)
  qed
qed

interpretation ext2_file: file_contents "node_read (kernel_methods env ws) n" "readable_file env valid contents n"
  "ext2_content env contents n"
  by unfold_locales (rule read_regular_file)

text \<open>C38: Demand paging reads files correctly. When a page of a file-backed region over an ext2 file is paged in
  successfully, the page is mapped with the flags of the region and its 4096 bytes are the bytes of the file
  as the disk has them at the mapped offset, cut at the end of the file and at the end of the part of the
  region that comes from the file, and zeros after that, however the reads were split; the file stays
  readable with the same contents.\<close>

theorem paged_in_ext2_file:
  assumes "paging_ok P" and "readable_file env valid contents (fbr_node fb) (files m)"
    and "start (lazy_segment (fbr_region fb)) \<le> page" and "pt_translate P (table m) page = None"
    and "page_in (kernel_methods env ws) P fb page m = (Ok fb', m')"
    and "fbr_offset fb + (page - start (lazy_segment (fbr_region fb))) + 4096 < U64_LIMIT"
  shows "\<exists>frame. pt_translate P (table m') page = Some (frame, lazy_flags (fbr_region fb)) \<and>
    read_bytes frame 4096 (ram m') = map (\<lambda>i.
        let off = page - start (lazy_segment (fbr_region fb)); at = fbr_offset fb + off + i;
            content = ext2_content env contents (fbr_node fb) (files m) in
        if off + i < fbr_len fb \<and> at < length content then content ! at else 0) [0..<4096] \<and>
    readable_file env valid contents (fbr_node fb) (files m') \<and>
    ext2_content env contents (fbr_node fb) (files m') = ext2_content env contents (fbr_node fb) (files m)"
  using page_in_contents [OF assms(1) ext2_file.file_contents_axioms assms(2,3,4,5,6)] by (simp only: Let_def)

text \<open>The file of 1000 bytes, mapped from its byte 900 on at address 8192.\<close>

definition demo_node :: vfs_node where
  "demo_node = \<lparr>node_path = [], node_handle = FsHandle 1, node_fs = 0\<rparr>"

definition demo_files :: "(memory_block_device, unit) kernel_fs vfs" where
  "demo_files = \<lparr>file_systems = Map.empty, fs_heap = [0 \<mapsto> Inl \<lparr>vx_fs = demo_fs,
     vx_handles = [(FsHandle 1, ([], \<lparr>vi_num = 5, vi_inner = RegularFileInner demo_file\<rparr>))], vx_counter = 2\<rparr>], next_arc = 1\<rparr>"

definition demo_backed :: file_backed_region where
  "demo_backed = \<lparr>fbr_region = \<lparr>lazy_segment = Segment 8192 4096, lazy_size = 4096,
     lazy_flags = {PRESENT, USER_ACCESSIBLE}, physical_frames = []\<rparr>, fbr_node = demo_node, fbr_offset = 900, fbr_len = 200\<rparr>"

definition demo_process :: "(nat \<Rightarrow> (nat \<times> page_flag set) option, (memory_block_device, unit) kernel_fs) memory" where
  "demo_process = \<lparr>table = Map.empty, phys = Stage1 (bump_new demo_map), ram = (\<lambda>_. 0xEE), active = True,
     files = demo_files, mem_regions = [FileBacked demo_backed]\<rparr>"

definition demo_serial :: "unit \<Rightarrow> rstr \<Rightarrow> (unit, unit, unit) run" where
  "demo_serial o' s = (Ok (), o')"

lemma demo_file_at: "\<exists>x. file_at demo_files demo_node = Some (x, demo_file) \<and> vx_fs x = demo_fs"
  by (simp add: file_at_def demo_files_def demo_node_def)

lemma demo_blocks: "i \<le> 4 \<Longrightarrow> block_index_ref demo_env demo_fs demo_file i = Ok (if i = 0 then Some 2 else None)"
  by (auto simp: block_index_ref_def indirect_pointer_limits_def demo_block_size u32_defs direct_ptrs_def
      demo_file_def nth_opt_def address_new_def nth_Cons')

lemma demo_readable: "readable_file demo_env mem_valid mem_data demo_node demo_files"
proof -
  obtain x where x: "file_at demo_files demo_node = Some (x, demo_file)" "vx_fs x = demo_fs" using demo_file_at by blast
  have "block_inside 1024 (mem_data (disk demo_fs)) 2" by (simp add: block_inside_def demo_fs_def)
  then have "\<exists>p. block_index_ref demo_env demo_fs demo_file i = Ok p \<and>
      (\<forall>c. p = Some c \<longrightarrow> block_inside 1024 (mem_data (disk demo_fs)) c)" if "i \<le> 4" for i
    using demo_blocks [OF that] by auto
  then show ?thesis
    unfolding readable_file_def
    by (intro conjI demo_device exI [of _ x] exI [of _ demo_file] exI [of _ 1024])
      (simp_all add: x demo_valid demo_cache_ok demo_block_size demo_len)
qed

lemma demo_content:
  "length (ext2_content demo_env mem_data demo_node demo_files) = 1000"
  "ext2_content demo_env mem_data demo_node demo_files ! 999 = 7"
proof -
  obtain x where x: "file_at demo_files demo_node = Some (x, demo_file)" "vx_fs x = demo_fs" using demo_file_at by blast
  have bs: "fs_block_bytes demo_fs = 1024" by (simp add: fs_block_bytes_def demo_block_size)
  have "block_bytes 1024 (mem_data (disk demo_fs)) (Some 2) ! 999 = 7"
    by (simp add: block_bytes_def demo_fs_def slice_def)
  moreover have "block_of demo_env demo_fs demo_file 0 = Some 2" by (simp add: block_of_def demo_resolve)
  ultimately show "ext2_content demo_env mem_data demo_node demo_files ! 999 = 7"
    by (simp add: ext2_content_def x demo_len bs file_byte_def)
  show "length (ext2_content demo_env mem_data demo_node demo_files) = 1000"
    by (simp add: ext2_content_def x demo_len)
qed

lemma demo_page_in: "\<exists>fb' m'. page_in (kernel_methods demo_env demo_serial) demo_paging demo_backed 8192 demo_process = (Ok fb', m')"
proof -
  let ?rd = "node_read (kernel_methods demo_env demo_serial) demo_node"
  have "900 + 0 + 200 < U64_LIMIT" by (simp add: U64_LIMIT_def)
  then obtain buf fs where fill: "fill_from_file ?rd 900 0 200 (read_bytes 0 4096 (\<lambda>_. 0xEE)) demo_files = ((Ok (), buf), fs)"
    using ext2_file.fill_from_file_bytes [OF demo_readable, of 200 "read_bytes 0 4096 (\<lambda>_. 0xEE)" 900 0 demo_serial] by auto
  show ?thesis
    using fill demo_stage1(1)
    by (simp add: page_in_def unwrap_def checked_sub_def map_and_fill_def take_frame_def owned_from_frame_def demo_containing_def
        as_map_def after_map_def fill_page_def page_buffer_def store_page_def as_remap_def demo_paging_def demo_process_def demo_backed_def)
qed

theorem paged_in_ext2_file_witness:
  "\<exists>fb' m' frame. page_in (kernel_methods demo_env demo_serial) demo_paging demo_backed 8192 demo_process = (Ok fb', m') \<and>
     pt_translate demo_paging (table m') 8192 = Some (frame, {PRESENT, USER_ACCESSIBLE}) \<and>
     read_bytes frame 4096 (ram m') ! 99 = 7 \<and> read_bytes frame 4096 (ram m') ! 100 = 0"
proof -
  obtain fb' m' where run: "page_in (kernel_methods demo_env demo_serial) demo_paging demo_backed 8192 demo_process = (Ok fb', m')"
    using demo_page_in by blast
  have "readable_file demo_env mem_valid mem_data (fbr_node demo_backed) (files demo_process)"
    "start (lazy_segment (fbr_region demo_backed)) \<le> 8192" "pt_translate demo_paging (table demo_process) 8192 = None"
    "fbr_offset demo_backed + (8192 - start (lazy_segment (fbr_region demo_backed))) + 4096 < U64_LIMIT"
    by (simp_all add: demo_readable demo_backed_def demo_process_def demo_paging_def U64_LIMIT_def)
  from paged_in_ext2_file [OF demo_paging_ok(1) this(1-3) run this(4)] obtain frame where
    "pt_translate demo_paging (table m') 8192 = Some (frame, {PRESENT, USER_ACCESSIBLE})"
    "read_bytes frame 4096 (ram m') ! 99 = 7" "read_bytes frame 4096 (ram m') ! 100 = 0"
    by (auto simp: demo_backed_def demo_process_def demo_content)
  then show ?thesis using run by blast
qed

end
