(* ===== verification/Spec2Isabelle.thy ===== *)
theory Spec2Isabelle
  imports Phys_Mem_Free Virt_Mem Signal_Delivery Park Ext2_File Exec_Stack Paging_Ext2
begin

text \<open>
  A verification library for the muffin kernel: an x86-64 operating system kernel in Rust, split
  into library crates under \<open>src/kernel\<close> and the kernel proper under \<open>src/kernel/boot\<close>, with
  userspace programs under \<open>src/userspace\<close>. The crates hold the policies (which frame, which
  segment, which signal, which slot, which block); the kernel proper connects them to the hardware.
  The library models the crates operation by operation and proves what each promises.

  \<^bold>\<open>Conventions.\<close> A fallible operation returns an \<open>outcome\<close> of \<open>Muffin_Prelude\<close>: \<open>Ok\<close>, \<open>Err\<close> with
  the error of the source, or \<open>Panic\<close> where the code unwraps, indexes out of range, asserts or
  overflows, as in a build with overflow checks, the \<open>dbg\<close> mode of the tests; in the \<open>opt\<close> mode
  such sums wrap around instead, and the theorems then say nothing about the runs in which they
  would have overflowed. An \<open>Option\<close> result is an outcome with the
  error type \<open>unit\<close>. Stateful operations return a pair of outcome and new state (\<open>run\<close>), so that
  what an operation has changed before it fails is visible. Addresses, lengths and indices of type
  \<open>usize\<close> or \<open>u64\<close> are natural numbers with the limits written out, bit masks and on-disk fields are
  machine words. A loop that may run forever is a \<open>partial_function (option)\<close>, with a theorem that
  it returns; no model uses fuel. Code of other packages is an argument of the definitions that
  call it, with what is documented of it as named hypotheses: the constructors of physical frames
  and virtual addresses of the \<open>x86_64\<close> crate (\<open>frame_constructor\<close>, \<open>va_add\<close>, \<open>canonical\<close>, \<open>trunc\<close>),
  truncation of flags of the \<open>bitflags\<close> crate, and whether user memory can be read.

  \<^bold>\<open>Physical memory\<close> (\<open>kernel/physical_memory\<close>; theories \<open>Phys_Mem\<close>, \<open>Phys_Mem_Alloc\<close>,
  \<open>Phys_Mem_Free\<close>). \<open>physical_memory_manager\<close> is the list of regions with one state per 4 KiB frame
  and the cached first free frame. \<open>allocate_frames_impl\<close> is the search over regions for an aligned
  run of free frames of one of the three page sizes, \<open>deallocate_frame\<close> and \<open>deallocate_frames\<close> give
  frames back. The lemmas show soundness and completeness of the search, panics of its sums for
  absurdly large requests included, that the cache is the
  lowest free frame in every reachable manager, and that deallocation undoes allocation.

  \<^bold>\<open>Virtual memory\<close> (\<open>kernel/virtual_memory\<close>; theory \<open>Virt_Mem\<close>). Segments in a sorted set;
  \<open>reserve\<close>, \<open>release\<close> and \<open>mark_as_reserved\<close>. Reserved segments never overlap, and a reservation ends
  with the lowest place that fits, or with nothing, or with a panic of the address arithmetic, each
  in exactly stated cases.

  \<^bold>\<open>System call interface\<close> (\<open>kernel/abi\<close>, \<open>kernel/syscall\<close>; theories \<open>Abi\<close>, \<open>User_Ptr\<close>, \<open>Signals\<close>).
  The numbers of the interface and their conversions; the checks of userspace pointers; the signal
  state of a process with pending, blocked and action tables, and \<open>sys_kill\<close> over the locale
  \<open>kill_interface\<close>, which holds what the kernel promises of processes, permissions and delivery.

  \<^bold>\<open>Signal delivery\<close> (\<open>kernel/boot/src/arch/signal.rs\<close>, \<open>syscall/access/signal.rs\<close>; theory
  \<open>Signal_Delivery\<close>). The process table with its tasks, the tick that acts on pending signals, the
  frame written to the user stack and \<open>sys_sigreturn\<close>. \<open>kernel_access\<close> interprets \<open>kill_interface\<close>.

  \<^bold>\<open>Parking\<close> (\<open>kernel/park\<close>; theory \<open>Park\<close>). Slots with their atomic state, once as functions and
  once as the relation \<open>park_step\<close>, whose steps are the single atomic accesses of concurrent
  operations; rights are tokens in a multiset. Every interleaving keeps rights exclusive and values
  conserved.

  \<^bold>\<open>Block devices and ext2\<close> (\<open>kernel/device\<close>, \<open>kernel/ext2\<close>; theories \<open>Block_Device\<close>,
  \<open>Ext2_Layout\<close>, \<open>Ext2_Fs\<close>, \<open>Ext2_Read\<close>, \<open>Ext2_Dir\<close>). The locale \<open>sector_device\<close> is the contract of the
  sector operations over the byte contents of a device; the device in memory interprets it, and
  \<open>read_at\<close> and \<open>write_at\<close> are shown to act on byte ranges. On top of it the on-disk structures with
  their byte layouts, mounting, allocation, the resolution of block indices with its cache of
  indirect blocks, reading in coalesced runs, directories and writing.

  \<^bold>\<open>Paths\<close> (\<open>kernel/vfs/src/path\<close>; theory \<open>Vfs_Path\<close>). Strings as scalar values with the byte
  offsets of their encoding, so that slicing inside a character panics as in the code.

  \<^bold>\<open>Virtual file system\<close> (\<open>kernel/vfs/src/vfs\<close>, \<open>kernel/vfs/src/fs.rs\<close>; theory \<open>Vfs\<close>). The mount table,
  the search for the longest mounted prefix of a path, \<open>vfs_open\<close> and the operations of a node; the
  \<open>FileSystem\<close> trait is the record \<open>file_system\<close>, and the locale \<open>handle_provider\<close> is what its
  implementations promise of handles.

  \<^bold>\<open>File systems\<close> (\<open>kernel/devfs\<close>, \<open>kernel/boot/src/file\<close>; theories \<open>Devfs\<close>, \<open>Ext2_File\<close>). The device
  file system with its files, the framebuffer file, and the mounted ext2 file system with path lookup
  and handles. Both and their choice behind the trait interpret \<open>handle_provider\<close>, so that the handles
  open in a file system are exactly those of the nodes open on it.

  \<^bold>\<open>Boot memory\<close> (\<open>kernel/boot/src/mem/phys.rs\<close>; theory \<open>Boot_Phys\<close>). The bump allocator over the memory
  map, the frame manager that replaces it and \<open>init_stage2\<close> between them; \<open>boot_step\<close> is the relation
  of all calls together with the frames that are held. No frame is handed out while it is held,
  across the change of stages.

  \<^bold>\<open>Address spaces\<close> (\<open>kernel/boot/src/mem/address_space\<close>, \<open>kernel/boot/src/mcore/mtask/process/mem.rs\<close>,
  \<open>make_user_range_resident\<close>; theories \<open>Address_Space\<close>, \<open>Paging_Ext2\<close>). Mapping, access checks, memory
  regions and paging in over a page table that is the parameter \<open>paging\<close>, with what the \<open>x86_64\<close> crate
  documents of it as \<open>paging_ok\<close>. A range of the lower half made resident is accessible, and no other page of
  the lower half is mapped. The
  locale \<open>file_contents\<close> is what paging relies on of a file; reading an ext2 file through its node
  interprets it, and a page of a mapped file holds the bytes the disk has.

  \<^bold>\<open>Program start\<close> (\<open>kernel/syscall/src/exec.rs\<close>; theory \<open>Exec_Stack\<close>). The initial stack, byte by byte.

  \<^bold>\<open>Bounds.\<close> Sizes are those of the source: 2^64 for addresses, 2^32 for block numbers, 512 bytes of
  FPU state, 64 slots of a segment, 2^52 for physical addresses. The one bound that is not is the 2^63
  small frames up to which an allocation is shown not to overflow: physical regions have at most 2^40.

  \<^bold>\<open>Not modelled.\<close> The contents of page tables (the \<open>x86_64\<close> crate walks and edits them) and the
  construction of a new one from raw memory; interrupts, timers, the context switch and device drivers
  (assembly, registers and third-party drivers); the kernel heap; the scheduler queues, the ELF loader,
  the file system calls above the nodes and logging; the graphics library and the userspace programs;
  the test programs and the host tools.
\<close>

end
